(* ===== verification/Prelude.thy ===== *)
theory Prelude
  imports Main "HOL-Library.Word" "HOL-Library.Sublist"
begin

text \<open>
  Shared vocabulary of the development: the machine integers of the Rust sources as words, the
  checked and saturating operations of Rust's integer types, results as sums (\<open>Inl\<close> the error),
  and the little-endian encoding of integers that every on-disk record of Maki uses. The
  collections \<open>codec_simps\<close> (evaluating a decoder on bytes a writer produced) and \<open>word_arith\<close>
  (reading word arithmetic through \<open>unat\<close>) carry the proofs of the component theories.
\<close>

named_theorems codec_simps "evaluation of encoders and decoders"
named_theorems word_arith "word arithmetic read through unat"

type_synonym byte = "8 word"
type_synonym u16 = "16 word"
type_synonym u32 = "32 word"
type_synonym u64 = "64 word"
type_synonym bytes = "byte list"
type_synonym uuid = "byte list"

section \<open>Integer operations of the Rust standard library\<close>

definition checked_add :: "'a::len word \<Rightarrow> 'a word \<Rightarrow> 'a word option" where
  "checked_add a b = (if unat a + unat b < 2 ^ LENGTH('a) then Some (a + b) else None)"

definition checked_mul :: "'a::len word \<Rightarrow> 'a word \<Rightarrow> 'a word option" where
  "checked_mul a b = (if unat a * unat b < 2 ^ LENGTH('a) then Some (a * b) else None)"

definition saturating_add :: "'a::len word \<Rightarrow> 'a word \<Rightarrow> 'a word" where
  "saturating_add a b = (if unat a + unat b < 2 ^ LENGTH('a) then a + b else - 1)"

definition saturating_sub :: "'a::len word \<Rightarrow> 'a word \<Rightarrow> 'a word" where
  "saturating_sub a b = (if b \<le> a then a - b else 0)"

definition saturating_mul :: "'a::len word \<Rightarrow> 'a word \<Rightarrow> 'a word" where
  "saturating_mul a b = (if unat a * unat b < 2 ^ LENGTH('a) then a * b else - 1)"

text \<open>\<open>u64::div_ceil\<close>: the quotient, plus one when there is a remainder; a zero divisor panics in
  Rust and never reaches this definition in the model.\<close>

definition div_ceil :: "'a::len word \<Rightarrow> 'a word \<Rightarrow> 'a word" where
  "div_ceil a b = (if a mod b = 0 then a div b else a div b + 1)"

definition is_multiple_of :: "'a::len word \<Rightarrow> 'a word \<Rightarrow> bool" where
  "is_multiple_of a b = (if b = 0 then a = 0 else a mod b = 0)"

lemma unat_lt2p: "unat (w :: 'a::len word) < 2 ^ LENGTH('a)"
  by (rule unsigned_less)

lemma unat_ucast_64 [simp]: "unat (ucast (w :: u32) :: u64) = unat w"
  by (simp add: unsigned_ucast_eq take_bit_nat_eq_self unat_lt2p [of w, THEN order.strict_trans])

lemma unat_div_word [word_arith]: "unat (a div b) = unat a div unat (b :: 'a::len word)"
  by (rule unat_div)

lemma unat_mod_word [word_arith]: "unat (a mod b) = unat a mod unat (b :: 'a::len word)"
  by (rule unat_mod)

lemma checked_add_SomeD [dest]:
  "checked_add a b = Some c \<Longrightarrow> unat c = unat a + unat b \<and> c = a + b"
  by (auto simp: checked_add_def unat_word_ariths split: if_splits)

lemma checked_mul_SomeD [dest]:
  "checked_mul a b = Some c \<Longrightarrow> unat c = unat a * unat b \<and> c = a * b"
  by (auto simp: checked_mul_def unat_word_ariths split: if_splits)

lemma checked_add_None_iff:
  "checked_add a b = None \<longleftrightarrow> 2 ^ LENGTH('a) \<le> unat a + unat (b :: 'a::len word)"
  by (auto simp: checked_add_def)

lemma checked_mul_None_iff:
  "checked_mul a b = None \<longleftrightarrow> 2 ^ LENGTH('a) \<le> unat a * unat (b :: 'a::len word)"
  by (auto simp: checked_mul_def)

lemma unat_saturating_sub [word_arith]:
  "unat (saturating_sub a b) = unat a - unat (b :: 'a::len word)"
  by (auto simp: saturating_sub_def unat_sub word_le_nat_alt)

lemma is_multiple_of_unat [word_arith]:
  "is_multiple_of a b \<longleftrightarrow> unat (b :: 'a::len word) dvd unat a"
proof -
  have "(a mod b = 0) = (unat (a mod b) = 0)"
    by (simp add: unat_eq_zero)
  then show ?thesis
    by (auto simp: is_multiple_of_def unat_mod_word dvd_eq_mod_eq_0 unat_eq_zero)
qed

lemma nat_div_ceil:
  assumes "0 < b"
  shows "(if a mod b = 0 then a div b else a div b + 1) = (a + b - 1) div (b::nat)"
proof -
  have a: "a = b * (a div b) + a mod b" by simp
  have r: "a mod b < b" using assms by simp
  show ?thesis
  proof (cases "a mod b = 0")
    case True
    have "(a + b - 1) div b = a div b"
    proof (rule div_nat_eqI)
      show "b * (a div b) \<le> a + b - 1" using a assms by linarith
      show "a + b - 1 < b * Suc (a div b)"
        using a True assms by (simp only: mult_Suc_right)
    qed
    with True show ?thesis by simp
  next
    case False
    have "(a + b - 1) div b = a div b + 1"
    proof (rule div_nat_eqI)
      show "b * (a div b + 1) \<le> a + b - 1"
        using a False by (simp only: distrib_left mult_1_right)
      show "a + b - 1 < b * Suc (a div b + 1)"
        using a r by (simp only: mult_Suc_right distrib_left mult_1_right)
    qed
    with False show ?thesis by simp
  qed
qed

lemma unat_div_ceil [word_arith]:
  assumes "0 < unat b"
  shows "unat (div_ceil a b) = (unat a + unat b - 1) div unat (b :: 'a::len word)"
proof -
  have zero: "(a mod b = 0) = (unat a mod unat b = 0)"
    by (metis unat_eq_zero unat_mod)
  have small: "unat a div unat b + 1 < 2 ^ LENGTH('a)" if "unat a mod unat b \<noteq> 0"
  proof -
    have "1 < unat b" using that assms by (metis less_one linorder_neqE_nat mod_by_1 not_gr_zero)
    then have "unat a div unat b < unat a \<or> unat a = 0"
      by (metis div_less_dividend not_gr_zero)
    then have "unat a div unat b < unat a"
      using that by auto
    then show ?thesis
      using unat_lt2p [of a] by linarith
  qed
  show ?thesis
  proof (cases "unat a mod unat b = 0")
    case True
    then show ?thesis
      using nat_div_ceil [OF assms, of "unat a"] zero by (simp add: div_ceil_def unat_div)
  next
    case False
    have "unat (a div b + 1) = unat a div unat b + 1"
      using small [OF False] by (simp add: unat_word_ariths unat_div)
    then show ?thesis
      using nat_div_ceil [OF assms, of "unat a"] False zero by (simp add: div_ceil_def)
  qed
qed

section \<open>Results\<close>

text \<open>A Rust \<open>Result\<close> is a sum; \<open>res_bind\<close> is the \<open>?\<close> operator.\<close>

definition res_bind :: "'e + 'a \<Rightarrow> ('a \<Rightarrow> 'e + 'b) \<Rightarrow> 'e + 'b" where
  "res_bind m f = (case m of Inl e \<Rightarrow> Inl e | Inr x \<Rightarrow> f x)"

lemma res_bind_simps [simp]:
  "res_bind (Inl e) f = Inl e"
  "res_bind (Inr x) f = f x"
  by (simp_all add: res_bind_def)

lemma res_bind_InrE [elim]:
  assumes "res_bind m f = Inr y"
  obtains x where "m = Inr x" and "f x = Inr y"
  using assms by (cases m) auto

definition ok_or :: "'a option \<Rightarrow> 'e \<Rightarrow> 'e + 'a" where
  "ok_or x e = (case x of None \<Rightarrow> Inl e | Some v \<Rightarrow> Inr v)"

lemma ok_or_simps [simp]:
  "ok_or None e = Inl e"
  "ok_or (Some v) e = Inr v"
  by (simp_all add: ok_or_def)

lemma ok_or_InrD [dest]: "ok_or x e = Inr v \<Longrightarrow> x = Some v"
  by (cases x) auto

definition is_ok :: "'e + 'a \<Rightarrow> bool" where
  "is_ok r = (case r of Inl _ \<Rightarrow> False | Inr _ \<Rightarrow> True)"

lemma is_ok_simps [simp]: "\<not> is_ok (Inl e)" "is_ok (Inr v)"
  by (simp_all add: is_ok_def)

definition res_ok :: "'e + 'a \<Rightarrow> 'a option" where
  "res_ok r = (case r of Inl _ \<Rightarrow> None | Inr v \<Rightarrow> Some v)"

lemma res_ok_simps [simp]: "res_ok (Inl e) = None" "res_ok (Inr v) = Some v"
  by (simp_all add: res_ok_def)

lemma res_ok_SomeD [dest]: "res_ok r = Some v \<Longrightarrow> r = Inr v"
  by (cases r) auto

section \<open>Little-endian integers\<close>

primrec le_bytes :: "nat \<Rightarrow> nat \<Rightarrow> bytes" where
  "le_bytes 0 v = []"
| "le_bytes (Suc n) v = of_nat v # le_bytes n (v div 256)"

primrec le_nat :: "bytes \<Rightarrow> nat" where
  "le_nat [] = 0"
| "le_nat (b # bs) = unat b + 256 * le_nat bs"

lemma length_le_bytes [simp]: "length (le_bytes n v) = n"
  by (induction n arbitrary: v) auto

lemma le_nat_le_bytes: "le_nat (le_bytes n v) = v mod 256 ^ n"
proof (induction n arbitrary: v)
  case 0
  then show ?case by simp
next
  case (Suc n)
  have "unat (of_nat v :: byte) = v mod 256"
    by (simp add: unat_of_nat)
  then show ?case
    using Suc.IH [of "v div 256"] by (simp add: mod_mult2_eq)
qed

lemma le_nat_less: "le_nat bs < 256 ^ length bs"
proof (induction bs)
  case Nil
  then show ?case by simp
next
  case (Cons b bs)
  have "unat b < 256"
    using unat_lt2p [of b] by simp
  with Cons show ?case by simp
qed

lemma le_bytes_le_nat: "le_bytes (length bs) (le_nat bs) = bs"
proof (induction bs)
  case Nil
  then show ?case by simp
next
  case (Cons b bs)
  have "unat b < 256"
    using unat_lt2p [of b] by simp
  then have "(unat b + 256 * le_nat bs) div 256 = le_nat bs"
    by simp
  moreover have "(of_nat (unat b + 256 * le_nat bs) :: byte) = b"
  proof -
    have "(of_nat 256 :: byte) = 0" by simp
    then show ?thesis by (simp only: of_nat_add of_nat_mult mult_zero_left) simp
  qed
  ultimately show ?case
    using Cons.IH by simp
qed

lemma le_bytes_inj: "v < 256 ^ n \<Longrightarrow> w < 256 ^ n \<Longrightarrow> le_bytes n v = le_bytes n w \<Longrightarrow> v = w"
  by (metis le_nat_le_bytes mod_less)

text \<open>\<open>to_le_bytes\<close> and \<open>from_le_bytes\<close> of \<open>u16\<close>, \<open>u32\<close> and \<open>u64\<close>.\<close>

definition le16 :: "u16 \<Rightarrow> bytes" where "le16 w = le_bytes 2 (unat w)"
definition le32 :: "u32 \<Rightarrow> bytes" where "le32 w = le_bytes 4 (unat w)"
definition le64 :: "u64 \<Rightarrow> bytes" where "le64 w = le_bytes 8 (unat w)"

definition from_le16 :: "bytes \<Rightarrow> u16" where "from_le16 bs = of_nat (le_nat bs)"
definition from_le32 :: "bytes \<Rightarrow> u32" where "from_le32 bs = of_nat (le_nat bs)"
definition from_le64 :: "bytes \<Rightarrow> u64" where "from_le64 bs = of_nat (le_nat bs)"

lemma length_le [simp]:
  "length (le16 a) = 2" "length (le32 b) = 4" "length (le64 c) = 8"
  by (simp_all add: le16_def le32_def le64_def)

lemma from_le_le [simp]:
  "from_le16 (le16 a) = a" "from_le32 (le32 b) = b" "from_le64 (le64 c) = c"
proof -
  have "unat a < 256 ^ 2" "unat b < 256 ^ 4" "unat c < 256 ^ 8"
    using unat_lt2p [of a] unat_lt2p [of b] unat_lt2p [of c] by simp_all
  then show "from_le16 (le16 a) = a" "from_le32 (le32 b) = b" "from_le64 (le64 c) = c"
    by (simp_all add: from_le16_def le16_def from_le32_def le32_def from_le64_def le64_def
        le_nat_le_bytes)
qed

lemma le_from_le:
  "length bs = 2 \<Longrightarrow> le16 (from_le16 bs) = bs"
  "length bs = 4 \<Longrightarrow> le32 (from_le32 bs) = bs"
  "length bs = 8 \<Longrightarrow> le64 (from_le64 bs) = bs"
  using le_nat_less [of bs] le_bytes_le_nat [of bs]
  by (simp_all add: from_le16_def le16_def from_le32_def le32_def from_le64_def le64_def
      unat_of_nat)

lemma le_inj [simp]:
  "le16 a = le16 a' \<longleftrightarrow> a = a'" "le32 b = le32 b' \<longleftrightarrow> b = b'" "le64 c = le64 c' \<longleftrightarrow> c = c'"
  by (metis from_le_le)+

section \<open>Lists\<close>

lemma take_drop_append [codec_simps]:
  "n = length xs \<Longrightarrow> take n (xs @ ys) = xs"
  "n = length xs \<Longrightarrow> drop n (xs @ ys) = ys"
  by simp_all

lemma take_eq_split: "take n xs = ys \<Longrightarrow> n \<le> length xs \<Longrightarrow> xs = ys @ drop n xs \<and> length ys = n"
  by (metis append_take_drop_id length_take min.absorb2)

end
