(* ===== verification/Codec.thy ===== *)
theory Codec
  imports Prelude
begin

text \<open>
  The bounds-checked byte codec of \<open>crates/maki-format/src/codec.rs\<close> and the error taxonomy of
  \<open>error.rs\<close>. A \<open>Reader\<close> is a record of buffer and position; each of its methods is a state
  transformer that fails with a \<open>FormatError\<close>. A \<open>Writer\<close> is the byte list written so far. The
  CRC-32 of the third-party crate \<open>crc32fast\<close> is the parameter \<open>crc\<close> of every definition that
  uses it; nothing is assumed of it but that it is a function of the bytes. Error values keep the
  static part of the Rust message as their label, without the formatted numbers. A Rust panic on
  an encoding path is the value \<open>Panicked\<close>.
\<close>

section \<open>Errors\<close>

text \<open>\<open>std::io::Error\<close> by its kind.\<close>

datatype io_error =
    NotFound | UnexpectedEof | WouldBlock | InvalidInput | StorageFull | UnsupportedIo | OtherIo

datatype format_error =
    Truncated string
  | BadMagic string
  | BadChecksum string
  | Unsupported string
  | Invalid string
  | Overflow string
  | AlreadyExists string
  | FormatIo io_error
  | Panicked string

section \<open>Reader\<close>

record reader =
  rd_buf :: bytes
  rd_pos :: nat

type_synonym 'a rd = "reader \<Rightarrow> format_error + 'a \<times> reader"

definition rd_bind :: "'a rd \<Rightarrow> ('a \<Rightarrow> 'b rd) \<Rightarrow> 'b rd" where
  "rd_bind m f r = (case m r of Inl e \<Rightarrow> Inl e | Inr (x, r') \<Rightarrow> f x r')"

definition rd_return :: "'a \<Rightarrow> 'a rd" where
  "rd_return x r = Inr (x, r)"

definition rd_fail :: "format_error \<Rightarrow> 'a rd" where
  "rd_fail e r = Inl e"

definition rd_run :: "'a rd \<Rightarrow> bytes \<Rightarrow> format_error + 'a" where
  "rd_run m buf = map_sum id fst (m \<lparr>rd_buf = buf, rd_pos = 0\<rparr>)"

definition rd_remaining :: "reader \<Rightarrow> nat" where
  "rd_remaining r = length (rd_buf r) - rd_pos r"

definition rd_position :: "reader \<Rightarrow> nat" where
  "rd_position r = rd_pos r"

definition rd_take :: "nat \<Rightarrow> bytes rd" where
  "rd_take n r =
     (if rd_remaining r < n then Inl (Truncated ''need bytes'')
      else Inr (take n (drop (rd_pos r) (rd_buf r)), r\<lparr>rd_pos := rd_pos r + n\<rparr>))"

definition rd_u8 :: "byte rd" where
  "rd_u8 = rd_bind (rd_take 1) (\<lambda>b. rd_return (b ! 0))"

definition rd_u16 :: "u16 rd" where
  "rd_u16 = rd_bind (rd_take 2) (\<lambda>b. rd_return (from_le16 b))"

definition rd_u32 :: "u32 rd" where
  "rd_u32 = rd_bind (rd_take 4) (\<lambda>b. rd_return (from_le32 b))"

definition rd_u64 :: "u64 rd" where
  "rd_u64 = rd_bind (rd_take 8) (\<lambda>b. rd_return (from_le64 b))"

definition rd_uuid :: "uuid rd" where
  "rd_uuid = rd_take 16"

text \<open>\<open>String::from_utf8\<close> of the standard library: the well-formed byte sequences of the Unicode
  standard.\<close>

definition utf8_cont :: "byte \<Rightarrow> bool" where
  "utf8_cont b \<longleftrightarrow> 0x80 \<le> unat b \<and> unat b \<le> 0xBF"

fun utf8_valid :: "bytes \<Rightarrow> bool" where
  "utf8_valid [] = True"
| "utf8_valid (b # bs) =
     (let n = unat b in
      if n < 0x80 then utf8_valid bs
      else if 0xC2 \<le> n \<and> n \<le> 0xDF then
        (case bs of c # cs \<Rightarrow> utf8_cont c \<and> utf8_valid cs | _ \<Rightarrow> False)
      else if 0xE0 \<le> n \<and> n \<le> 0xEF then
        (case bs of c # d # cs \<Rightarrow>
           utf8_cont c \<and> (n = 0xE0 \<longrightarrow> 0xA0 \<le> unat c) \<and> (n = 0xED \<longrightarrow> unat c \<le> 0x9F) \<and>
           utf8_cont d \<and> utf8_valid cs | _ \<Rightarrow> False)
      else if 0xF0 \<le> n \<and> n \<le> 0xF4 then
        (case bs of c # d # e # cs \<Rightarrow>
           utf8_cont c \<and> (n = 0xF0 \<longrightarrow> 0x90 \<le> unat c) \<and> (n = 0xF4 \<longrightarrow> unat c \<le> 0x8F) \<and>
           utf8_cont d \<and> utf8_cont e \<and> utf8_valid cs | _ \<Rightarrow> False)
      else False)"

definition rd_string :: "nat \<Rightarrow> bytes rd" where
  "rd_string mx =
     rd_bind rd_u16 (\<lambda>len.
     if mx < unat len then rd_fail (Invalid ''string length exceeds max'')
     else rd_bind (rd_take (unat len)) (\<lambda>bs.
     if utf8_valid bs then rd_return bs else rd_fail (Invalid ''string is not UTF-8'')))"

section \<open>Writer\<close>

type_synonym writer = bytes

definition w_bytes :: "bytes \<Rightarrow> writer \<Rightarrow> writer" where
  "w_bytes b w = w @ b"

definition w_u8 :: "byte \<Rightarrow> writer \<Rightarrow> writer" where
  "w_u8 v w = w @ [v]"

definition w_u16 :: "u16 \<Rightarrow> writer \<Rightarrow> writer" where
  "w_u16 v = w_bytes (le16 v)"

definition w_u32 :: "u32 \<Rightarrow> writer \<Rightarrow> writer" where
  "w_u32 v = w_bytes (le32 v)"

definition w_u64 :: "u64 \<Rightarrow> writer \<Rightarrow> writer" where
  "w_u64 v = w_bytes (le64 v)"

definition w_uuid :: "uuid \<Rightarrow> writer \<Rightarrow> writer" where
  "w_uuid v = w_bytes v"

definition w_string :: "bytes \<Rightarrow> nat \<Rightarrow> writer \<Rightarrow> format_error + writer" where
  "w_string s mx w =
     (if mx < length s then Inl (Invalid ''string length exceeds max'')
      else Inr (w_bytes s (w_u16 (of_nat (length s)) w)))"

definition w_pad_to :: "nat \<Rightarrow> writer \<Rightarrow> writer" where
  "w_pad_to len w = (if length w < len then w @ replicate (len - length w) 0 else w)"

definition write_all :: "(writer \<Rightarrow> writer) list \<Rightarrow> writer" where
  "write_all ops = fold (\<lambda>op w. op w) ops []"

definition finish_with_crc :: "(bytes \<Rightarrow> u32) \<Rightarrow> writer \<Rightarrow> bytes" where
  "finish_with_crc crc w = w @ le32 (crc w)"

definition strip_verify_crc :: "(bytes \<Rightarrow> u32) \<Rightarrow> bytes \<Rightarrow> string \<Rightarrow> format_error + bytes" where
  "strip_verify_crc crc buf what =
     (if length buf < 4 then Inl (Truncated what)
      else let payload = take (length buf - 4) buf;
               expected = from_le32 (drop (length buf - 4) buf)
           in if crc payload \<noteq> expected then Inl (BadChecksum what) else Inr payload)"

section \<open>Evaluation rules\<close>

text \<open>A decoder run on a buffer some writer produced evaluates by rewriting: each primitive takes
  its bytes from the position on.\<close>

declare rd_bind_def [codec_simps]

lemma rd_return_apply [codec_simps]: "rd_return x r = Inr (x, r)"
  by (simp add: rd_return_def)

lemma rd_fail_apply [codec_simps]: "rd_fail e r = Inl e"
  by (simp add: rd_fail_def)

lemma rd_take_apply [codec_simps]:
  "p + n \<le> length buf \<Longrightarrow>
   rd_take n \<lparr>rd_buf = buf, rd_pos = p\<rparr> =
     Inr (take n (drop p buf), \<lparr>rd_buf = buf, rd_pos = p + n\<rparr>)"
  by (simp add: rd_take_def rd_remaining_def)

lemma rd_int_apply [codec_simps]:
  "p + 2 \<le> length buf \<Longrightarrow>
   rd_u16 \<lparr>rd_buf = buf, rd_pos = p\<rparr> =
     Inr (from_le16 (take 2 (drop p buf)), \<lparr>rd_buf = buf, rd_pos = p + 2\<rparr>)"
  "p + 4 \<le> length buf \<Longrightarrow>
   rd_u32 \<lparr>rd_buf = buf, rd_pos = p\<rparr> =
     Inr (from_le32 (take 4 (drop p buf)), \<lparr>rd_buf = buf, rd_pos = p + 4\<rparr>)"
  "p + 8 \<le> length buf \<Longrightarrow>
   rd_u64 \<lparr>rd_buf = buf, rd_pos = p\<rparr> =
     Inr (from_le64 (take 8 (drop p buf)), \<lparr>rd_buf = buf, rd_pos = p + 8\<rparr>)"
  "p + 16 \<le> length buf \<Longrightarrow>
   rd_uuid \<lparr>rd_buf = buf, rd_pos = p\<rparr> =
     Inr (take 16 (drop p buf), \<lparr>rd_buf = buf, rd_pos = p + 16\<rparr>)"
  by (simp_all add: rd_u16_def rd_u32_def rd_u64_def rd_uuid_def rd_bind_def rd_return_def
      rd_take_def rd_remaining_def)

lemmas writer_defs [codec_simps] =
  w_bytes_def w_u8_def w_u16_def w_u32_def w_u64_def w_uuid_def write_all_def

lemma rd_run_Inr: "m \<lparr>rd_buf = buf, rd_pos = 0\<rparr> = Inr (x, r) \<Longrightarrow> rd_run m buf = Inr x"
  by (simp add: rd_run_def)

lemma length_finish_with_crc [simp]: "length (finish_with_crc crc w) = length w + 4"
  by (simp add: finish_with_crc_def)

text \<open>The CRC trailer: what \<open>finish_with_crc\<close> wrote passes \<open>strip_verify_crc\<close>, and only such
  images pass.\<close>

lemma strip_verify_finish [simp]:
  "strip_verify_crc crc (finish_with_crc crc w) what = Inr w"
  by (simp add: strip_verify_crc_def finish_with_crc_def Let_def)

lemma strip_verify_InrD:
  assumes "strip_verify_crc crc buf what = Inr w"
  shows "buf = finish_with_crc crc w"
proof -
  let ?n = "length buf - 4"
  from assms have len: "4 \<le> length buf" and w: "w = take ?n buf"
    and c: "crc w = from_le32 (drop ?n buf)"
    by (auto simp: strip_verify_crc_def Let_def split: if_splits)
  have "le32 (crc w) = drop ?n buf"
    unfolding c using len by (simp add: le_from_le)
  then show ?thesis
    using w by (simp add: finish_with_crc_def)
qed

lemma strip_verify_iff:
  "strip_verify_crc crc buf what = Inr w \<longleftrightarrow> buf = finish_with_crc crc w"
  using strip_verify_InrD by fastforce

lemma w_pad_to_length: "length w \<le> n \<Longrightarrow> length (w_pad_to n w) = n"
  by (simp add: w_pad_to_def)

lemma w_pad_to_prefix: "\<exists>zs. w_pad_to n w = w @ zs"
  by (simp add: w_pad_to_def)

text \<open>The failure behaviour of the reader: a successful read consumed bytes of the buffer, and a
  reader never moves past its end.\<close>

definition rd_wf :: "reader \<Rightarrow> bool" where
  "rd_wf r \<longleftrightarrow> rd_pos r \<le> length (rd_buf r)"

lemma rd_take_wf: "rd_wf r \<Longrightarrow> rd_take n r = Inr (bs, r') \<Longrightarrow>
    rd_wf r' \<and> rd_buf r' = rd_buf r \<and> rd_pos r' = rd_pos r + n \<and> length bs = n \<and>
    bs = take n (drop (rd_pos r) (rd_buf r))"
  by (auto simp: rd_take_def rd_wf_def rd_remaining_def split: if_splits)

lemma rd_take_length: "rd_take n r = Inr (bs, r') \<Longrightarrow> length bs = n"
  by (auto simp: rd_take_def rd_remaining_def split: if_splits)

lemma rd_bind_InrE:
  assumes "rd_bind m f r = Inr (y, r'')"
  obtains x r' where "m r = Inr (x, r')" and "f x r' = Inr (y, r'')"
  using assms by (auto simp: rd_bind_def split: sum.splits)

lemma rd_return_InrD [dest!]: "rd_return x r = Inr (y, r') \<Longrightarrow> y = x \<and> r' = r"
  by (simp add: rd_return_def)

lemma rd_fail_InrD [dest!]: "rd_fail e r = Inr (y, r') \<Longrightarrow> False"
  by (simp add: rd_fail_def)

lemma rd_run_InrE:
  assumes "rd_run m buf = Inr x"
  obtains r where "m \<lparr>rd_buf = buf, rd_pos = 0\<rparr> = Inr (x, r)"
  using assms by (auto simp: rd_run_def map_sum_def split: sum.splits)

end
