(* ===== verification/Ab_Record.thy ===== *)
theory Ab_Record
  imports Codec
begin

text \<open>
  The trait \<open>AbRecord\<close> of \<open>crates/maki-format/src/ab.rs\<close> as a dictionary of its constant and its
  four methods, the type-agnostic decoder \<open>RawGeneration\<close>, and the contract every record type of
  the A/B protocol has to meet, as the locale \<open>ab_codec\<close>. Each record type's theory interprets
  that locale on its own definitions.
\<close>

record 'r ab_record =
  ab_max_encoded_len :: nat
  ab_generation :: "'r \<Rightarrow> u64"
  ab_set_generation :: "u64 \<Rightarrow> 'r \<Rightarrow> 'r"
  ab_encode :: "'r \<Rightarrow> format_error + bytes"
  ab_decode :: "bytes \<Rightarrow> format_error + 'r"

definition MAX_RECORD_SIZE :: nat where
  "MAX_RECORD_SIZE = 2 ^ 30"

definition raw_generation_decode :: "(bytes \<Rightarrow> u32) \<Rightarrow> bytes \<Rightarrow> format_error + u64" where
  "raw_generation_decode crc data =
     res_bind (strip_verify_crc crc data ''ab record'') (\<lambda>payload.
     rd_run (rd_bind (rd_take 8) (\<lambda>_. rd_bind rd_u32 (\<lambda>_. rd_u64))) payload)"

lemma raw_generation_decode_finish:
  assumes "length magic = 8"
  shows "raw_generation_decode crc (finish_with_crc crc (magic @ le32 v @ le64 g @ rest)) = Inr g"
  using assms by (simp add: raw_generation_decode_def rd_run_def codec_simps)

text \<open>Every A/B decoder reads magic, version and generation first; what it then does with the
  generation it read is its continuation \<open>k\<close>.\<close>

lemma raw_generation_of_decode:
  assumes "res_bind (strip_verify_crc crc data what)
      (rd_run (rd_bind (rd_take 8) (\<lambda>m. if c m then rd_fail e1
        else rd_bind rd_u32 (\<lambda>v. if d v then rd_fail e2 else rd_bind rd_u64 k)))) = Inr x"
  obtains g r r' where "raw_generation_decode crc data = Inr g" and "k g r = Inr (x, r')"
    and "rd_buf r = take (length data - 4) data" and "rd_pos r = 20"
proof -
  from assms obtain payload where strip: "strip_verify_crc crc data what = Inr payload"
    and run: "rd_run (rd_bind (rd_take 8) (\<lambda>m. if c m then rd_fail e1
        else rd_bind rd_u32 (\<lambda>v. if d v then rd_fail e2 else rd_bind rd_u64 k))) payload = Inr x"
    by (rule res_bind_InrE)
  have data: "data = finish_with_crc crc payload"
    using strip by (rule strip_verify_InrD)
  let ?g = "from_le64 (take 8 (drop 12 payload))"
  let ?r = "\<lparr>rd_buf = payload, rd_pos = 20\<rparr>"
  have long: "20 \<le> length payload"
    using run by (rule contrapos_pp)
      (auto simp: rd_run_def rd_bind_def rd_take_def rd_u32_def rd_u64_def rd_remaining_def
        rd_return_def rd_fail_def)
  then obtain r' where "k ?g ?r = Inr (x, r')"
    using run by (auto simp: rd_run_def codec_simps split: if_splits elim!: rd_run_InrE)
      (auto simp: map_sum_def split: sum.splits)
  moreover have "raw_generation_decode crc data = Inr ?g"
    using long by (simp add: data raw_generation_decode_def rd_run_def codec_simps)
  ultimately show thesis
    using that [of ?g ?r r'] by (simp add: data finish_with_crc_def)
qed

text \<open>The same for the decoders that checked the magic before the checksum.\<close>

lemmas raw_generation_of_decode' = raw_generation_of_decode [where c = "\<lambda>_. False", simplified]

text \<open>The contract: a well-formed record survives a round trip, its image is non-empty and within
  the type's bound, and every image within
  the bound that the type accepts carries the generation where the
  type-agnostic decoder reads it.\<close>

locale ab_codec =
  fixes crc :: "bytes \<Rightarrow> u32"
    and R :: "'r ab_record"
    and wf :: "'r \<Rightarrow> bool"
  assumes decode_encode: "wf r \<Longrightarrow> \<exists>b. ab_encode R r = Inr b \<and> ab_decode R b = Inr r"
    and encode_size: "wf r \<Longrightarrow> ab_encode R r = Inr b \<Longrightarrow> 20 \<le> length b \<and> length b \<le> ab_max_encoded_len R"
    and generation_set: "ab_generation R (ab_set_generation R g r) = g"
    and wf_set: "wf r \<Longrightarrow> wf (ab_set_generation R g r)"
    and decode_raw: "ab_decode R b = Inr r \<Longrightarrow> length b \<le> ab_max_encoded_len R \<Longrightarrow>
      raw_generation_decode crc b = Inr (ab_generation R r)"
begin

lemma encode_Inr: "wf r \<Longrightarrow> ab_encode R r = Inr b \<Longrightarrow> ab_decode R b = Inr r"
  using decode_encode [of r] by (metis Inr_inject)

lemma encode_raw: "wf r \<Longrightarrow> ab_encode R r = Inr b \<Longrightarrow> raw_generation_decode crc b = Inr (ab_generation R r)"
  using encode_Inr decode_raw encode_size by blast

lemma encode_inj: "wf r \<Longrightarrow> wf q \<Longrightarrow> ab_encode R r = Inr b \<Longrightarrow> ab_encode R q = Inr b \<Longrightarrow> r = q"
  using encode_Inr [of r b] encode_Inr [of q b] by simp

end

end
