(* ===== verification/Checkpoint.thy ===== *)
theory Checkpoint
  imports Ab_Record
begin

text \<open>
  The checkpoint state record of \<open>crates/maki-format/src/checkpoint.rs\<close>: its fixed 32-byte
  encoding and its instance of the A/B record contract.
\<close>

definition CHECKPOINT_MAGIC :: bytes where
  "CHECKPOINT_MAGIC = map (of_nat \<circ> of_char) ''MAKICKP1''"

definition CHECKPOINT_VERSION :: u32 where "CHECKPOINT_VERSION = 1"

definition CHECKPOINT_STATE_A :: string where "CHECKPOINT_STATE_A = ''checkpoint/state.a''"
definition CHECKPOINT_STATE_B :: string where "CHECKPOINT_STATE_B = ''checkpoint/state.b''"

record checkpoint_state =
  ck_generation :: u64
  checkpoint_sequence :: u64

definition checkpoint_encode :: "(bytes \<Rightarrow> u32) \<Rightarrow> checkpoint_state \<Rightarrow> bytes" where
  "checkpoint_encode crc s =
     finish_with_crc crc (write_all
       [w_bytes CHECKPOINT_MAGIC, w_u32 CHECKPOINT_VERSION, w_u64 (ck_generation s),
        w_u64 (checkpoint_sequence s)])"

definition checkpoint_decode :: "(bytes \<Rightarrow> u32) \<Rightarrow> bytes \<Rightarrow> format_error + checkpoint_state" where
  "checkpoint_decode crc data =
     res_bind (strip_verify_crc crc data ''checkpoint state'') (rd_run (
     rd_bind (rd_take 8) (\<lambda>magic.
     if magic \<noteq> CHECKPOINT_MAGIC then rd_fail (BadMagic ''checkpoint state'')
     else rd_bind rd_u32 (\<lambda>version.
     if version \<noteq> CHECKPOINT_VERSION then rd_fail (Unsupported ''checkpoint state version'')
     else rd_bind rd_u64 (\<lambda>generation.
     rd_bind rd_u64 (\<lambda>sequence. \<lambda>r.
     if rd_remaining r \<noteq> 0 then Inl (Invalid ''checkpoint state: unexpected trailing bytes'')
     else rd_return \<lparr>ck_generation = generation, checkpoint_sequence = sequence\<rparr> r))))))"

definition checkpoint_ab :: "(bytes \<Rightarrow> u32) \<Rightarrow> checkpoint_state ab_record" where
  "checkpoint_ab crc =
     \<lparr>ab_max_encoded_len = 32, ab_generation = ck_generation,
      ab_set_generation = (\<lambda>g s. s\<lparr>ck_generation := g\<rparr>),
      ab_encode = (\<lambda>s. Inr (checkpoint_encode crc s)), ab_decode = checkpoint_decode crc\<rparr>"

lemma length_CHECKPOINT_MAGIC [simp]: "length CHECKPOINT_MAGIC = 8"
  by (simp add: CHECKPOINT_MAGIC_def)

lemma length_checkpoint_encode [simp]: "length (checkpoint_encode crc s) = 32"
  by (simp add: checkpoint_encode_def codec_simps)


lemma checkpoint_decode_encode: "checkpoint_decode crc (checkpoint_encode crc s) = Inr s"
  by (simp add: checkpoint_decode_def checkpoint_encode_def rd_run_def rd_remaining_def codec_simps)

lemma checkpoint_decode_raw:
  "checkpoint_decode crc b = Inr s \<Longrightarrow> raw_generation_decode crc b = Inr (ck_generation s)"
  unfolding checkpoint_decode_def
  by (erule raw_generation_of_decode) (auto elim!: rd_bind_InrE split: if_splits)

interpretation checkpoint: ab_codec crc "checkpoint_ab crc" "\<lambda>_. True" for crc
  by unfold_locales
    (auto simp: checkpoint_ab_def checkpoint_decode_encode checkpoint_decode_raw)

end
