(* ===== verification/Allocation.thy ===== *)
theory Allocation
  imports Ab_Record
begin

text \<open>
  The per-shard allocation bitmap of \<open>crates/maki-format/src/allocation.rs\<close>, the same format
  that also stores a shard's discard map. The bits stay bytes and the bit operations stay bit
  operations; \<open>alloc_set_of\<close> reads a map as the set of its allocated units, and the lemmas say
  that \<open>get\<close>, \<open>set\<close>, \<open>set_count\<close> and the codec implement that set. \<open>None\<close> as the result of an
  operation is the panic of its \<open>assert!\<close>.
\<close>

unbundle bit_operations_syntax

definition ALLOCATION_MAGIC :: bytes where
  "ALLOCATION_MAGIC = map (of_nat \<circ> of_char) ''MAKIALC1''"

definition ALLOCATION_VERSION :: u32 where "ALLOCATION_VERSION = 1"

definition ALLOCATION_FIXED_BYTES :: u64 where
  "ALLOCATION_FIXED_BYTES = of_nat (length ALLOCATION_MAGIC) + 4 + 8 + 8 + 4"

definition MAX_UNITS :: u64 where "MAX_UNITS = push_bit 32 1"

record allocation_map =
  al_generation :: u64
  al_units :: u64
  al_bits :: bytes

definition alloc_new :: "u64 \<Rightarrow> allocation_map option" where
  "alloc_new units =
     (if units \<le> MAX_UNITS then
        Some \<lparr>al_generation = 0, al_units = units, al_bits = replicate (unat (div_ceil units 8)) 0\<rparr>
      else None)"

definition alloc_get :: "allocation_map \<Rightarrow> u64 \<Rightarrow> bool option" where
  "alloc_get m unit =
     (let i = unat (unit div 8) in
      if unit < al_units m \<and> i < length (al_bits m)
      then Some ((al_bits m ! i) AND push_bit (unat (unit mod 8)) 1 \<noteq> 0) else None)"

definition alloc_set :: "allocation_map \<Rightarrow> u64 \<Rightarrow> bool \<Rightarrow> allocation_map option" where
  "alloc_set m unit allocated =
     (let i = unat (unit div 8); mask = push_bit (unat (unit mod 8)) 1 in
      if unit < al_units m \<and> i < length (al_bits m)
      then Some (m\<lparr>al_bits := (al_bits m)[i :=
             (if allocated then (al_bits m ! i) OR mask else (al_bits m ! i) AND NOT mask)]\<rparr>)
      else None)"

definition count_ones :: "byte \<Rightarrow> nat" where
  "count_ones b = length (filter (bit b) [0..<8])"

definition alloc_set_count :: "allocation_map \<Rightarrow> nat" where
  "alloc_set_count m = sum_list (map count_ones (al_bits m))"

definition alloc_encode :: "(bytes \<Rightarrow> u32) \<Rightarrow> allocation_map \<Rightarrow> bytes" where
  "alloc_encode crc m =
     finish_with_crc crc (write_all
       [w_bytes ALLOCATION_MAGIC, w_u32 ALLOCATION_VERSION, w_u64 (al_generation m),
        w_u64 (al_units m), w_bytes (al_bits m)])"

definition alloc_encoded_len :: "u64 \<Rightarrow> u64" where
  "alloc_encoded_len units = ALLOCATION_FIXED_BYTES + div_ceil units 8"

definition alloc_decode :: "(bytes \<Rightarrow> u32) \<Rightarrow> bytes \<Rightarrow> format_error + allocation_map" where
  "alloc_decode crc data =
     res_bind (strip_verify_crc crc data ''allocation map'') (rd_run (
     rd_bind (rd_take 8) (\<lambda>magic.
     if magic \<noteq> ALLOCATION_MAGIC then rd_fail (BadMagic ''allocation map'')
     else rd_bind rd_u32 (\<lambda>version.
     if version \<noteq> ALLOCATION_VERSION then rd_fail (Unsupported ''allocation map version'')
     else rd_bind rd_u64 (\<lambda>generation.
     rd_bind rd_u64 (\<lambda>units.
     if MAX_UNITS < units then rd_fail (Invalid ''allocation units'')
     else rd_bind (rd_take (unat (div_ceil units 8))) (\<lambda>bits. \<lambda>r.
     if rd_remaining r \<noteq> 0 then Inl (Invalid ''trailing bytes after allocation bitmap'')
     else rd_return \<lparr>al_generation = generation, al_units = units, al_bits = bits\<rparr> r)))))))"

definition alloc_ab :: "(bytes \<Rightarrow> u32) \<Rightarrow> allocation_map ab_record" where
  "alloc_ab crc =
     \<lparr>ab_max_encoded_len = MAX_RECORD_SIZE, ab_generation = al_generation,
      ab_set_generation = (\<lambda>g m. m\<lparr>al_generation := g\<rparr>),
      ab_encode = (\<lambda>m. Inr (alloc_encode crc m)), ab_decode = alloc_decode crc\<rparr>"

section \<open>Well-formed maps and the set they stand for\<close>

definition alloc_wf :: "allocation_map \<Rightarrow> bool" where
  "alloc_wf m \<longleftrightarrow> al_units m \<le> MAX_UNITS \<and> length (al_bits m) = unat (div_ceil (al_units m) 8)"

definition alloc_bit :: "allocation_map \<Rightarrow> nat \<Rightarrow> bool" where
  "alloc_bit m n \<longleftrightarrow> bit (al_bits m ! (n div 8)) (n mod 8)"

definition alloc_set_of :: "allocation_map \<Rightarrow> u64 set" where
  "alloc_set_of m = {u. u < al_units m \<and> alloc_bit m (unat u)}"

text \<open>The bits past the last unit, in the last byte, are zero in every map \<open>new\<close> and \<open>set\<close> build;
  \<open>decode\<close> does not check them.\<close>

definition alloc_padded :: "allocation_map \<Rightarrow> bool" where
  "alloc_padded m \<longleftrightarrow>
     (\<forall>n. unat (al_units m) \<le> n \<longrightarrow> n < 8 * length (al_bits m) \<longrightarrow> \<not> alloc_bit m n)"

lemma unat_div_ceil_8: "unat (div_ceil (u :: u64) 8) = (unat u + 7) div 8"
  by (simp add: unat_div_ceil)

lemma unat_MAX_UNITS: "unat MAX_UNITS = 2 ^ 32"
  by (simp add: MAX_UNITS_def push_bit_eq_mult)

lemma alloc_index_less:
  assumes "alloc_wf m" and "u < al_units m"
  shows "unat (u div 8) < length (al_bits m)"
proof -
  have "unat u < unat (al_units m)"
    using assms(2) by (simp add: word_less_nat_alt)
  then show ?thesis
    using assms(1) by (simp add: alloc_wf_def unat_div_ceil_8 unat_div)
qed

lemma and_mask_bit: "(b AND 2 ^ k \<noteq> 0) = bit (b :: byte) k"
  by (simp add: and_exp_eq_0_iff_not_bit)

lemma alloc_get_bit:
  assumes "alloc_wf m" and "u < al_units m"
  shows "alloc_get m u = Some (alloc_bit m (unat u))"
  using assms alloc_index_less [OF assms]
  by (simp add: alloc_get_def alloc_bit_def Let_def and_mask_bit unat_div unat_mod)

lemma alloc_set_eq:
  assumes "alloc_wf m" and "u < al_units m"
  obtains m' where "alloc_set m u v = Some m'" and "alloc_wf m'" and "al_units m' = al_units m"
    and "al_generation m' = al_generation m" and "length (al_bits m') = length (al_bits m)"
    and "\<And>n. n < 8 * length (al_bits m) \<Longrightarrow>
           alloc_bit m' n = (if n = unat u then v else alloc_bit m n)"
proof -
  let ?i = "unat u div 8" and ?k = "unat u mod 8"
  let ?b = "if v then (al_bits m ! ?i) OR push_bit ?k 1 else (al_bits m ! ?i) AND NOT (push_bit ?k 1)"
  let ?m = "m\<lparr>al_bits := (al_bits m)[?i := ?b]\<rparr>"
  have i: "?i < length (al_bits m)"
    using alloc_index_less [OF assms] by (simp add: unat_div)
  have eq: "alloc_set m u v = Some ?m"
    using assms i by (simp add: alloc_set_def Let_def unat_div unat_mod)
  have bits: "alloc_bit ?m n = (if n = unat u then v else alloc_bit m n)"
    if n: "n < 8 * length (al_bits m)" for n
  proof (cases "n div 8 = ?i")
    case False
    then show ?thesis by (auto simp: alloc_bit_def)
  next
    case True
    then have "(n mod 8 = ?k) = (n = unat u)"
      by (metis div_mult_mod_eq)
    then show ?thesis
      using True i by (auto simp: alloc_bit_def bit_simps)
  qed
  show thesis
    by (rule that [of ?m]) (use assms eq bits in \<open>simp_all add: alloc_wf_def\<close>)
qed

lemma alloc_index_bits:
  assumes "alloc_wf m" and "u < al_units m"
  shows "unat u < 8 * length (al_bits m)"
  using alloc_index_less [OF assms] by (simp add: unat_div)

lemma alloc_new_wf:
  assumes "units \<le> MAX_UNITS"
  obtains m where "alloc_new units = Some m" and "alloc_wf m" and "al_units m = units"
    and "alloc_padded m" and "alloc_set_of m = {}"
proof
  let ?m = "\<lparr>al_generation = 0, al_units = units, al_bits = replicate (unat (div_ceil units 8)) 0\<rparr>"
  have clear: "\<not> alloc_bit ?m n" if "n < 8 * length (al_bits ?m)" for n
    using that by (simp add: alloc_bit_def)
  show "alloc_new units = Some ?m"
    using assms by (simp add: alloc_new_def)
  show wf: "alloc_wf ?m"
    using assms by (simp add: alloc_wf_def)
  show "al_units ?m = units" by simp
  show "alloc_padded ?m"
    using clear by (simp add: alloc_padded_def)
  show "alloc_set_of ?m = {}"
    using clear alloc_index_bits [OF wf] by (auto simp: alloc_set_of_def)
qed

section \<open>Counting\<close>

lemma count_ones_card: "count_ones b = card {k. k < 8 \<and> bit b k}"
proof -
  have "count_ones b = card (set (filter (bit b) [0..<8]))"
    by (metis count_ones_def distinct_card distinct_filter distinct_upt)
  also have "set (filter (bit b) [0..<8]) = {k. k < 8 \<and> bit b k}"
    by auto
  finally show ?thesis .
qed

lemma card_bits:
  "sum_list (map count_ones bs) = card {n. n < 8 * length bs \<and> bit (bs ! (n div 8)) (n mod 8)}"
proof (induction bs rule: rev_induct)
  case Nil
  then show ?case by simp
next
  case (snoc b bs)
  let ?old = "{n. n < 8 * length bs \<and> bit (bs ! (n div 8)) (n mod 8)}"
  let ?new = "(\<lambda>k. 8 * length bs + k) ` {k. k < 8 \<and> bit b k}"
  have "{n. n < 8 * length (bs @ [b]) \<and> bit ((bs @ [b]) ! (n div 8)) (n mod 8)} = ?old \<union> ?new"
  proof (rule set_eqI)
    fix n
    show "n \<in> {n. n < 8 * length (bs @ [b]) \<and> bit ((bs @ [b]) ! (n div 8)) (n mod 8)} \<longleftrightarrow>
          n \<in> ?old \<union> ?new"
    proof (cases "n < 8 * length bs")
      case True
      then have "n div 8 < length bs" by simp
      with True show ?thesis by (auto simp: nth_append)
    next
      case False
      then obtain k where n: "n = 8 * length bs + k"
        by (metis le_Suc_ex not_less)
      show ?thesis
        unfolding n by (auto simp: nth_append)
    qed
  qed
  moreover have "card (?old \<union> ?new) = card ?old + card ?new"
    by (rule card_Un_disjoint) auto
  moreover have "card ?new = card {k. k < 8 \<and> bit b k}"
    by (rule card_image) simp
  ultimately show ?case
    using snoc.IH by (simp add: count_ones_card)
qed

lemma alloc_set_count_card:
  assumes "alloc_wf m" and "alloc_padded m"
  shows "alloc_set_count m = card (alloc_set_of m)"
proof -
  have "{n. n < 8 * length (al_bits m) \<and> alloc_bit m n} = unat ` alloc_set_of m"
  proof (rule set_eqI)
    fix n
    show "n \<in> {n. n < 8 * length (al_bits m) \<and> alloc_bit m n} \<longleftrightarrow> n \<in> unat ` alloc_set_of m"
    proof
      assume n: "n \<in> {n. n < 8 * length (al_bits m) \<and> alloc_bit m n}"
      then have "n < unat (al_units m)"
        using assms(2) unfolding alloc_padded_def by (metis (no_types, lifting) mem_Collect_eq not_less)
      moreover from this have "n < 2 ^ 64"
        using unat_lt2p [of "al_units m"] by simp
      ultimately have "of_nat n \<in> alloc_set_of m" and "unat (of_nat n :: u64) = n"
        using n by (simp_all add: alloc_set_of_def unat_of_nat word_less_nat_alt)
      then show "n \<in> unat ` alloc_set_of m"
        by (metis image_eqI)
    next
      assume "n \<in> unat ` alloc_set_of m"
      then show "n \<in> {n. n < 8 * length (al_bits m) \<and> alloc_bit m n}"
        using alloc_index_bits [OF assms(1)] by (auto simp: alloc_set_of_def)
    qed
  qed
  then have "alloc_set_count m = card (unat ` alloc_set_of m)"
    by (simp add: alloc_set_count_def card_bits alloc_bit_def)
  then show ?thesis
    by (metis (no_types) card_image inj_onI word_unat_eq_iff)
qed

section \<open>The codec\<close>

lemma length_ALLOCATION_MAGIC [simp]: "length ALLOCATION_MAGIC = 8"
  by (simp add: ALLOCATION_MAGIC_def)

lemma length_alloc_encode: "length (alloc_encode crc m) = 32 + length (al_bits m)"
  by (simp add: alloc_encode_def codec_simps)

lemma alloc_decode_encode: "alloc_wf m \<Longrightarrow> alloc_decode crc (alloc_encode crc m) = Inr m"
  by (simp add: alloc_decode_def alloc_encode_def alloc_wf_def rd_run_def rd_remaining_def not_less
      codec_simps)

lemma alloc_decode_raw:
  "alloc_decode crc b = Inr m \<Longrightarrow> raw_generation_decode crc b = Inr (al_generation m)"
  unfolding alloc_decode_def
  by (erule raw_generation_of_decode) (auto elim!: rd_bind_InrE split: if_splits)

lemma alloc_decode_wf: "alloc_decode crc b = Inr m \<Longrightarrow> alloc_wf m"
  unfolding alloc_decode_def
  by (auto simp: alloc_wf_def not_less elim!: res_bind_InrE rd_run_InrE rd_bind_InrE split: if_splits)
    (erule rd_take_length)

interpretation alloc: ab_codec crc "alloc_ab crc" alloc_wf for crc
proof unfold_locales
  fix m :: allocation_map and b
  assume wf: "alloc_wf m" and enc: "ab_encode (alloc_ab crc) m = Inr b"
  have "unat (al_units m) \<le> 2 ^ 32" and "length (al_bits m) = (unat (al_units m) + 7) div 8"
    using wf by (simp_all add: alloc_wf_def unat_div_ceil_8 word_le_nat_alt unat_MAX_UNITS)
  then have "length (al_bits m) \<le> 2 ^ 29"
    by simp
  then show "20 \<le> length b \<and> length b \<le> ab_max_encoded_len (alloc_ab crc)"
    using enc by (auto simp: alloc_ab_def length_alloc_encode MAX_RECORD_SIZE_def)
qed (auto simp: alloc_ab_def alloc_decode_encode alloc_decode_raw alloc_wf_def)

end
