(* ===== verification/Catalog.thy ===== *)
theory Catalog
  imports Ab_Record
begin

text \<open>
  The shard catalog of \<open>crates/maki-format/src/catalog.rs\<close>. Its \<open>BTreeSet<u64>\<close> is the ascending
  list of its elements, which is also the order the encoder writes. The decoder is the loop of the
  source, with its check that entries are strictly ascending.
\<close>

definition CATALOG_MAGIC :: bytes where
  "CATALOG_MAGIC = map (of_nat \<circ> of_char) ''MAKICAT1''"

definition CATALOG_VERSION :: u32 where "CATALOG_VERSION = 1"
definition MAX_SHARDS :: u64 where "MAX_SHARDS = push_bit 24 1"

definition CATALOG_FIXED_BYTES :: u64 where
  "CATALOG_FIXED_BYTES = of_nat (length CATALOG_MAGIC) + 4 + 8 + 4 + 4"

text \<open>\<open>BTreeSet::insert\<close> on the ascending list.\<close>

fun bt_insert :: "u64 \<Rightarrow> u64 list \<Rightarrow> u64 list" where
  "bt_insert x [] = [x]"
| "bt_insert x (y # ys) = (if x < y then x # y # ys else if x = y then y # ys else y # bt_insert x ys)"

record shard_catalog =
  cat_generation :: u64
  cat_shards :: "u64 list"

definition catalog_new :: shard_catalog where
  "catalog_new = \<lparr>cat_generation = 0, cat_shards = []\<rparr>"

definition catalog_contains :: "shard_catalog \<Rightarrow> u64 \<Rightarrow> bool" where
  "catalog_contains c shard \<longleftrightarrow> shard \<in> set (cat_shards c)"

definition catalog_insert :: "shard_catalog \<Rightarrow> u64 \<Rightarrow> bool \<times> shard_catalog" where
  "catalog_insert c shard =
     (\<not> catalog_contains c shard, c\<lparr>cat_shards := bt_insert shard (cat_shards c)\<rparr>)"

definition catalog_shard_indices :: "shard_catalog \<Rightarrow> u64 list" where
  "catalog_shard_indices c = cat_shards c"

definition catalog_len :: "shard_catalog \<Rightarrow> nat" where
  "catalog_len c = length (cat_shards c)"

definition catalog_encode :: "(bytes \<Rightarrow> u32) \<Rightarrow> shard_catalog \<Rightarrow> bytes" where
  "catalog_encode crc c =
     finish_with_crc crc (fold w_u64 (cat_shards c) (write_all
       [w_bytes CATALOG_MAGIC, w_u32 CATALOG_VERSION, w_u64 (cat_generation c),
        w_u32 (of_nat (length (cat_shards c)))]))"

definition catalog_max_encoded_len :: "u64 \<Rightarrow> u64" where
  "catalog_max_encoded_len shards = CATALOG_FIXED_BYTES + saturating_mul shards 8"

primrec catalog_entries :: "nat \<Rightarrow> u64 option \<Rightarrow> u64 list \<Rightarrow> u64 list rd" where
  "catalog_entries 0 prev shards = rd_return shards"
| "catalog_entries (Suc n) prev shards =
     rd_bind rd_u64 (\<lambda>s.
     if (case prev of Some p \<Rightarrow> s \<le> p | None \<Rightarrow> False)
     then rd_fail (Invalid ''catalog entries not strictly ascending'')
     else catalog_entries n (Some s) (bt_insert s shards))"

definition catalog_decode :: "(bytes \<Rightarrow> u32) \<Rightarrow> bytes \<Rightarrow> format_error + shard_catalog" where
  "catalog_decode crc data =
     res_bind (strip_verify_crc crc data ''shard catalog'') (rd_run (
     rd_bind (rd_take 8) (\<lambda>magic.
     if magic \<noteq> CATALOG_MAGIC then rd_fail (BadMagic ''shard catalog'')
     else rd_bind rd_u32 (\<lambda>version.
     if version \<noteq> CATALOG_VERSION then rd_fail (Unsupported ''shard catalog version'')
     else rd_bind rd_u64 (\<lambda>generation.
     rd_bind rd_u32 (\<lambda>count.
     if MAX_SHARDS < ucast count then rd_fail (Invalid ''shard count'')
     else rd_bind (catalog_entries (unat count) None []) (\<lambda>shards. \<lambda>r.
     if rd_remaining r \<noteq> 0 then Inl (Invalid ''trailing bytes after catalog'')
     else rd_return \<lparr>cat_generation = generation, cat_shards = shards\<rparr> r)))))))"

definition catalog_ab :: "(bytes \<Rightarrow> u32) \<Rightarrow> shard_catalog ab_record" where
  "catalog_ab crc =
     \<lparr>ab_max_encoded_len = MAX_RECORD_SIZE, ab_generation = cat_generation,
      ab_set_generation = (\<lambda>g c. c\<lparr>cat_generation := g\<rparr>),
      ab_encode = (\<lambda>c. Inr (catalog_encode crc c)), ab_decode = catalog_decode crc\<rparr>"

section \<open>Lemmas\<close>

definition catalog_wf :: "shard_catalog \<Rightarrow> bool" where
  "catalog_wf c \<longleftrightarrow> sorted_wrt (<) (cat_shards c) \<and> length (cat_shards c) \<le> unat MAX_SHARDS"

lemma unat_MAX_SHARDS: "unat MAX_SHARDS = 2 ^ 24"
  by (simp add: MAX_SHARDS_def push_bit_eq_mult)

lemma set_bt_insert [simp]: "set (bt_insert x xs) = insert x (set xs)"
  by (induction xs) auto

lemma sorted_bt_insert: "sorted_wrt (<) xs \<Longrightarrow> sorted_wrt (<) (bt_insert x xs)"
  by (induction xs) auto

lemma bt_insert_last: "\<forall>y \<in> set xs. y < x \<Longrightarrow> bt_insert x xs = xs @ [x]"
  by (induction xs) auto


lemma fold_w_u64: "fold w_u64 xs w = w @ concat (map le64 xs)"
  by (induction xs arbitrary: w) (simp_all add: w_u64_def w_bytes_def)

lemma length_concat_le64 [simp]: "length (concat (map le64 xs)) = 8 * length xs"
  by (induction xs) auto

lemma length_CATALOG_MAGIC [simp]: "length CATALOG_MAGIC = 8"
  by (simp add: CATALOG_MAGIC_def)

text \<open>The entry loop on a buffer that holds an ascending list from the position on.\<close>

lemma catalog_entries_concat:
  assumes "sorted_wrt (<) (acc @ xs)" and "prev = (if acc = [] then None else Some (last acc))"
    and "drop p buf = concat (map le64 xs) @ rest"
  shows "catalog_entries (length xs) prev acc \<lparr>rd_buf = buf, rd_pos = p\<rparr> =
    Inr (acc @ xs, \<lparr>rd_buf = buf, rd_pos = p + 8 * length xs\<rparr>)"
  using assms
proof (induction xs arbitrary: acc prev p)
  case Nil
  then show ?case by (simp add: rd_return_def)
next
  case (Cons x xs)
  have buf: "drop p buf = le64 x @ concat (map le64 xs) @ rest"
    using Cons.prems(3) by simp
  then have "length (drop p buf) = 8 + (8 * length xs + length rest)"
    by simp
  then have len: "p + 8 \<le> length buf"
    by (simp only: length_drop)
  have "drop (p + 8) buf = drop 8 (drop p buf)"
    by (simp add: add.commute)
  then have tl: "drop (p + 8) buf = concat (map le64 xs) @ rest"
    by (simp add: buf)
  have below: "\<forall>y \<in> set acc. y < x"
    using Cons.prems(1) by (simp add: sorted_wrt_append)
  then have "\<not> (case prev of Some q \<Rightarrow> x \<le> q | None \<Rightarrow> False)"
    using Cons.prems(2) by (auto simp: not_le split: option.splits)
  moreover have "catalog_entries (length xs) (Some x) (acc @ [x]) \<lparr>rd_buf = buf, rd_pos = p + 8\<rparr> =
      Inr ((acc @ [x]) @ xs, \<lparr>rd_buf = buf, rd_pos = p + 8 + 8 * length xs\<rparr>)"
    by (rule Cons.IH) (use Cons.prems(1) tl in simp_all)
  ultimately show ?case
    using len buf below by (simp add: codec_simps bt_insert_last algebra_simps)
qed

lemma catalog_payload:
  "fold w_u64 xs (write_all [w_bytes m, w_u32 v, w_u64 g, w_u32 n]) =
     m @ le32 v @ le64 g @ le32 n @ concat (map le64 xs)"
  by (simp add: fold_w_u64 codec_simps)

lemma length_catalog_encode: "length (catalog_encode crc c) = 28 + 8 * length (cat_shards c)"
  by (simp add: catalog_encode_def catalog_payload)

lemma catalog_decode_encode:
  assumes "catalog_wf c"
  shows "catalog_decode crc (catalog_encode crc c) = Inr c"
proof -
  let ?xs = "cat_shards c"
  let ?buf = "CATALOG_MAGIC @ le32 CATALOG_VERSION @ le64 (cat_generation c) @
    le32 (of_nat (length ?xs)) @ concat (map le64 ?xs)"
  have n: "length ?xs \<le> 2 ^ 24"
    using assms by (simp add: catalog_wf_def unat_MAX_SHARDS)
  then have count: "unat (of_nat (length ?xs) :: u32) = length ?xs"
    by (simp add: unat_of_nat)
  have cap: "\<not> MAX_SHARDS < (ucast (of_nat (length ?xs) :: u32) :: u64)"
    using n by (simp add: word_less_nat_alt unat_MAX_SHARDS count)
  have "catalog_entries (length ?xs) None [] \<lparr>rd_buf = ?buf, rd_pos = 24\<rparr> =
      Inr ([] @ ?xs, \<lparr>rd_buf = ?buf, rd_pos = 24 + 8 * length ?xs\<rparr>)"
    by (rule catalog_entries_concat [where rest = "[]"]) (use assms in \<open>simp_all add: catalog_wf_def\<close>)
  then show ?thesis
    using count cap
    by (simp add: catalog_decode_def catalog_encode_def fold_w_u64 rd_run_def rd_remaining_def
        codec_simps)
qed

lemma catalog_entries_sorted:
  assumes "catalog_entries n prev acc r = Inr (xs, r')" and "sorted_wrt (<) acc"
    and "\<forall>y \<in> set acc. case prev of None \<Rightarrow> False | Some p \<Rightarrow> y \<le> p"
  shows "sorted_wrt (<) xs \<and> length xs = length acc + n"
  using assms
proof (induction n arbitrary: prev acc r)
  case 0
  then show ?case by auto
next
  case (Suc n)
  from Suc.prems(1) obtain s r1 where s: "rd_u64 r = Inr (s, r1)"
    and c: "\<not> (case prev of Some p \<Rightarrow> s \<le> p | None \<Rightarrow> False)"
    and rest: "catalog_entries n (Some s) (bt_insert s acc) r1 = Inr (xs, r')"
    by (auto elim!: rd_bind_InrE split: if_splits)
  have below: "\<forall>y \<in> set acc. y < s"
    using Suc.prems(3) c by (auto split: option.splits)
  then have eq: "bt_insert s acc = acc @ [s]"
    by (rule bt_insert_last)
  have "sorted_wrt (<) xs \<and> length xs = length (bt_insert s acc) + n"
    by (rule Suc.IH [OF rest]) (use Suc.prems(2) below in \<open>auto simp: eq sorted_wrt_append\<close>)
  then show ?case
    by (simp add: eq)
qed

lemma catalog_decode_wf: "catalog_decode crc b = Inr c \<Longrightarrow> catalog_wf c"
proof -
  assume "catalog_decode crc b = Inr c"
  then obtain count r r' where e: "catalog_entries (unat (count :: u32)) None [] r = Inr (cat_shards c, r')"
    and cap: "\<not> MAX_SHARDS < ucast count"
    unfolding catalog_decode_def
    by (auto elim!: res_bind_InrE rd_run_InrE rd_bind_InrE split: if_splits)
  have "unat count \<le> unat MAX_SHARDS"
    using cap by (simp add: word_less_nat_alt)
  then show "catalog_wf c"
    using catalog_entries_sorted [OF e] by (simp add: catalog_wf_def)
qed

lemma catalog_decode_raw:
  "catalog_decode crc b = Inr c \<Longrightarrow> raw_generation_decode crc b = Inr (cat_generation c)"
  unfolding catalog_decode_def
  by (erule raw_generation_of_decode) (auto elim!: rd_bind_InrE split: if_splits)

interpretation catalog: ab_codec crc "catalog_ab crc" catalog_wf for crc
  by unfold_locales
    (auto simp: catalog_ab_def catalog_decode_encode catalog_decode_raw catalog_wf_def
      length_catalog_encode MAX_RECORD_SIZE_def unat_MAX_SHARDS)

lemma catalog_insert_wf:
  assumes "catalog_wf c" and "length (cat_shards c) < unat MAX_SHARDS"
  shows "catalog_wf (snd (catalog_insert c shard))"
proof -
  have "length (bt_insert x xs) \<le> Suc (length xs)" for x xs
    by (induction xs) auto
  from this [of shard "cat_shards c"] show ?thesis
    using assms by (auto simp: catalog_wf_def catalog_insert_def sorted_bt_insert)
qed

lemma catalog_insert_contains:
  "catalog_contains (snd (catalog_insert c s)) t \<longleftrightarrow> t = s \<or> catalog_contains c t"
  "fst (catalog_insert c s) \<longleftrightarrow> \<not> catalog_contains c s"
  by (auto simp: catalog_contains_def catalog_insert_def)

end
