(* ===== verification/Canary.thy ===== *)
theory Canary
  imports Ab_Record
begin

text \<open>
  The key canary of \<open>crates/maki-format/src/canary.rs\<close>: the plaintext a volume's canary has (a
  \<open>xorshift64*\<close> stream seeded by the UUID, with a tag in front) and the record that stores its
  ciphertext.
\<close>

unbundle bit_operations_syntax

definition CANARY_MAGIC :: bytes where
  "CANARY_MAGIC = map (of_nat \<circ> of_char) ''MAKICNY1''"

definition CANARY_VERSION :: u32 where "CANARY_VERSION = 1"
definition MAX_CANARY_CIPHERTEXT :: u32 where "MAX_CANARY_CIPHERTEXT = push_bit 20 16"
definition CANARY_UNIT_INDEX :: u64 where "CANARY_UNIT_INDEX = 0x001000004D414B49"

definition CANARY_TAG :: bytes where
  "CANARY_TAG = map (of_nat \<circ> of_char) ''MAKI-KEY-CANARY-V1''"

text \<open>\<open>u64::rotate_left\<close>.\<close>

definition rotate_left64 :: "nat \<Rightarrow> u64 \<Rightarrow> u64" where
  "rotate_left64 n x = push_bit n x OR drop_bit (64 - n) x"

definition xorshift64 :: "u64 \<Rightarrow> u64" where
  "xorshift64 x =
     (let x = x XOR drop_bit 12 x;
          x = x XOR push_bit 25 x
      in x XOR drop_bit 27 x)"

primrec canary_stream :: "nat \<Rightarrow> u64 \<Rightarrow> bytes" where
  "canary_stream 0 x = []"
| "canary_stream (Suc n) x =
     (let x = xorshift64 x in ucast (drop_bit 56 (x * 0x2545F4914F6CDD1D)) # canary_stream n x)"

definition canary_seed :: "uuid \<Rightarrow> u64" where
  "canary_seed volume_uuid =
     (let lo = from_le64 (take 8 volume_uuid);
          hi = from_le64 (take 8 (drop 8 volume_uuid));
          x = lo XOR rotate_left64 32 hi XOR 0x4D414B4943414E59
      in if x = 0 then 0x9E3779B97F4A7C15 else x)"

definition canary_plaintext :: "uuid \<Rightarrow> nat \<Rightarrow> bytes" where
  "canary_plaintext volume_uuid unit_size =
     (let out = canary_stream unit_size (canary_seed volume_uuid);
          n = min (length CANARY_TAG) unit_size
      in take n CANARY_TAG @ drop n out)"

record key_canary =
  kc_generation :: u64
  kc_volume_uuid :: uuid
  kc_unit_index :: u64
  kc_ciphertext :: bytes

definition canary_encode :: "(bytes \<Rightarrow> u32) \<Rightarrow> key_canary \<Rightarrow> bytes" where
  "canary_encode crc k =
     finish_with_crc crc (write_all
       [w_bytes CANARY_MAGIC, w_u32 CANARY_VERSION, w_u64 (kc_generation k),
        w_uuid (kc_volume_uuid k), w_u64 (kc_unit_index k),
        w_u32 (of_nat (length (kc_ciphertext k))), w_bytes (kc_ciphertext k)])"

definition canary_decode :: "(bytes \<Rightarrow> u32) \<Rightarrow> bytes \<Rightarrow> format_error + key_canary" where
  "canary_decode crc data =
     (if length data < 8 \<or> take 8 data \<noteq> CANARY_MAGIC then Inl (BadMagic ''key canary'')
      else res_bind (strip_verify_crc crc data ''key canary'') (rd_run (
        rd_bind (rd_take 8) (\<lambda>_.
        rd_bind rd_u32 (\<lambda>version.
        if version \<noteq> CANARY_VERSION then rd_fail (Unsupported ''key canary version'')
        else rd_bind rd_u64 (\<lambda>generation.
        rd_bind rd_uuid (\<lambda>volume_uuid.
        rd_bind rd_u64 (\<lambda>unit_index.
        rd_bind rd_u32 (\<lambda>len.
        if MAX_CANARY_CIPHERTEXT < len then rd_fail (Invalid ''key canary ciphertext length exceeds cap'')
        else rd_bind (rd_take (unat len)) (\<lambda>ciphertext.
        rd_return \<lparr>kc_generation = generation, kc_volume_uuid = volume_uuid,
          kc_unit_index = unit_index, kc_ciphertext = ciphertext\<rparr>))))))))))"

definition canary_ab :: "(bytes \<Rightarrow> u32) \<Rightarrow> key_canary ab_record" where
  "canary_ab crc =
     \<lparr>ab_max_encoded_len = unat MAX_CANARY_CIPHERTEXT + 4096, ab_generation = kc_generation,
      ab_set_generation = (\<lambda>g k. k\<lparr>kc_generation := g\<rparr>),
      ab_encode = (\<lambda>k. Inr (canary_encode crc k)), ab_decode = canary_decode crc\<rparr>"

section \<open>Lemmas\<close>

definition canary_wf :: "key_canary \<Rightarrow> bool" where
  "canary_wf k \<longleftrightarrow> length (kc_volume_uuid k) = 16 \<and> length (kc_ciphertext k) \<le> unat MAX_CANARY_CIPHERTEXT"

lemma unat_MAX_CANARY_CIPHERTEXT: "unat MAX_CANARY_CIPHERTEXT = 2 ^ 24"
  by (simp add: MAX_CANARY_CIPHERTEXT_def push_bit_eq_mult)

lemma length_CANARY_MAGIC [simp]: "length CANARY_MAGIC = 8"
  by (simp add: CANARY_MAGIC_def)

lemma length_canary_stream [simp]: "length (canary_stream n x) = n"
  by (induction n arbitrary: x) (simp_all add: Let_def)

lemma length_canary_plaintext: "length (canary_plaintext u n) = n"
  by (simp add: canary_plaintext_def Let_def)

lemma length_canary_encode:
  "length (canary_encode crc k) = 40 + length (kc_volume_uuid k) - 4 + length (kc_ciphertext k)"
  by (simp add: canary_encode_def codec_simps)

lemma canary_decode_encode:
  assumes "canary_wf k"
  shows "canary_decode crc (canary_encode crc k) = Inr k"
proof -
  let ?ct = "kc_ciphertext k"
  let ?p = "CANARY_MAGIC @ le32 CANARY_VERSION @ le64 (kc_generation k) @ kc_volume_uuid k @
    le64 (kc_unit_index k) @ le32 (of_nat (length ?ct)) @ ?ct"
  have enc: "canary_encode crc k = finish_with_crc crc ?p"
    by (simp add: canary_encode_def codec_simps)
  have n: "length ?ct \<le> 2 ^ 24" and u: "length (kc_volume_uuid k) = 16"
    using assms by (simp_all add: canary_wf_def unat_MAX_CANARY_CIPHERTEXT)
  from n have count: "unat (of_nat (length ?ct) :: u32) = length ?ct"
    by (simp add: unat_of_nat)
  have cap: "\<not> MAX_CANARY_CIPHERTEXT < of_nat (length ?ct)"
    using n by (simp add: word_less_nat_alt unat_MAX_CANARY_CIPHERTEXT count)
  have "take 8 (finish_with_crc crc ?p) = CANARY_MAGIC"
    by (simp add: finish_with_crc_def)
  then show ?thesis
    using count cap u
    by (simp add: canary_decode_def enc rd_run_def rd_uuid_def codec_simps)
qed

lemma canary_decode_raw:
  "canary_decode crc b = Inr k \<Longrightarrow> raw_generation_decode crc b = Inr (kc_generation k)"
  unfolding canary_decode_def
  by (split if_split_asm, simp, erule raw_generation_of_decode') (auto elim!: rd_bind_InrE split: if_splits)

interpretation canary: ab_codec crc "canary_ab crc" canary_wf for crc
  by unfold_locales
    (auto simp: canary_ab_def canary_decode_encode canary_decode_raw canary_wf_def
      length_canary_encode unat_MAX_CANARY_CIPHERTEXT)

end
