(* ===== verification/Slot.thy ===== *)
theory Slot
  imports Codec
begin

text \<open>
  The ciphertext slot header of \<open>crates/maki-format/src/slot.rs\<close>: a fixed 64-byte image with a
  checksum, written in front of the ciphertext of a unit.
\<close>

definition SLOT_HEADER_SIZE :: u32 where "SLOT_HEADER_SIZE = 64"

definition SLOT_MAGIC :: bytes where
  "SLOT_MAGIC = map (of_nat \<circ> of_char) ''MAKISLT1''"

record slot_header =
  sh_unit_index :: u64
  sh_write_sequence :: u64
  sh_ciphertext_len :: u32
  sh_flags :: u32
  sh_ciphertext_crc :: u32

definition slot_encode :: "(bytes \<Rightarrow> u32) \<Rightarrow> slot_header \<Rightarrow> bytes" where
  "slot_encode crc h =
     finish_with_crc crc (write_all
       [w_bytes SLOT_MAGIC, w_u64 (sh_unit_index h), w_u64 (sh_write_sequence h),
        w_u32 (sh_ciphertext_len h), w_u32 (sh_flags h), w_u32 (sh_ciphertext_crc h),
        w_bytes (replicate 24 0)])"

definition slot_decode :: "(bytes \<Rightarrow> u32) \<Rightarrow> bytes \<Rightarrow> format_error + slot_header" where
  "slot_decode crc data =
     (if length data < unat SLOT_HEADER_SIZE then Inl (Truncated ''slot header'')
      else let data = take (unat SLOT_HEADER_SIZE) data in
      if take 8 data \<noteq> SLOT_MAGIC then Inl (BadMagic ''slot header'')
      else res_bind (strip_verify_crc crc data ''slot header'') (rd_run (
        rd_bind (rd_take 8) (\<lambda>_.
        rd_bind rd_u64 (\<lambda>unit_index.
        rd_bind rd_u64 (\<lambda>write_sequence.
        rd_bind rd_u32 (\<lambda>ciphertext_len.
        rd_bind rd_u32 (\<lambda>flags.
        rd_bind rd_u32 (\<lambda>ciphertext_crc.
        rd_return \<lparr>sh_unit_index = unit_index, sh_write_sequence = write_sequence,
          sh_ciphertext_len = ciphertext_len, sh_flags = flags,
          sh_ciphertext_crc = ciphertext_crc\<rparr>)))))))))"

section \<open>Lemmas\<close>

lemma length_SLOT_MAGIC [simp]: "length SLOT_MAGIC = 8"
  by (simp add: SLOT_MAGIC_def)

lemma length_slot_encode [simp]: "length (slot_encode crc h) = 64"
  by (simp add: slot_encode_def codec_simps)

text \<open>The decoder reads the header back from any buffer that starts with it, as the store does
  when it reads header and ciphertext in one piece.\<close>

lemma slot_decode_encode: "slot_decode crc (slot_encode crc h @ rest) = Inr h"
proof -
  let ?p = "SLOT_MAGIC @ le64 (sh_unit_index h) @ le64 (sh_write_sequence h) @
    le32 (sh_ciphertext_len h) @ le32 (sh_flags h) @ le32 (sh_ciphertext_crc h) @ replicate 24 0"
  have enc: "slot_encode crc h = finish_with_crc crc ?p"
    by (simp add: slot_encode_def codec_simps)
  have hd8: "take 8 (slot_encode crc h) = SLOT_MAGIC"
    by (simp add: enc finish_with_crc_def)
  have cut: "take 64 (slot_encode crc h @ rest) = slot_encode crc h"
    by simp
  have dec: "res_bind (strip_verify_crc crc (slot_encode crc h) ''slot header'') f = f ?p" for f
    by (simp add: enc)
  show ?thesis
    by (simp add: slot_decode_def SLOT_HEADER_SIZE_def Let_def cut hd8 dec)
      (simp add: rd_run_def codec_simps)
qed

text \<open>Whatever the decoder accepts carries the magic and a matching checksum over exactly the
  first 60 bytes, so a header is never read from a torn or foreign block unnoticed by the
  checksum.\<close>

lemma slot_decode_checks:
  assumes "slot_decode crc data = Inr h"
  shows "64 \<le> length data \<and> take 8 data = SLOT_MAGIC \<and>
    drop 60 (take 64 data) = le32 (crc (take 60 data)) \<and>
    take 8 (drop 8 data) = le64 (sh_unit_index h) \<and>
    take 8 (drop 16 data) = le64 (sh_write_sequence h) \<and>
    take 4 (drop 24 data) = le32 (sh_ciphertext_len h)"
proof -
  have len: "64 \<le> length data" and magic: "take 8 data = SLOT_MAGIC"
    using assms by (simp_all add: slot_decode_def SLOT_HEADER_SIZE_def Let_def split: if_splits)
  then obtain p where strip: "strip_verify_crc crc (take 64 data) ''slot header'' = Inr p"
    and run: "rd_run (
        rd_bind (rd_take 8) (\<lambda>_.
        rd_bind rd_u64 (\<lambda>unit_index.
        rd_bind rd_u64 (\<lambda>write_sequence.
        rd_bind rd_u32 (\<lambda>ciphertext_len.
        rd_bind rd_u32 (\<lambda>flags.
        rd_bind rd_u32 (\<lambda>ciphertext_crc.
        rd_return \<lparr>sh_unit_index = unit_index, sh_write_sequence = write_sequence,
          sh_ciphertext_len = ciphertext_len, sh_flags = flags,
          sh_ciphertext_crc = ciphertext_crc\<rparr>)))))) ) p = Inr h"
    using assms by (auto simp: slot_decode_def SLOT_HEADER_SIZE_def Let_def)
  have d: "take 64 data = p @ le32 (crc p)"
    using strip_verify_InrD [OF strip] by (simp add: finish_with_crc_def)
  have lp: "length p = 60"
    using arg_cong [OF d, of length] len by simp
  have p: "p = take 60 data"
    using arg_cong [OF d, of "take 60"] lp by simp
  have h: "h = \<lparr>sh_unit_index = from_le64 (take 8 (drop 8 p)),
      sh_write_sequence = from_le64 (take 8 (drop 16 p)),
      sh_ciphertext_len = from_le32 (take 4 (drop 24 p)), sh_flags = from_le32 (take 4 (drop 28 p)),
      sh_ciphertext_crc = from_le32 (take 4 (drop 32 p))\<rparr>"
    using run lp by (simp add: rd_run_def codec_simps)
  have "take k (drop n p) = take k (drop n data)" if "n + k \<le> 60" for n k
    using that by (simp add: p take_drop)
  then show ?thesis
    using len magic d lp by (simp add: h le_from_le) (simp add: p [symmetric])
qed

end
