(* ===== verification/Geometry.thy ===== *)
theory Geometry
  imports Allocation Catalog Slot
begin

text \<open>
  Device geometry and slot-size calculation, \<open>crates/maki-format/src/geometry.rs\<close>. All values
  keep their width; \<open>compute\<close> is the constructor the volume format uses at creation and at every
  superblock decode, and the lemmas say what a geometry it accepts guarantees to the store: the
  arithmetic of unit, shard and slot addresses is exact.
\<close>

unbundle bit_operations_syntax

text \<open>\<open>journal::MAX_PAYLOAD\<close>, the bound on one journal record's payload.\<close>

definition MAX_PAYLOAD :: u32 where "MAX_PAYLOAD = push_bit 20 16"

record geometry =
  device_block_size :: u32
  crypto_unit_size :: u32
  slot_alignment :: u32
  max_ciphertext_size :: u32
  slot_header_size :: u32
  slot_size :: u64
  max_virtual_size :: u64
  shard_logical_size :: u64

record capacity_plan =
  cp_num_units :: u64
  cp_num_shards :: u64
  cp_full_slot_span_bytes :: u64
  cp_allocation_map_ab_bytes :: u64
  cp_catalog_ab_bytes :: u64

definition is_pow2 :: "u64 \<Rightarrow> bool" where
  "is_pow2 v \<longleftrightarrow> v \<noteq> 0 \<and> v AND (v - 1) = 0"

definition align_up :: "u64 \<Rightarrow> u64 \<Rightarrow> format_error + u64" where
  "align_up v align =
     res_bind (ok_or (checked_add v (align - 1)) (Overflow ''align_up'')) (\<lambda>sum.
     Inr (sum AND NOT (align - 1)))"

definition num_units :: "geometry \<Rightarrow> u64" where
  "num_units g = max_virtual_size g div ucast (crypto_unit_size g)"

definition units_per_shard :: "geometry \<Rightarrow> u64" where
  "units_per_shard g = shard_logical_size g div ucast (crypto_unit_size g)"

definition num_shards :: "geometry \<Rightarrow> u64" where
  "num_shards g = div_ceil (num_units g) (units_per_shard g)"

definition compute_capacity_plan :: "geometry \<Rightarrow> format_error + capacity_plan" where
  "compute_capacity_plan g =
     (if MAX_SHARDS < num_shards g then Inl (Invalid ''num_shards exceeds the shard catalog limit'')
      else
       res_bind (ok_or (checked_mul (units_per_shard g) (slot_size g))
         (Overflow ''shard physical size'')) (\<lambda>shard_slot_bytes.
       res_bind (ok_or (checked_mul (num_shards g) shard_slot_bytes)
         (Overflow ''full slot span'')) (\<lambda>full_slot_span_bytes.
       res_bind (ok_or (checked_add ALLOCATION_FIXED_BYTES (div_ceil (units_per_shard g) 8))
         (Overflow ''allocation map size'')) (\<lambda>allocation_copy_bytes.
       res_bind (ok_or (Option.bind (checked_mul (num_shards g) 2)
           (\<lambda>copies. checked_mul copies allocation_copy_bytes))
         (Overflow ''allocation map A/B bytes'')) (\<lambda>allocation_map_ab_bytes.
       res_bind (ok_or (Option.bind (checked_mul (num_shards g) 8)
           (\<lambda>entries. checked_add entries CATALOG_FIXED_BYTES))
         (Overflow ''shard catalog size'')) (\<lambda>catalog_copy_bytes.
       res_bind (ok_or (checked_mul catalog_copy_bytes 2)
         (Overflow ''shard catalog A/B bytes'')) (\<lambda>catalog_ab_bytes.
       Inr \<lparr>cp_num_units = num_units g, cp_num_shards = num_shards g,
         cp_full_slot_span_bytes = full_slot_span_bytes,
         cp_allocation_map_ab_bytes = allocation_map_ab_bytes,
         cp_catalog_ab_bytes = catalog_ab_bytes\<rparr>)))))))"

definition geometry_compute :: "u32 \<Rightarrow> u32 \<Rightarrow> u32 \<Rightarrow> u32 \<Rightarrow> u64 \<Rightarrow> u64 \<Rightarrow> format_error + geometry" where
  "geometry_compute device_block crypto_unit slot_align max_ciphertext max_virtual shard_logical =
     (if \<not> is_pow2 (ucast device_block) \<or> \<not> (512 \<le> device_block \<and> device_block \<le> 65536) then
        Inl (Invalid ''device_block_size must be a power of two in [512, 65536]'')
      else if crypto_unit = 0 \<or> crypto_unit < device_block \<or>
        \<not> is_multiple_of crypto_unit device_block then
        Inl (Invalid ''crypto_unit_size must be a positive multiple of device_block_size'')
      else if \<not> is_pow2 (ucast slot_align) \<or> slot_align < 512 then
        Inl (Invalid ''slot_alignment must be a power of two >= 512'')
      else if max_ciphertext < crypto_unit then
        Inl (Invalid ''max_ciphertext_size < crypto_unit_size'')
      else if MAX_PAYLOAD < max_ciphertext then
        Inl (Invalid ''max_ciphertext_size exceeds the journal record bound'')
      else if max_virtual = 0 \<or> \<not> is_multiple_of max_virtual (ucast crypto_unit) then
        Inl (Invalid ''max_virtual_size must be a positive multiple of crypto_unit_size'')
      else if 0x7FFFFFFFFFFFFFFF < max_virtual then
        Inl (Invalid ''max_virtual_size exceeds the signed NBD export size limit'')
      else if shard_logical = 0 \<or> \<not> is_multiple_of shard_logical (ucast crypto_unit) then
        Inl (Invalid ''shard_logical_size must be a positive multiple of crypto_unit_size'')
      else
        res_bind (align_up (ucast SLOT_HEADER_SIZE + ucast max_ciphertext) (ucast slot_align)) (\<lambda>size.
        let g = \<lparr>device_block_size = device_block, crypto_unit_size = crypto_unit,
              slot_alignment = slot_align, max_ciphertext_size = max_ciphertext,
              slot_header_size = SLOT_HEADER_SIZE, slot_size = size,
              max_virtual_size = max_virtual, shard_logical_size = shard_logical\<rparr> in
        res_bind (ok_or (checked_mul (units_per_shard g) size) (Overflow ''shard physical size'')) (\<lambda>_.
        if 0xFFFFFFFF < units_per_shard g then
          Inl (Invalid ''units_per_shard exceeds the allocation map limit'')
        else res_bind (compute_capacity_plan g) (\<lambda>_. Inr g))))"

definition shard_of_unit :: "geometry \<Rightarrow> u64 \<Rightarrow> u64 \<times> u64" where
  "shard_of_unit g u = (u div units_per_shard g, u mod units_per_shard g)"

definition slot_offset :: "geometry \<Rightarrow> u64 \<Rightarrow> u64" where
  "slot_offset g index_in_shard = index_in_shard * slot_size g"

section \<open>Powers of two and alignment\<close>

lemma and_pred_zero_nat:
  fixes n :: nat
  assumes "0 < n" and "n AND (n - 1) = 0"
  shows "\<exists>k. n = 2 ^ k"
  using assms
proof (induction n rule: less_induct)
  case (less n)
  show ?case
  proof (cases "even n")
    case True
    then obtain m where m: "n = 2 * m"
      by blast
    with less.prems have "0 < m"
      by simp
    then have pred: "n - 1 = 1 + 2 * (m - 1)"
      using m by simp
    have "(2 * m) AND (1 + 2 * (m - 1)) = 2 * (m AND (m - 1))"
      by (subst and_rec) simp
    with less.prems(2) have "m AND (m - 1) = 0"
      by (simp only: m pred [unfolded m])
    then obtain k where "m = 2 ^ k"
      using less.IH [of m] m \<open>0 < m\<close> by auto
    then have "n = 2 ^ Suc k"
      using m by simp
    then show ?thesis ..
  next
    case False
    then obtain m where m: "n = 1 + 2 * m"
      by (metis oddE add.commute)
    have "(1 + 2 * m) AND (2 * m) = 2 * (m AND m)"
      by (subst and_rec) simp
    then have "m = 0"
      using less.prems(2) m by simp
    then have "n = 2 ^ 0"
      using m by simp
    then show ?thesis ..
  qed
qed

lemma is_pow2_exp:
  assumes "is_pow2 v"
  shows "\<exists>k. k < 64 \<and> v = 2 ^ k \<and> unat v = 2 ^ k"
proof -
  have v: "v \<noteq> 0" and zero: "v AND (v - 1) = 0"
    using assms by (simp_all add: is_pow2_def)
  have pred: "unat (v - 1) = unat v - 1"
    using v by (simp add: unat_minus_one)
  have "unat v AND (unat v - 1) = unat (v AND (v - 1))"
    by (simp add: unsigned_and_eq pred)
  then have "unat v AND (unat v - 1) = 0"
    by (simp add: zero)
  then obtain k where k: "unat v = 2 ^ k"
    using and_pred_zero_nat [of "unat v"] v by (auto simp: unat_gt_0)
  have "(2 :: nat) ^ k < 2 ^ 64"
    using unat_lt2p [of v] k by simp
  then have "k < 64"
    by (rule power_less_imp_less_exp [rotated]) simp
  moreover have "v = 2 ^ k"
    using arg_cong [OF k, of "of_nat :: nat \<Rightarrow> u64"] by simp
  ultimately show ?thesis
    using k by blast
qed

lemma and_not_mask_word: "(s :: u64) AND NOT (mask k) = s - take_bit k s"
proof -
  have "s - take_bit k s = s AND NOT (take_bit k s)"
    by (rule disjunctive_diff) (simp add: bit_take_bit_iff)
  also have "\<dots> = s AND NOT (mask k)"
    by (rule bit_eqI) (auto simp: bit_and_iff bit_not_iff bit_take_bit_iff bit_mask_iff)
  finally show ?thesis ..
qed

lemma align_up_InrD:
  assumes "align_up v a = Inr s" and "is_pow2 a"
  shows "unat s = (unat v + unat a - 1) div unat a * unat a"
proof -
  obtain k where k: "k < 64" "a = 2 ^ k" "unat a = 2 ^ k"
    using is_pow2_exp [OF assms(2)] by blast
  obtain t where t: "unat t = unat v + unat (a - 1)" and s: "s = t AND NOT (a - 1)"
    using assms(1) by (auto simp: align_up_def elim!: res_bind_InrE)
  have "a - 1 = mask k"
    by (simp add: k mask_eq_exp_minus_1)
  then have "s = t - take_bit k t"
    by (simp add: s and_not_mask_word)
  moreover have low: "unat (take_bit k t) = unat t mod 2 ^ k"
    using unsigned_take_bit_eq [of k t] by (simp only: take_bit_eq_mod)
  moreover have "take_bit k t \<le> t"
    by (simp only: word_le_nat_alt low mod_less_eq_dividend)
  ultimately have "unat s = unat t - unat t mod 2 ^ k"
    by (simp add: unat_sub)
  moreover have "unat (a - 1) = 2 ^ k - 1"
    using assms(2) k by (simp add: is_pow2_def unat_minus_one)
  ultimately show ?thesis
    using t k by (simp add: minus_mod_eq_div_mult)
qed

section \<open>What an accepted geometry guarantees\<close>

definition geometry_valid :: "geometry \<Rightarrow> bool" where
  "geometry_valid g \<longleftrightarrow>
     geometry_compute (device_block_size g) (crypto_unit_size g) (slot_alignment g)
       (max_ciphertext_size g) (max_virtual_size g) (shard_logical_size g) = Inr g"

lemma geometry_compute_valid:
  "geometry_compute a b c d e f = Inr g \<Longrightarrow> geometry_valid g"
proof -
  assume *: "geometry_compute a b c d e f = Inr g"
  then have "device_block_size g = a \<and> crypto_unit_size g = b \<and> slot_alignment g = c \<and>
    max_ciphertext_size g = d \<and> max_virtual_size g = e \<and> shard_logical_size g = f"
    unfolding geometry_compute_def by (auto simp: Let_def split: if_splits elim!: res_bind_InrE)
  with * show ?thesis
    by (simp add: geometry_valid_def)
qed

lemma unat_MAX_PAYLOAD: "unat MAX_PAYLOAD = 2 ^ 24"
  by (simp add: MAX_PAYLOAD_def push_bit_eq_mult)

lemma geometry_valid_sizes:
  assumes "geometry_valid g"
  shows "0 < unat (crypto_unit_size g)"
    and "crypto_unit_size g \<le> max_ciphertext_size g"
    and "unat (max_ciphertext_size g) \<le> 2 ^ 24"
    and "unat (device_block_size g) dvd unat (crypto_unit_size g)"
    and "0 < unat (max_virtual_size g)" and "unat (max_virtual_size g) < 2 ^ 63"
    and "unat (crypto_unit_size g) dvd unat (max_virtual_size g)"
    and "0 < unat (shard_logical_size g)"
    and "unat (crypto_unit_size g) dvd unat (shard_logical_size g)"
    and "slot_header_size g = 64"
proof -
  note v = assms [unfolded geometry_valid_def geometry_compute_def]
  show "0 < unat (crypto_unit_size g)" "crypto_unit_size g \<le> max_ciphertext_size g"
    "0 < unat (max_virtual_size g)" "0 < unat (shard_logical_size g)"
    using v by (auto simp: unat_gt_0 not_less split: if_splits)
  show "unat (max_ciphertext_size g) \<le> 2 ^ 24" "unat (max_virtual_size g) < 2 ^ 63"
    using v by (auto simp: not_less word_le_nat_alt unat_MAX_PAYLOAD split: if_splits)
  show "unat (device_block_size g) dvd unat (crypto_unit_size g)"
    "unat (crypto_unit_size g) dvd unat (max_virtual_size g)"
    "unat (crypto_unit_size g) dvd unat (shard_logical_size g)"
    using v by (auto simp: is_multiple_of_unat split: if_splits)
  show "slot_header_size g = 64"
    using v by (cases g) (auto simp: Let_def SLOT_HEADER_SIZE_def split: if_splits elim!: res_bind_InrE)
qed

lemma geometry_valid_slot:
  assumes "geometry_valid g"
  shows "unat (slot_size g) =
      (64 + unat (max_ciphertext_size g) + unat (slot_alignment g) - 1)
        div unat (slot_alignment g) * unat (slot_alignment g)"
    and "512 \<le> unat (slot_alignment g)"
    and "compute_capacity_plan g = Inr (projr (compute_capacity_plan g))"
    and "unat (units_per_shard g) \<le> 2 ^ 32 - 1"
proof -
  note v = assms [unfolded geometry_valid_def geometry_compute_def]
  have pow: "is_pow2 (ucast (slot_alignment g))"
    using v by (auto split: if_splits)
  have up: "align_up (ucast SLOT_HEADER_SIZE + ucast (max_ciphertext_size g)) (ucast (slot_alignment g))
      = Inr (slot_size g)"
    using v by (cases g) (auto simp: Let_def split: if_splits elim!: res_bind_InrE)
  have "unat (ucast SLOT_HEADER_SIZE + ucast (max_ciphertext_size g) :: u64) =
      64 + unat (max_ciphertext_size g)"
    using geometry_valid_sizes(3) [OF assms] by (simp add: SLOT_HEADER_SIZE_def unat_word_ariths)
  then show "unat (slot_size g) =
      (64 + unat (max_ciphertext_size g) + unat (slot_alignment g) - 1)
        div unat (slot_alignment g) * unat (slot_alignment g)"
    using align_up_InrD [OF up pow] by simp
  show "512 \<le> unat (slot_alignment g)"
    using v by (auto simp: not_less word_le_nat_alt split: if_splits)
  show "compute_capacity_plan g = Inr (projr (compute_capacity_plan g))"
    using v by (auto simp: Let_def split: if_splits elim!: res_bind_InrE)
  show "unat (units_per_shard g) \<le> 2 ^ 32 - 1"
    using v by (auto simp: Let_def not_less word_le_nat_alt split: if_splits elim!: res_bind_InrE)
qed

lemma geometry_valid_units:
  assumes "geometry_valid g"
  shows "0 < unat (units_per_shard g)" and "0 < unat (num_units g)"
    and "unat (num_units g) * unat (crypto_unit_size g) = unat (max_virtual_size g)"
    and "unat (units_per_shard g) * unat (crypto_unit_size g) = unat (shard_logical_size g)"
proof -
  have cu: "0 < unat (crypto_unit_size g)"
    by (rule geometry_valid_sizes [OF assms])
  have units: "unat (num_units g) = unat (max_virtual_size g) div unat (crypto_unit_size g)"
    "unat (units_per_shard g) = unat (shard_logical_size g) div unat (crypto_unit_size g)"
    by (simp_all add: num_units_def units_per_shard_def word_arith)
  show "unat (num_units g) * unat (crypto_unit_size g) = unat (max_virtual_size g)"
    "unat (units_per_shard g) * unat (crypto_unit_size g) = unat (shard_logical_size g)"
    using geometry_valid_sizes(7,9) [OF assms] by (simp_all add: units)
  then show "0 < unat (units_per_shard g)" "0 < unat (num_units g)"
    using geometry_valid_sizes(5,8) [OF assms] by (auto intro: gr0I)
qed

text \<open>The capacity plan of an accepted geometry exists, and all of its numbers are the exact
  products: nothing wrapped.\<close>

lemma capacity_plan_exact:
  assumes "compute_capacity_plan g = Inr p"
  shows "unat (num_shards g) \<le> 2 ^ 24"
    and "unat (cp_full_slot_span_bytes p) =
      unat (num_shards g) * (unat (units_per_shard g) * unat (slot_size g))"
    and "unat (cp_allocation_map_ab_bytes p) =
      2 * unat (num_shards g) * (32 + unat (div_ceil (units_per_shard g) 8))"
    and "unat (cp_catalog_ab_bytes p) = 2 * (8 * unat (num_shards g) + 28)"
    and "cp_num_units p = num_units g" and "cp_num_shards p = num_shards g"
proof -
  have fixed: "unat ALLOCATION_FIXED_BYTES = 32" "unat CATALOG_FIXED_BYTES = 28"
    by (simp_all add: ALLOCATION_FIXED_BYTES_def CATALOG_FIXED_BYTES_def)
  note p = assms [unfolded compute_capacity_plan_def]
  show "unat (num_shards g) \<le> 2 ^ 24"
    using p by (auto simp: not_less word_le_nat_alt unat_MAX_SHARDS split: if_splits)
  show "unat (cp_full_slot_span_bytes p) =
      unat (num_shards g) * (unat (units_per_shard g) * unat (slot_size g))"
    "unat (cp_allocation_map_ab_bytes p) =
      2 * unat (num_shards g) * (32 + unat (div_ceil (units_per_shard g) 8))"
    "unat (cp_catalog_ab_bytes p) = 2 * (8 * unat (num_shards g) + 28)"
    "cp_num_units p = num_units g" "cp_num_shards p = num_shards g"
    using p by (auto simp: fixed bind_eq_Some_conv split: if_splits elim!: res_bind_InrE
        dest!: ok_or_InrD checked_mul_SomeD checked_add_SomeD)
qed

section \<open>Addresses\<close>

lemma slot_size_bounds:
  assumes "geometry_valid g"
  shows "64 + unat (max_ciphertext_size g) \<le> unat (slot_size g)"
    and "unat (slot_size g) < 64 + unat (max_ciphertext_size g) + unat (slot_alignment g)"
    and "unat (slot_alignment g) dvd unat (slot_size g)"
proof -
  let ?v = "64 + unat (max_ciphertext_size g)" and ?a = "unat (slot_alignment g)"
  have a: "0 < ?a"
    using geometry_valid_slot(2) [OF assms] by simp
  have eq: "unat (slot_size g) = (?v + ?a - 1) div ?a * ?a"
    by (rule geometry_valid_slot(1) [OF assms])
  have "(?v + ?a - 1) div ?a * ?a + (?v + ?a - 1) mod ?a = ?v + ?a - 1"
    by (rule div_mult_mod_eq)
  moreover have "(?v + ?a - 1) mod ?a < ?a"
    using a by simp
  ultimately show "?v \<le> unat (slot_size g)" "unat (slot_size g) < ?v + ?a"
    unfolding eq using a by linarith+
  show "?a dvd unat (slot_size g)"
    by (simp add: eq)
qed

lemma shard_bytes_bound:
  assumes "geometry_valid g"
  shows "unat (units_per_shard g) * unat (slot_size g) < 2 ^ 64"
proof -
  obtain p where p: "compute_capacity_plan g = Inr p"
    using geometry_valid_slot(3) [OF assms] by blast
  have "unat (units_per_shard g * slot_size g) = unat (units_per_shard g) * unat (slot_size g)"
    using p by (auto simp: compute_capacity_plan_def split: if_splits elim!: res_bind_InrE
        dest!: ok_or_InrD checked_mul_SomeD)
  then show ?thesis
    using unat_lt2p [of "units_per_shard g * slot_size g"] by simp
qed

lemma unat_slot_offset:
  assumes "geometry_valid g" and "i < units_per_shard g"
  shows "unat (slot_offset g i) = unat i * unat (slot_size g)"
    and "unat (slot_offset g i) + unat (slot_size g) \<le> unat (units_per_shard g) * unat (slot_size g)"
proof -
  have i: "Suc (unat i) \<le> unat (units_per_shard g)"
    using assms(2) by (simp add: word_less_nat_alt)
  then have le: "Suc (unat i) * unat (slot_size g) \<le> unat (units_per_shard g) * unat (slot_size g)"
    by (rule mult_le_mono1)
  then have "unat i * unat (slot_size g) < 2 ^ 64"
    using shard_bytes_bound [OF assms(1)] by simp
  then show eq: "unat (slot_offset g i) = unat i * unat (slot_size g)"
    by (simp add: slot_offset_def unat_word_ariths)
  show "unat (slot_offset g i) + unat (slot_size g) \<le> unat (units_per_shard g) * unat (slot_size g)"
    using le by (simp only: eq mult_Suc add.commute)
qed

lemma shard_of_unit_exact:
  assumes "geometry_valid g" and "u < num_units g" and "shard_of_unit g u = (s, i)"
  shows "s < num_shards g" and "i < units_per_shard g"
    and "unat u = unat s * unat (units_per_shard g) + unat i"
proof -
  have per: "0 < unat (units_per_shard g)"
    by (rule geometry_valid_units [OF assms(1)])
  have si: "unat s = unat u div unat (units_per_shard g)"
    "unat i = unat u mod unat (units_per_shard g)"
    using assms(3) by (auto simp: shard_of_unit_def word_arith)
  show "i < units_per_shard g"
    using per by (simp add: word_less_nat_alt si)
  show "unat u = unat s * unat (units_per_shard g) + unat i"
    by (simp add: si)
  have "unat (num_shards g) = (unat (num_units g) + unat (units_per_shard g) - 1)
      div unat (units_per_shard g)"
    using per by (simp add: num_shards_def unat_div_ceil)
  moreover have "Suc (unat u) \<le> unat (num_units g)"
    using assms(2) by (simp add: word_less_nat_alt)
  then have "(unat u + unat (units_per_shard g)) div unat (units_per_shard g) \<le>
      (unat (num_units g) + unat (units_per_shard g) - 1) div unat (units_per_shard g)"
    by (intro div_le_mono) simp
  then have "unat u div unat (units_per_shard g) + 1 \<le>
      (unat (num_units g) + unat (units_per_shard g) - 1) div unat (units_per_shard g)"
    using per by (simp only: div_add_self2 less_not_refl2 not_False_eq_True)
  ultimately show "s < num_shards g"
    using per by (simp add: word_less_nat_alt si)
qed

text \<open>Distinct units of an accepted geometry never share a byte of a shard file: either they are
  in different shards, or their slots are disjoint ranges.\<close>

lemma slots_disjoint:
  assumes "geometry_valid g" and "u < num_units g" and "v < num_units g" and "u \<noteq> v"
    and "shard_of_unit g u = (s, i)" and "shard_of_unit g v = (s', j)"
  shows "s \<noteq> s' \<or> unat (slot_offset g i) + unat (slot_size g) \<le> unat (slot_offset g j) \<or>
    unat (slot_offset g j) + unat (slot_size g) \<le> unat (slot_offset g i)"
proof (cases "s = s'")
  case True
  note u = shard_of_unit_exact [OF assms(1,2,5)] and v = shard_of_unit_exact [OF assms(1,3,6)]
  have "unat i \<noteq> unat j"
    using u(3) v(3) True assms(4) by (metis word_unat_eq_iff)
  then consider "Suc (unat i) \<le> unat j" | "Suc (unat j) \<le> unat i"
    by linarith
  then have "Suc (unat i) * unat (slot_size g) \<le> unat j * unat (slot_size g) \<or>
      Suc (unat j) * unat (slot_size g) \<le> unat i * unat (slot_size g)"
    by cases (blast intro: mult_le_mono1)+
  then show ?thesis
    unfolding unat_slot_offset(1) [OF assms(1) u(2)] unat_slot_offset(1) [OF assms(1) v(2)]
    by (simp add: add.commute)
qed simp

end
