(* ===== verification/Superblock.thy ===== *)
theory Superblock
  imports Geometry
begin

text \<open>
  The volume superblock of \<open>crates/maki-format/src/superblock.rs\<close>: a fixed 4096-byte image whose
  envelope version selects the recovery policy. The decoder recomputes the geometry from the stored
  inputs and refuses an image whose stored slot numbers differ. Loading the two copies from a
  directory is in \<open>Superblock_Load\<close>.
\<close>

unbundle bit_operations_syntax

definition SUPERBLOCK_SIZE :: nat where "SUPERBLOCK_SIZE = 4096"

definition SUPERBLOCK_MAGIC :: bytes where
  "SUPERBLOCK_MAGIC = map (of_nat \<circ> of_char) ''MAKISB01''"

definition SUPERBLOCK_VERSION :: u32 where "SUPERBLOCK_VERSION = 1"
definition SUPERBLOCK_VERSION_V2 :: u32 where "SUPERBLOCK_VERSION_V2 = 2"
definition SUPERBLOCK_VERSION_V3 :: u32 where "SUPERBLOCK_VERSION_V3 = 3"
definition CRYPTO_FORMAT_VERSION :: u32 where "CRYPTO_FORMAT_VERSION = 1"
definition SUPPORTED_FLAGS :: u64 where "SUPPORTED_FLAGS = 0"
definition MAX_STR :: nat where "MAX_STR = 128"

record superblock =
  sb_generation :: u64
  sb_volume_uuid :: uuid
  sb_provider_type :: bytes
  sb_crypto_compatibility_id :: bytes
  sb_key_identity :: bytes
  sb_geometry :: geometry
  sb_format_version :: u32
  sb_created_unix :: u64

text \<open>The \<open>matches!\<close> pattern of the three supported envelopes.\<close>

definition supported_envelope :: "u32 \<Rightarrow> bool" where
  "supported_envelope v \<longleftrightarrow>
     v = SUPERBLOCK_VERSION \<or> v = SUPERBLOCK_VERSION_V2 \<or> v = SUPERBLOCK_VERSION_V3"

text \<open>\<open>Writer::string\<close> with the \<open>expect\<close> of the encoder: an over-long field panics.\<close>

definition expect_string :: "bytes \<Rightarrow> string \<Rightarrow> writer \<Rightarrow> format_error + writer" where
  "expect_string s what w =
     (case w_string s MAX_STR w of Inr w' \<Rightarrow> Inr w' | Inl _ \<Rightarrow> Inl (Panicked what))"

definition encode_metadata_version :: "(bytes \<Rightarrow> u32) \<Rightarrow> superblock \<Rightarrow> u32 \<Rightarrow> format_error + bytes" where
  "encode_metadata_version crc s metadata_version =
     (let g = sb_geometry s;
          w = write_all
            [w_bytes SUPERBLOCK_MAGIC, w_u32 metadata_version, w_u64 (sb_generation s),
             w_uuid (sb_volume_uuid s), w_u32 (device_block_size g), w_u32 (crypto_unit_size g),
             w_u32 (slot_alignment g), w_u32 (max_ciphertext_size g), w_u32 (slot_header_size g),
             w_u64 (slot_size g), w_u64 (max_virtual_size g), w_u64 (shard_logical_size g),
             w_u32 (sb_format_version s), w_u64 (sb_created_unix s), w_u64 0]
      in res_bind (expect_string (sb_provider_type s) ''validated provider_type'' w) (\<lambda>w.
         res_bind (expect_string (sb_crypto_compatibility_id s) ''validated compat id'' w) (\<lambda>w.
         res_bind (expect_string (sb_key_identity s) ''validated key identity'' w) (\<lambda>w.
         Inr (finish_with_crc crc (w_pad_to (SUPERBLOCK_SIZE - 4) w))))))"

definition superblock_encode :: "(bytes \<Rightarrow> u32) \<Rightarrow> superblock \<Rightarrow> format_error + bytes" where
  "superblock_encode crc s = encode_metadata_version crc s SUPERBLOCK_VERSION"

definition superblock_body :: "superblock rd" where
  "superblock_body =
     rd_bind (rd_take 8) (\<lambda>_.
     rd_bind rd_u32 (\<lambda>version.
     if \<not> supported_envelope version then rd_fail (Unsupported ''superblock version'')
     else rd_bind rd_u64 (\<lambda>generation.
     rd_bind rd_uuid (\<lambda>volume_uuid.
     rd_bind rd_u32 (\<lambda>device_block.
     rd_bind rd_u32 (\<lambda>crypto_unit.
     rd_bind rd_u32 (\<lambda>slot_align.
     rd_bind rd_u32 (\<lambda>max_ciphertext.
     rd_bind rd_u32 (\<lambda>header_size.
     rd_bind rd_u64 (\<lambda>size.
     rd_bind rd_u64 (\<lambda>max_virtual.
     rd_bind rd_u64 (\<lambda>shard_logical.
     rd_bind rd_u32 (\<lambda>format_version.
     rd_bind rd_u64 (\<lambda>created_unix.
     rd_bind rd_u64 (\<lambda>flags.
     if format_version \<noteq> CRYPTO_FORMAT_VERSION then rd_fail (Unsupported ''crypto format version'')
     else if flags AND NOT SUPPORTED_FLAGS \<noteq> 0 then rd_fail (Unsupported ''superblock flags'')
     else rd_bind (rd_string MAX_STR) (\<lambda>provider_type.
     rd_bind (rd_string MAX_STR) (\<lambda>compat_id.
     rd_bind (rd_string MAX_STR) (\<lambda>key_identity.
     case geometry_compute device_block crypto_unit slot_align max_ciphertext max_virtual
       shard_logical of
       Inl e \<Rightarrow> rd_fail e
     | Inr g \<Rightarrow>
         if slot_size g \<noteq> size \<or> slot_header_size g \<noteq> header_size then
           rd_fail (Invalid ''stored slot geometry does not match computed'')
         else rd_return \<lparr>sb_generation = generation, sb_volume_uuid = volume_uuid,
           sb_provider_type = provider_type, sb_crypto_compatibility_id = compat_id,
           sb_key_identity = key_identity, sb_geometry = g,
           sb_format_version = format_version, sb_created_unix = created_unix\<rparr>))))))))))))))))))"

definition superblock_decode :: "(bytes \<Rightarrow> u32) \<Rightarrow> bytes \<Rightarrow> format_error + superblock" where
  "superblock_decode crc data =
     (if length data < SUPERBLOCK_SIZE then Inl (Truncated ''superblock'')
      else let data = take SUPERBLOCK_SIZE data in
      if take 8 data \<noteq> SUPERBLOCK_MAGIC then Inl (BadMagic ''superblock'')
      else res_bind (strip_verify_crc crc data ''superblock'') (rd_run superblock_body))"

record volume_superblock =
  vs_superblock :: superblock
  vs_metadata_version :: u32

definition volume_superblock_encode :: "(bytes \<Rightarrow> u32) \<Rightarrow> volume_superblock \<Rightarrow> format_error + bytes" where
  "volume_superblock_encode crc v =
     (if \<not> supported_envelope (vs_metadata_version v) then
        Inl (Panicked ''unsupported metadata envelope for encoding'')
      else encode_metadata_version crc (vs_superblock v) (vs_metadata_version v))"

definition volume_superblock_decode :: "(bytes \<Rightarrow> u32) \<Rightarrow> bytes \<Rightarrow> format_error + volume_superblock" where
  "volume_superblock_decode crc data =
     res_bind (superblock_decode crc data) (\<lambda>s.
     Inr \<lparr>vs_superblock = s, vs_metadata_version = from_le32 (take 4 (drop 8 data))\<rparr>)"

definition superblock_ab :: "(bytes \<Rightarrow> u32) \<Rightarrow> superblock ab_record" where
  "superblock_ab crc =
     \<lparr>ab_max_encoded_len = SUPERBLOCK_SIZE, ab_generation = sb_generation,
      ab_set_generation = (\<lambda>g s. s\<lparr>sb_generation := g\<rparr>),
      ab_encode = superblock_encode crc, ab_decode = superblock_decode crc\<rparr>"

definition volume_superblock_ab :: "(bytes \<Rightarrow> u32) \<Rightarrow> volume_superblock ab_record" where
  "volume_superblock_ab crc =
     \<lparr>ab_max_encoded_len = SUPERBLOCK_SIZE, ab_generation = (\<lambda>v. sb_generation (vs_superblock v)),
      ab_set_generation = (\<lambda>g v. v\<lparr>vs_superblock := (vs_superblock v)\<lparr>sb_generation := g\<rparr>\<rparr>),
      ab_encode = volume_superblock_encode crc, ab_decode = volume_superblock_decode crc\<rparr>"

section \<open>Lemmas\<close>

definition str_ok :: "bytes \<Rightarrow> bool" where
  "str_ok s \<longleftrightarrow> length s \<le> MAX_STR \<and> utf8_valid s"

definition superblock_wf :: "superblock \<Rightarrow> bool" where
  "superblock_wf s \<longleftrightarrow> length (sb_volume_uuid s) = 16 \<and> str_ok (sb_provider_type s) \<and>
     str_ok (sb_crypto_compatibility_id s) \<and> str_ok (sb_key_identity s) \<and>
     geometry_valid (sb_geometry s) \<and> sb_format_version s = CRYPTO_FORMAT_VERSION"

lemma length_SUPERBLOCK_MAGIC [simp]: "length SUPERBLOCK_MAGIC = 8"
  by (simp add: SUPERBLOCK_MAGIC_def)

definition superblock_fields :: "superblock \<Rightarrow> bytes" where
  "superblock_fields s =
     (let g = sb_geometry s in
      le64 (sb_generation s) @ sb_volume_uuid s @ le32 (device_block_size g) @
      le32 (crypto_unit_size g) @ le32 (slot_alignment g) @ le32 (max_ciphertext_size g) @
      le32 (slot_header_size g) @ le64 (slot_size g) @ le64 (max_virtual_size g) @
      le64 (shard_logical_size g) @ le32 (sb_format_version s) @ le64 (sb_created_unix s) @ le64 0 @
      le16 (of_nat (length (sb_provider_type s))) @ sb_provider_type s @
      le16 (of_nat (length (sb_crypto_compatibility_id s))) @ sb_crypto_compatibility_id s @
      le16 (of_nat (length (sb_key_identity s))) @ sb_key_identity s)"

lemma encode_metadata_version_eq:
  assumes "superblock_wf s"
  shows "encode_metadata_version crc s v =
    Inr (finish_with_crc crc (w_pad_to 4092 (SUPERBLOCK_MAGIC @ le32 v @ superblock_fields s)))"
  using assms
  by (simp add: encode_metadata_version_def superblock_fields_def superblock_wf_def str_ok_def
      expect_string_def w_string_def SUPERBLOCK_SIZE_def Let_def codec_simps)

lemma length_superblock_fields:
  "superblock_wf s \<Longrightarrow> length (superblock_fields s) \<le> 4080"
  by (simp add: superblock_fields_def superblock_wf_def str_ok_def MAX_STR_def Let_def)

lemma superblock_body_fields:
  assumes wf: "superblock_wf s" and v: "supported_envelope v"
  shows "\<exists>r. superblock_body \<lparr>rd_buf = SUPERBLOCK_MAGIC @ le32 v @ superblock_fields s @ zs, rd_pos = 0\<rparr> =
    Inr (s, r)"
proof -
  have u: "length (sb_volume_uuid s) = 16"
    and gv: "geometry_compute (device_block_size (sb_geometry s)) (crypto_unit_size (sb_geometry s))
      (slot_alignment (sb_geometry s)) (max_ciphertext_size (sb_geometry s))
      (max_virtual_size (sb_geometry s)) (shard_logical_size (sb_geometry s)) = Inr (sb_geometry s)"
    and fv: "sb_format_version s = CRYPTO_FORMAT_VERSION"
    using wf by (simp_all add: superblock_wf_def geometry_valid_def)
  have str: "length x \<le> MAX_STR" "utf8_valid x" "unat (of_nat (length x) :: u16) = length x"
    if "x \<in> {sb_provider_type s, sb_crypto_compatibility_id s, sb_key_identity s}" for x
    using that wf by (auto simp: superblock_wf_def str_ok_def MAX_STR_def unat_of_nat)
  show ?thesis
    using str [of "sb_provider_type s"] str [of "sb_crypto_compatibility_id s"]
      str [of "sb_key_identity s"]
    by (simp add: superblock_body_def superblock_fields_def Let_def v u gv fv rd_uuid_def rd_string_def
        codec_simps)
qed

text \<open>The image of a well-formed superblock, and what the decoders make of it.\<close>

lemma encode_metadata_version_image:
  assumes wf: "superblock_wf s" and v: "supported_envelope v"
  obtains b where "encode_metadata_version crc s v = Inr b" and "length b = 4096"
    and "superblock_decode crc b = Inr s" and "from_le32 (take 4 (drop 8 b)) = v"
proof -
  let ?w = "SUPERBLOCK_MAGIC @ le32 v @ superblock_fields s"
  obtain zs where zs: "w_pad_to 4092 ?w = ?w @ zs"
    using w_pad_to_prefix by blast
  let ?b = "finish_with_crc crc (?w @ zs)"
  have "length ?w \<le> 4092"
    using length_superblock_fields [OF wf] by simp
  then have len: "length (?w @ zs) = 4092"
    using w_pad_to_length [of ?w 4092] zs by simp
  then have lb: "length ?b = 4096"
    by (simp only: length_finish_with_crc)
  have mg: "take 8 ?b = SUPERBLOCK_MAGIC"
    by (simp add: finish_with_crc_def)
  have ver: "from_le32 (take 4 (drop 8 ?b)) = v"
    by (simp add: finish_with_crc_def codec_simps)
  obtain r where "superblock_body \<lparr>rd_buf = ?w @ zs, rd_pos = 0\<rparr> = Inr (s, r)"
    using superblock_body_fields [OF wf v, of zs] by auto
  then have "rd_run superblock_body (?w @ zs) = Inr s"
    by (rule rd_run_Inr)
  then have "superblock_decode crc ?b = Inr s"
    using lb mg by (simp add: superblock_decode_def SUPERBLOCK_SIZE_def Let_def)
  moreover have "encode_metadata_version crc s v = Inr ?b"
    using encode_metadata_version_eq [OF wf, of crc v] by (simp only: zs)
  ultimately show thesis
    using lb ver that by blast
qed

lemma superblock_decode_strip:
  assumes "superblock_decode crc data = Inr s"
  obtains p where "SUPERBLOCK_SIZE \<le> length data"
    and "strip_verify_crc crc (take SUPERBLOCK_SIZE data) ''superblock'' = Inr p"
    and "rd_run superblock_body p = Inr s"
  using assms by (auto simp: superblock_decode_def Let_def not_less split: if_splits elim!: res_bind_InrE)

lemma superblock_decode_raw:
  assumes "superblock_decode crc data = Inr s" and "length data \<le> SUPERBLOCK_SIZE"
  shows "raw_generation_decode crc data = Inr (sb_generation s)"
proof -
  from assms have "res_bind (strip_verify_crc crc data ''superblock'') (rd_run superblock_body) = Inr s"
    by (auto elim!: superblock_decode_strip)
  then show ?thesis
    unfolding superblock_body_def
    by (rule raw_generation_of_decode') (auto elim!: rd_bind_InrE split: if_splits sum.splits)
qed

lemma superblock_decode_wf:
  assumes "superblock_decode crc data = Inr s"
  shows "superblock_wf s"
proof -
  obtain p where "rd_run superblock_body p = Inr s"
    using assms by (rule superblock_decode_strip)
  then show ?thesis
    unfolding superblock_body_def superblock_wf_def str_ok_def rd_string_def rd_uuid_def
    by (auto elim!: rd_run_InrE rd_bind_InrE split: if_splits sum.splits
        dest!: rd_take_length geometry_compute_valid)
qed

lemma supported_1 [simp]: "supported_envelope SUPERBLOCK_VERSION"
  by (simp add: supported_envelope_def)

interpretation superblock: ab_codec crc "superblock_ab crc" superblock_wf for crc
proof unfold_locales
  fix s b
  assume wf: "superblock_wf s"
  obtain c where c: "encode_metadata_version crc s SUPERBLOCK_VERSION = Inr c" "length c = 4096"
    "superblock_decode crc c = Inr s"
    using wf supported_1 by (rule encode_metadata_version_image)
  then show "\<exists>b. ab_encode (superblock_ab crc) s = Inr b \<and> ab_decode (superblock_ab crc) b = Inr s"
    by (simp add: superblock_ab_def superblock_encode_def)
  assume "ab_encode (superblock_ab crc) s = Inr b"
  with c show "20 \<le> length b \<and> length b \<le> ab_max_encoded_len (superblock_ab crc)"
    by (simp add: superblock_ab_def superblock_encode_def SUPERBLOCK_SIZE_def)
qed (auto simp: superblock_ab_def superblock_decode_raw superblock_wf_def)

definition volume_superblock_wf :: "volume_superblock \<Rightarrow> bool" where
  "volume_superblock_wf v \<longleftrightarrow> superblock_wf (vs_superblock v) \<and> supported_envelope (vs_metadata_version v)"

lemma volume_superblock_image:
  assumes "volume_superblock_wf v"
  obtains b where "volume_superblock_encode crc v = Inr b" and "length b = 4096"
    and "volume_superblock_decode crc b = Inr v"
proof -
  have wf: "superblock_wf (vs_superblock v)" and e: "supported_envelope (vs_metadata_version v)"
    using assms by (simp_all add: volume_superblock_wf_def)
  obtain b where "encode_metadata_version crc (vs_superblock v) (vs_metadata_version v) = Inr b"
    and "length b = 4096" and "superblock_decode crc b = Inr (vs_superblock v)"
    and "from_le32 (take 4 (drop 8 b)) = vs_metadata_version v"
    using wf e by (rule encode_metadata_version_image)
  then show thesis
    using e by (intro that [of b]) (simp_all add: volume_superblock_encode_def volume_superblock_decode_def)
qed

interpretation volume_superblock: ab_codec crc "volume_superblock_ab crc" volume_superblock_wf for crc
proof unfold_locales
  fix v b
  assume wf: "volume_superblock_wf v"
  obtain c where c: "volume_superblock_encode crc v = Inr c" "length c = 4096"
    "volume_superblock_decode crc c = Inr v"
    using wf by (rule volume_superblock_image)
  then show "\<exists>b. ab_encode (volume_superblock_ab crc) v = Inr b \<and> ab_decode (volume_superblock_ab crc) b = Inr v"
    by (simp add: volume_superblock_ab_def)
  assume "ab_encode (volume_superblock_ab crc) v = Inr b"
  with c show "20 \<le> length b \<and> length b \<le> ab_max_encoded_len (volume_superblock_ab crc)"
    by (simp add: volume_superblock_ab_def SUPERBLOCK_SIZE_def)
qed (auto simp: volume_superblock_ab_def volume_superblock_decode_def superblock_decode_raw
    volume_superblock_wf_def superblock_wf_def elim!: res_bind_InrE)

text \<open>Decoding an image gives a supported envelope: the recovery policy is never guessed.\<close>

lemma volume_superblock_decode_wf:
  assumes "volume_superblock_decode crc data = Inr v"
  shows "volume_superblock_wf v"
proof -
  obtain s where s: "superblock_decode crc data = Inr s"
    and v: "v = \<lparr>vs_superblock = s, vs_metadata_version = from_le32 (take 4 (drop 8 data))\<rparr>"
    using assms by (auto simp: volume_superblock_decode_def elim!: res_bind_InrE)
  obtain p where len: "SUPERBLOCK_SIZE \<le> length data"
    and strip: "strip_verify_crc crc (take SUPERBLOCK_SIZE data) ''superblock'' = Inr p"
    and run: "rd_run superblock_body p = Inr s"
    using s by (rule superblock_decode_strip)
  have d: "take 4096 data = p @ le32 (crc p)"
    using strip_verify_InrD [OF strip] by (simp add: finish_with_crc_def SUPERBLOCK_SIZE_def)
  have "length (take 4096 data) = length p + 4"
    by (simp add: d)
  then have lp: "length p = 4092"
    using len by (simp add: SUPERBLOCK_SIZE_def)
  have "take 4 (drop 8 p) = take 4 (drop 8 (take 4096 data))"
    by (simp add: d lp)
  then have "take 4 (drop 8 p) = take 4 (drop 8 data)"
    by (simp add: take_drop)
  moreover have "supported_envelope (from_le32 (take 4 (drop 8 p)))"
    using run lp
    by (auto simp: superblock_body_def rd_take_apply rd_int_apply elim!: rd_run_InrE rd_bind_InrE
        split: if_splits)
  ultimately show ?thesis
    using superblock_decode_wf [OF s] by (simp add: v volume_superblock_wf_def)
qed

end
