(* ===== verification/Path.thy ===== *)
theory Path
  imports Codec
begin

text \<open>
  Relative-path validation of \<open>crates/maki-backing/src/path.rs\<close>. Paths are strings; a rejected
  path is the error kind \<open>InvalidInput\<close>, whatever the reason in its message. The lexical resolver
  at the end is the specification: what a path means to a file system that interprets \<open>.\<close> and
  \<open>..\<close>, starting below a root directory.
\<close>

text \<open>\<open>str::split\<close> and \<open>str::rfind\<close> for one character.\<close>

fun split_on :: "char \<Rightarrow> string \<Rightarrow> string list" where
  "split_on c [] = [[]]"
| "split_on c (x # xs) =
     (if x = c then [] # split_on c xs
      else case split_on c xs of y # ys \<Rightarrow> (x # y) # ys | [] \<Rightarrow> [[x]])"

fun rfind :: "char \<Rightarrow> string \<Rightarrow> nat option" where
  "rfind c [] = None"
| "rfind c (x # xs) =
     (case rfind c xs of Some i \<Rightarrow> Some (Suc i) | None \<Rightarrow> if x = c then Some 0 else None)"

fun validate_components :: "string list \<Rightarrow> io_error + unit" where
  "validate_components [] = Inr ()"
| "validate_components (part # parts) =
     (if part = [] then Inl InvalidInput
      else if part = ''.'' \<or> part = ''..'' then Inl InvalidInput
      else validate_components parts)"

definition validate :: "string \<Rightarrow> bool \<Rightarrow> io_error + unit" where
  "validate path allow_empty =
     (if path = [] then (if allow_empty then Inr () else Inl InvalidInput)
      else if hd path = CHR ''/'' then Inl InvalidInput
      else if CHR 0x5C \<in> set path \<or> CHR 0x00 \<in> set path \<or> CHR '':'' \<in> set path then
        Inl InvalidInput
      else validate_components (split_on (CHR ''/'') path))"

definition parent :: "string \<Rightarrow> string" where
  "parent path = (case rfind (CHR ''/'') path of Some i \<Rightarrow> take i path | None \<Rightarrow> [])"

definition file_name :: "string \<Rightarrow> string" where
  "file_name path = (case rfind (CHR ''/'') path of Some i \<Rightarrow> drop (Suc i) path | None \<Rightarrow> path)"

section \<open>Lexical resolution\<close>

text \<open>Resolving a component list against a directory given as the list of names from the root
  down; \<open>None\<close> is leaving the root.\<close>

fun resolve :: "string list \<Rightarrow> string list \<Rightarrow> string list option" where
  "resolve dir [] = Some dir"
| "resolve dir (c # cs) =
     (if c = [] \<or> c = ''.'' then resolve dir cs
      else if c = ''..'' then (if dir = [] then None else resolve (butlast dir) cs)
      else resolve (dir @ [c]) cs)"

fun join_path :: "string list \<Rightarrow> string" where
  "join_path [] = []"
| "join_path [c] = c"
| "join_path (c # cs) = c @ CHR ''/'' # join_path cs"

section \<open>Lemmas\<close>

lemma split_on_ne [simp]: "split_on c xs \<noteq> []"
  by (induction xs) (auto split: list.splits)

lemma join_split: "join_path (split_on (CHR ''/'') xs) = xs"
proof (induction xs)
  case (Cons x xs)
  then show ?case
    by (cases "split_on (CHR ''/'') xs"; cases "tl (split_on (CHR ''/'') xs)") auto
qed simp

lemma split_no_sep: "part \<in> set (split_on c xs) \<Longrightarrow> c \<notin> set part"
  by (induction xs arbitrary: part) (auto split: if_splits list.splits)

lemma split_chars: "part \<in> set (split_on c xs) \<Longrightarrow> set part \<subseteq> set xs"
  by (induction xs arbitrary: part) (fastforce split: if_splits list.splits)+

lemma validate_components_iff:
  "validate_components cs = Inr () \<longleftrightarrow> (\<forall>c \<in> set cs. c \<noteq> [] \<and> c \<noteq> ''.'' \<and> c \<noteq> ''..'')"
  by (induction cs) auto

lemma resolve_plain:
  "\<forall>c \<in> set cs. c \<noteq> [] \<and> c \<noteq> ''.'' \<and> c \<noteq> ''..'' \<Longrightarrow> resolve dir cs = Some (dir @ cs)"
  by (induction cs arbitrary: dir) auto

lemma rfind_None: "rfind c xs = None \<longleftrightarrow> c \<notin> set xs"
  by (induction xs) (auto split: option.splits)

lemma rfind_Some:
  "rfind c xs = Some i \<Longrightarrow> i < length xs \<and> xs ! i = c \<and> c \<notin> set (drop (Suc i) xs)"
  by (induction xs arbitrary: i) (auto split: option.splits if_splits simp: rfind_None)

text \<open>A validated path names an entry strictly below the root: it resolves to its own components,
  under any directory, and no prefix of it ever leaves that directory.\<close>

lemma validate_resolves:
  assumes "validate path False = Inr ()"
  shows "resolve dir (take n (split_on (CHR ''/'') path)) = Some (dir @ take n (split_on (CHR ''/'') path))"
    and "\<forall>c \<in> set (split_on (CHR ''/'') path). c \<noteq> [] \<and> CHR ''/'' \<notin> set c \<and> CHR 0x5C \<notin> set c \<and>
      CHR 0x00 \<notin> set c \<and> CHR '':'' \<notin> set c"
proof -
  have parts: "\<forall>c \<in> set (split_on (CHR ''/'') path). c \<noteq> [] \<and> c \<noteq> ''.'' \<and> c \<noteq> ''..''"
    and chars: "CHR 0x5C \<notin> set path" "CHR 0x00 \<notin> set path" "CHR '':'' \<notin> set path"
    using assms by (auto simp: validate_def validate_components_iff split: if_splits)
  then show "resolve dir (take n (split_on (CHR ''/'') path)) = Some (dir @ take n (split_on (CHR ''/'') path))"
    by (intro resolve_plain) (auto dest: in_set_takeD)
  show "\<forall>c \<in> set (split_on (CHR ''/'') path). c \<noteq> [] \<and> CHR ''/'' \<notin> set c \<and> CHR 0x5C \<notin> set c \<and>
      CHR 0x00 \<notin> set c \<and> CHR '':'' \<notin> set c"
    using parts chars split_no_sep [of _ "CHR ''/''" path] split_chars [of _ "CHR ''/''" path] by blast
qed

text \<open>\<open>parent\<close> and \<open>file_name\<close> cut the path at its last slash.\<close>

lemma parent_file_name:
  "path = (if CHR ''/'' \<in> set path then parent path @ CHR ''/'' # file_name path else file_name path)"
  "CHR ''/'' \<notin> set (file_name path)"
proof -
  show "path = (if CHR ''/'' \<in> set path then parent path @ CHR ''/'' # file_name path else file_name path)"
  proof (cases "rfind (CHR ''/'') path")
    case None
    then have "CHR ''/'' \<notin> set path"
      using rfind_None [of "CHR ''/''" path] by simp
    then show ?thesis
      using None by (simp add: file_name_def)
  next
    case (Some i)
    then have "i < length path" "path ! i = CHR ''/''"
      using rfind_Some by blast+
    then have "path = take i path @ CHR ''/'' # drop (Suc i) path"
      by (metis id_take_nth_drop)
    moreover have "CHR ''/'' \<in> set path"
      using Some rfind_None [of "CHR ''/''" path] by auto
    ultimately show ?thesis
      using Some by (simp add: parent_def file_name_def)
  qed
  show "CHR ''/'' \<notin> set (file_name path)"
    using rfind_Some [of "CHR ''/''" path] rfind_None [of "CHR ''/''" path]
    by (auto simp: file_name_def split: option.splits)
qed

end
