(* ===== verification/Layout.thy ===== *)
theory Layout
  imports Path
begin

text \<open>
  The on-disk names of a volume, module \<open>layout\<close> of \<open>crates/maki-format/src/lib.rs\<close>: formatting of
  shard and segment names with zero-padded lower-case hexadecimal indices, and the parsers that
  accept only the canonical spelling.
\<close>

definition VOLUME_LOCK :: string where "VOLUME_LOCK = ''volume.lock''"
definition SUPERBLOCK_A :: string where "SUPERBLOCK_A = ''superblock.a''"
definition SUPERBLOCK_B :: string where "SUPERBLOCK_B = ''superblock.b''"
definition SHARD_CATALOG_A :: string where "SHARD_CATALOG_A = ''shard-catalog.a''"
definition SHARD_CATALOG_B :: string where "SHARD_CATALOG_B = ''shard-catalog.b''"
definition KEY_CANARY_A :: string where "KEY_CANARY_A = ''canary.a''"
definition KEY_CANARY_B :: string where "KEY_CANARY_B = ''canary.b''"
definition DATA_DIR :: string where "DATA_DIR = ''data''"
definition JOURNAL_DIR :: string where "JOURNAL_DIR = ''journal''"
definition CHECKPOINT_DIR :: string where "CHECKPOINT_DIR = ''checkpoint''"
definition JOURNAL_DURABLE_MARK :: string where "JOURNAL_DURABLE_MARK = ''journal/durable-mark''"

text \<open>The standard library's \<open>{:0wx}\<close> format and \<open>u64::from_str_radix(_, 16)\<close>.\<close>

definition hex_char :: "nat \<Rightarrow> char" where
  "hex_char d = char_of (if d < 10 then 48 + d else 87 + d)"

fun hex_digits :: "nat \<Rightarrow> string" where
  "hex_digits n = (if n < 16 then [hex_char n] else hex_digits (n div 16) @ [hex_char (n mod 16)])"

definition fmt_hex :: "nat \<Rightarrow> u64 \<Rightarrow> string" where
  "fmt_hex width v =
     (let ds = hex_digits (unat v) in replicate (width - length ds) (CHR ''0'') @ ds)"

definition hex_val :: "char \<Rightarrow> nat option" where
  "hex_val c =
     (let k = of_char c :: nat in
      if 48 \<le> k \<and> k \<le> 57 then Some (k - 48)
      else if 97 \<le> k \<and> k \<le> 102 then Some (k - 87)
      else if 65 \<le> k \<and> k \<le> 70 then Some (k - 55)
      else None)"

fun parse_digits :: "nat \<Rightarrow> string \<Rightarrow> nat option" where
  "parse_digits acc [] = Some acc"
| "parse_digits acc (c # cs) =
     (case hex_val c of None \<Rightarrow> None
      | Some d \<Rightarrow> if 2 ^ 64 \<le> acc * 16 + d then None else parse_digits (acc * 16 + d) cs)"

definition from_str_radix16 :: "string \<Rightarrow> u64 option" where
  "from_str_radix16 s =
     (let ds = (case s of c # cs \<Rightarrow> if c = CHR ''+'' then cs else s | [] \<Rightarrow> []) in
      if ds = [] then None else map_option of_nat (parse_digits 0 ds))"

definition strip_prefix :: "string \<Rightarrow> string \<Rightarrow> string option" where
  "strip_prefix pre s = (if take (length pre) s = pre then Some (drop (length pre) s) else None)"

definition strip_suffix :: "string \<Rightarrow> string \<Rightarrow> string option" where
  "strip_suffix suf s =
     (if length suf \<le> length s \<and> drop (length s - length suf) s = suf
      then Some (take (length s - length suf) s) else None)"

definition shard_data :: "u64 \<Rightarrow> string" where
  "shard_data shard = DATA_DIR @ ''/shard-'' @ fmt_hex 8 shard @ ''.dat''"

definition parse_shard_data :: "string \<Rightarrow> u64 option" where
  "parse_shard_data name =
     Option.bind (strip_prefix ''shard-'' name) (\<lambda>rest.
     Option.bind (strip_suffix ''.dat'' rest) (\<lambda>hex.
     Option.bind (from_str_radix16 hex) (\<lambda>index.
     if shard_data index = DATA_DIR @ ''/'' @ name then Some index else None)))"

definition shard_alloc_a :: "u64 \<Rightarrow> string" where
  "shard_alloc_a shard = DATA_DIR @ ''/shard-'' @ fmt_hex 8 shard @ ''.alloc.a''"

definition shard_alloc_b :: "u64 \<Rightarrow> string" where
  "shard_alloc_b shard = DATA_DIR @ ''/shard-'' @ fmt_hex 8 shard @ ''.alloc.b''"

definition shard_discard_a :: "u64 \<Rightarrow> string" where
  "shard_discard_a shard = DATA_DIR @ ''/shard-'' @ fmt_hex 8 shard @ ''.discard.a''"

definition shard_discard_b :: "u64 \<Rightarrow> string" where
  "shard_discard_b shard = DATA_DIR @ ''/shard-'' @ fmt_hex 8 shard @ ''.discard.b''"

definition journal_segment :: "u64 \<Rightarrow> string" where
  "journal_segment index = JOURNAL_DIR @ ''/seg-'' @ fmt_hex 16 index"

definition parse_journal_segment :: "string \<Rightarrow> u64 option" where
  "parse_journal_segment name =
     Option.bind (strip_prefix ''seg-'' name) (\<lambda>hex.
     Option.bind (from_str_radix16 hex) (\<lambda>index.
     if journal_segment index = JOURNAL_DIR @ ''/'' @ name then Some index else None))"

section \<open>Lemmas\<close>

declare hex_digits.simps [simp del]

lemma hex_val_char [simp]: "d < 16 \<Longrightarrow> hex_val (hex_char d) = Some d"
  by (auto simp: hex_val_def hex_char_def Let_def)

lemma hex_digits_ne [simp]: "hex_digits n \<noteq> []"
  by (subst hex_digits.simps) simp

lemma parse_digits_append:
  "parse_digits acc (xs @ ys) = Option.bind (parse_digits acc xs) (\<lambda>a. parse_digits a ys)"
  by (induction xs arbitrary: acc) (auto split: option.splits)

lemma parse_digits_hex: "n < 2 ^ 64 \<Longrightarrow> parse_digits 0 (hex_digits n) = Some n"
proof (induction n rule: hex_digits.induct)
  case (1 n)
  show ?case
  proof (cases "n < 16")
    case True
    then show ?thesis by (simp add: hex_digits.simps [of n])
  next
    case False
    then have "parse_digits 0 (hex_digits (n div 16)) = Some (n div 16)"
      using 1 by simp
    then show ?thesis
      using False 1(2) by (simp add: hex_digits.simps [of n] parse_digits_append)
  qed
qed

lemma parse_digits_zeros [simp]: "parse_digits 0 (replicate k (CHR ''0'') @ xs) = parse_digits 0 xs"
  by (induction k) (simp_all add: hex_val_def)

lemma hex_digits_no_plus: "CHR ''+'' \<notin> set (hex_digits n)"
proof (induction n rule: hex_digits.induct)
  case (1 n)
  have "CHR ''+'' \<noteq> hex_char d" if "d < 16" for d
  proof
    assume "CHR ''+'' = hex_char d"
    then have "hex_val (CHR ''+'') = Some d"
      using that by simp
    then show False
      by (simp add: hex_val_def)
  qed
  with 1 show ?case
    by (subst hex_digits.simps) (auto split: if_splits)
qed

lemma from_str_radix16_fmt [simp]: "from_str_radix16 (fmt_hex w v) = Some v"
proof -
  let ?s = "fmt_hex w v"
  have np: "CHR ''+'' \<notin> set ?s"
    using hex_digits_no_plus by (auto simp: fmt_hex_def Let_def)
  have ne: "?s \<noteq> []"
    by (simp add: fmt_hex_def Let_def)
  have "parse_digits 0 ?s = Some (unat v)"
    using unat_lt2p [of v] by (simp add: fmt_hex_def Let_def parse_digits_hex)
  moreover have "(case ?s of c # cs \<Rightarrow> if c = CHR ''+'' then cs else ?s | [] \<Rightarrow> []) = ?s"
    using np ne by (auto split: list.split)
  ultimately show ?thesis
    using ne by (simp add: from_str_radix16_def Let_def)
qed

lemma fmt_hex_inj: "fmt_hex w u = fmt_hex w v \<Longrightarrow> u = v"
  using from_str_radix16_fmt by (metis option.inject)

lemma strip_prefix_append [simp]: "strip_prefix pre (pre @ s) = Some s"
  by (simp add: strip_prefix_def)

lemma strip_suffix_append [simp]: "strip_suffix suf (s @ suf) = Some s"
  by (simp add: strip_suffix_def)

text \<open>The parsers invert the formatters on exactly the names the formatters produce.\<close>

lemma parse_journal_segment_iff:
  "parse_journal_segment name = Some i \<longleftrightarrow> journal_segment i = JOURNAL_DIR @ ''/'' @ name"
proof
  assume "journal_segment i = JOURNAL_DIR @ ''/'' @ name"
  then have "name = ''seg-'' @ fmt_hex 16 i"
    by (simp add: journal_segment_def)
  then show "parse_journal_segment name = Some i"
    using strip_prefix_append [of "''seg-''" "fmt_hex 16 i"]
    by (simp add: parse_journal_segment_def journal_segment_def)
qed (auto simp: parse_journal_segment_def bind_eq_Some_conv split: if_splits)

lemma parse_shard_data_iff:
  "parse_shard_data name = Some i \<longleftrightarrow> shard_data i = DATA_DIR @ ''/'' @ name"
proof
  assume "shard_data i = DATA_DIR @ ''/'' @ name"
  then have "name = ''shard-'' @ fmt_hex 8 i @ ''.dat''"
    by (simp add: shard_data_def)
  then show "parse_shard_data name = Some i"
    using strip_prefix_append [of "''shard-''" "fmt_hex 8 i @ ''.dat''"]
      strip_suffix_append [of "''.dat''" "fmt_hex 8 i"]
    by (simp add: parse_shard_data_def shard_data_def)
qed (auto simp: parse_shard_data_def bind_eq_Some_conv split: if_splits)

end
