(* ===== verification/Journal_Format.thy ===== *)
theory Journal_Format
  imports Geometry
begin

text \<open>
  Journal record framing and the in-memory segment scanner of \<open>crates/maki-format/src/journal.rs\<close>,
  with the segment header and the durable mark. The scanner's loop is a function whose measure is
  the unread rest of the buffer. The lemmas relate it to the encoder: what it returns re-encodes to
  the bytes it consumed, it returns every whole record of a log cut at any byte, and it never
  reports a clean end or a torn tail inside the durable prefix.
\<close>

definition RECORD_MAGIC :: bytes where "RECORD_MAGIC = map (of_nat \<circ> of_char) ''MJR1''"
definition RECORD_HEADER_SIZE :: nat where "RECORD_HEADER_SIZE = 32"
definition SEGMENT_MAGIC :: bytes where "SEGMENT_MAGIC = map (of_nat \<circ> of_char) ''MAKIJSG1''"
definition SEGMENT_VERSION :: u32 where "SEGMENT_VERSION = 1"
definition SEGMENT_HEADER_SIZE :: nat where "SEGMENT_HEADER_SIZE = 48"
definition DURABLE_MARK_MAGIC :: bytes where
  "DURABLE_MARK_MAGIC = map (of_nat \<circ> of_char) ''MAKIJDM1''"
definition DURABLE_MARK_VERSION :: u32 where "DURABLE_MARK_VERSION = 1"
definition DURABLE_MARK_SIZE :: nat where "DURABLE_MARK_SIZE = 32"

record journal_record =
  jr_sequence :: u64
  jr_unit_index :: u64
  jr_payload :: bytes

definition encode_record :: "(bytes \<Rightarrow> u32) \<Rightarrow> journal_record \<Rightarrow> bytes" where
  "encode_record crc rec =
     finish_with_crc crc (write_all
       [w_bytes RECORD_MAGIC, w_u64 (jr_sequence rec), w_u64 (jr_unit_index rec),
        w_u32 (of_nat (length (jr_payload rec))), w_u32 (crc (jr_payload rec))])
     @ jr_payload rec"

datatype scan_outcome =
    Clean
  | TornTail nat
  | Corrupt nat string

record parsed_header =
  ph_sequence :: u64
  ph_unit_index :: u64
  ph_payload_len :: u32
  ph_payload_crc :: u32

definition parse_header :: "(bytes \<Rightarrow> u32) \<Rightarrow> bytes \<Rightarrow> parsed_header option" where
  "parse_header crc buf =
     (if length buf < RECORD_HEADER_SIZE then None
      else let hdr = take RECORD_HEADER_SIZE buf in
      if take 4 hdr \<noteq> RECORD_MAGIC then None
      else res_ok (res_bind (strip_verify_crc crc hdr ''journal record header'') (rd_run (
        rd_bind (rd_take 4) (\<lambda>_.
        rd_bind rd_u64 (\<lambda>sequence.
        rd_bind rd_u64 (\<lambda>unit_index.
        rd_bind rd_u32 (\<lambda>payload_len.
        rd_bind rd_u32 (\<lambda>payload_crc.
        rd_return \<lparr>ph_sequence = sequence, ph_unit_index = unit_index,
          ph_payload_len = payload_len, ph_payload_crc = payload_crc\<rparr>)))))))))"

text \<open>The closure \<open>in_durable\<close>.\<close>

definition in_durable :: "nat option \<Rightarrow> nat \<Rightarrow> bool" where
  "in_durable durable_len pos = (case durable_len of Some d \<Rightarrow> pos < d | None \<Rightarrow> False)"

text \<open>The loop of \<open>scan_segment_bounded\<close> from position \<open>pos\<close>, with the records found so far.\<close>

function scan_loop ::
  "(bytes \<Rightarrow> u32) \<Rightarrow> bytes \<Rightarrow> nat option \<Rightarrow> journal_record list \<Rightarrow> nat \<Rightarrow> u64 \<Rightarrow>
   journal_record list \<times> scan_outcome" where
  "scan_loop crc buf durable_len records pos expected =
     (if length buf \<le> pos then (records, Clean)
      else case parse_header crc (drop pos buf) of
        None \<Rightarrow>
          if \<forall>b \<in> set (drop pos buf). b = 0 then
            if in_durable durable_len pos then
              (records, Corrupt pos ''zeroed record inside durable prefix'')
            else (records, Clean)
          else if in_durable durable_len pos then
            (records, Corrupt pos ''record header damaged inside durable prefix'')
          else (records, TornTail pos)
      | Some header \<Rightarrow>
          if MAX_PAYLOAD < ph_payload_len header then
            (records, Corrupt pos ''payload_len exceeds cap'')
          else if ph_sequence header \<noteq> expected then
            (records, Corrupt pos ''sequence where other expected'')
          else
            let payload_end = pos + RECORD_HEADER_SIZE + unat (ph_payload_len header) in
            if length buf < payload_end then
              if in_durable durable_len pos then
                (records, Corrupt pos ''record truncated inside durable prefix'')
              else (records, TornTail pos)
            else
              let payload = take (unat (ph_payload_len header)) (drop (pos + RECORD_HEADER_SIZE) buf) in
              if crc payload \<noteq> ph_payload_crc header then
                if (case durable_len of
                      Some _ \<Rightarrow> in_durable durable_len pos
                    | None \<Rightarrow>
                        (case parse_header crc (drop payload_end buf) of
                           None \<Rightarrow> False
                         | Some h \<Rightarrow>
                             (case checked_add expected 1 of
                                Some succ \<Rightarrow> ph_sequence h = succ
                              | None \<Rightarrow> True)))
                then (records, Corrupt pos ''payload CRC failure in durable body'')
                else (records, TornTail pos)
              else
                (case checked_add expected 1 of
                   None \<Rightarrow> (records, Corrupt pos ''journal sequence has no representable successor'')
                 | Some next_expected \<Rightarrow>
                     scan_loop crc buf durable_len
                       (records @ [\<lparr>jr_sequence = ph_sequence header,
                          jr_unit_index = ph_unit_index header, jr_payload = payload\<rparr>])
                       payload_end next_expected))"
  by pat_completeness auto
termination
  by (relation "measure (\<lambda>(crc, buf, d, rs, pos, e). length buf - pos)")
    (auto simp: RECORD_HEADER_SIZE_def)

declare scan_loop.simps [simp del]

definition scan_segment_bounded ::
  "(bytes \<Rightarrow> u32) \<Rightarrow> bytes \<Rightarrow> u64 \<Rightarrow> nat option \<Rightarrow> journal_record list \<times> scan_outcome" where
  "scan_segment_bounded crc buf first_sequence durable_len =
     scan_loop crc buf durable_len [] 0 first_sequence"

definition scan_segment :: "(bytes \<Rightarrow> u32) \<Rightarrow> bytes \<Rightarrow> u64 \<Rightarrow> journal_record list \<times> scan_outcome" where
  "scan_segment crc buf first_sequence = scan_segment_bounded crc buf first_sequence None"

record segment_header =
  sg_segment_index :: u64
  sg_volume_uuid :: uuid
  sg_base_sequence :: u64

definition segment_header_encode :: "(bytes \<Rightarrow> u32) \<Rightarrow> segment_header \<Rightarrow> bytes" where
  "segment_header_encode crc h =
     finish_with_crc crc (write_all
       [w_bytes SEGMENT_MAGIC, w_u32 SEGMENT_VERSION, w_u64 (sg_segment_index h),
        w_uuid (sg_volume_uuid h), w_u64 (sg_base_sequence h)])"

definition segment_header_decode :: "(bytes \<Rightarrow> u32) \<Rightarrow> bytes \<Rightarrow> format_error + segment_header" where
  "segment_header_decode crc data =
     (if length data < SEGMENT_HEADER_SIZE then Inl (Truncated ''segment header'')
      else let data = take SEGMENT_HEADER_SIZE data in
      if take 8 data \<noteq> SEGMENT_MAGIC then Inl (BadMagic ''journal segment'')
      else res_bind (strip_verify_crc crc data ''journal segment header'') (rd_run (
        rd_bind (rd_take 8) (\<lambda>_.
        rd_bind rd_u32 (\<lambda>version.
        if version \<noteq> SEGMENT_VERSION then rd_fail (Unsupported ''journal segment version'')
        else rd_bind rd_u64 (\<lambda>segment_index.
        rd_bind rd_uuid (\<lambda>volume_uuid.
        rd_bind rd_u64 (\<lambda>base_sequence.
        rd_return \<lparr>sg_segment_index = segment_index, sg_volume_uuid = volume_uuid,
          sg_base_sequence = base_sequence\<rparr>))))))))"

record durable_mark =
  dm_segment_index :: u64
  dm_durable_size :: u64

definition durable_mark_encode :: "(bytes \<Rightarrow> u32) \<Rightarrow> durable_mark \<Rightarrow> bytes" where
  "durable_mark_encode crc m =
     finish_with_crc crc (write_all
       [w_bytes DURABLE_MARK_MAGIC, w_u32 DURABLE_MARK_VERSION, w_u64 (dm_segment_index m),
        w_u64 (dm_durable_size m)])"

definition durable_mark_decode :: "(bytes \<Rightarrow> u32) \<Rightarrow> bytes \<Rightarrow> format_error + durable_mark" where
  "durable_mark_decode crc data =
     (if length data < DURABLE_MARK_SIZE then Inl (Truncated ''durable mark'')
      else let data = take DURABLE_MARK_SIZE data in
      if take 8 data \<noteq> DURABLE_MARK_MAGIC then Inl (BadMagic ''durable mark'')
      else res_bind (strip_verify_crc crc data ''durable mark'') (rd_run (
        rd_bind (rd_take 8) (\<lambda>_.
        rd_bind rd_u32 (\<lambda>version.
        if version \<noteq> DURABLE_MARK_VERSION then rd_fail (Unsupported ''durable mark version'')
        else rd_bind rd_u64 (\<lambda>segment_index.
        rd_bind rd_u64 (\<lambda>durable_size.
        rd_return \<lparr>dm_segment_index = segment_index, dm_durable_size = durable_size\<rparr>)))))))"

section \<open>Headers and records\<close>

lemma length_magics [simp]:
  "length RECORD_MAGIC = 4" "length SEGMENT_MAGIC = 8" "length DURABLE_MARK_MAGIC = 8"
  by (simp_all add: RECORD_MAGIC_def SEGMENT_MAGIC_def DURABLE_MARK_MAGIC_def)

lemma segment_header_decode_encode:
  assumes "length (sg_volume_uuid h) = 16"
  shows "segment_header_decode crc (segment_header_encode crc h @ rest) = Inr h"
proof -
  let ?p = "SEGMENT_MAGIC @ le32 SEGMENT_VERSION @ le64 (sg_segment_index h) @ sg_volume_uuid h @
    le64 (sg_base_sequence h)"
  have enc: "segment_header_encode crc h = finish_with_crc crc ?p"
    by (simp add: segment_header_encode_def codec_simps)
  have cut: "take 48 (segment_header_encode crc h @ rest) = finish_with_crc crc ?p"
    using assms by (simp add: enc)
  have "take 8 (finish_with_crc crc ?p) = SEGMENT_MAGIC"
    by (simp add: finish_with_crc_def)
  moreover have "\<not> length (segment_header_encode crc h @ rest) < 48"
    using assms by (simp add: enc)
  ultimately show ?thesis
    using assms
    by (simp add: segment_header_decode_def SEGMENT_HEADER_SIZE_def Let_def cut del: length_append take_append)
      (simp add: rd_run_def rd_uuid_def codec_simps)
qed

lemma durable_mark_decode_encode: "durable_mark_decode crc (durable_mark_encode crc m @ rest) = Inr m"
proof -
  let ?p = "DURABLE_MARK_MAGIC @ le32 DURABLE_MARK_VERSION @ le64 (dm_segment_index m) @
    le64 (dm_durable_size m)"
  have enc: "durable_mark_encode crc m = finish_with_crc crc ?p"
    by (simp add: durable_mark_encode_def codec_simps)
  have cut: "take 32 (durable_mark_encode crc m @ rest) = finish_with_crc crc ?p"
    by (simp add: enc)
  have "take 8 (finish_with_crc crc ?p) = DURABLE_MARK_MAGIC"
    by (simp add: finish_with_crc_def)
  moreover have "\<not> length (durable_mark_encode crc m @ rest) < 32"
    by (simp add: enc)
  ultimately show ?thesis
    by (simp add: durable_mark_decode_def DURABLE_MARK_SIZE_def Let_def cut del: length_append take_append)
      (simp add: rd_run_def codec_simps)
qed

text \<open>The header of a record as the list of its fields.\<close>

definition header_payload :: "u64 \<Rightarrow> u64 \<Rightarrow> u32 \<Rightarrow> u32 \<Rightarrow> bytes" where
  "header_payload s u n c = RECORD_MAGIC @ le64 s @ le64 u @ le32 n @ le32 c"

lemma length_header_payload [simp]: "length (header_payload s u n c) = 28"
  by (simp add: header_payload_def)

lemma encode_record_eq:
  "encode_record crc r = finish_with_crc crc (header_payload (jr_sequence r) (jr_unit_index r)
     (of_nat (length (jr_payload r))) (crc (jr_payload r))) @ jr_payload r"
  by (simp add: encode_record_def header_payload_def codec_simps)

lemma length_encode_record [simp]: "length (encode_record crc r) = 32 + length (jr_payload r)"
  by (simp add: encode_record_eq)

text \<open>A header parses exactly when its 32 bytes are the image of its fields.\<close>

lemma parse_header_iff:
  "parse_header crc buf = Some \<lparr>ph_sequence = s, ph_unit_index = u, ph_payload_len = n, ph_payload_crc = c\<rparr>
   \<longleftrightarrow> (\<exists>rest. buf = finish_with_crc crc (header_payload s u n c) @ rest)"
  (is "?L \<longleftrightarrow> ?R")
proof
  assume ?R
  then obtain rest where b: "buf = finish_with_crc crc (header_payload s u n c) @ rest" ..
  have cut: "take 32 buf = finish_with_crc crc (header_payload s u n c)" and len: "\<not> length buf < 32"
    by (simp_all add: b)
  have "take 4 (take 32 buf) = RECORD_MAGIC"
    by (simp add: cut finish_with_crc_def header_payload_def)
  then show ?L
    using len by (simp add: parse_header_def RECORD_HEADER_SIZE_def Let_def cut)
      (simp add: header_payload_def rd_run_def codec_simps)
next
  assume ?L
  then have len: "32 \<le> length buf" and mg: "take 4 (take 32 buf) = RECORD_MAGIC"
    by (auto simp: parse_header_def RECORD_HEADER_SIZE_def Let_def split: if_splits)
  with \<open>?L\<close> obtain p where strip: "strip_verify_crc crc (take 32 buf) ''journal record header'' = Inr p"
    and run: "rd_run (rd_bind (rd_take 4) (\<lambda>_. rd_bind rd_u64 (\<lambda>sequence. rd_bind rd_u64 (\<lambda>unit_index.
        rd_bind rd_u32 (\<lambda>payload_len. rd_bind rd_u32 (\<lambda>payload_crc.
        rd_return \<lparr>ph_sequence = sequence, ph_unit_index = unit_index,
          ph_payload_len = payload_len, ph_payload_crc = payload_crc\<rparr>)))))) p =
      Inr \<lparr>ph_sequence = s, ph_unit_index = u, ph_payload_len = n, ph_payload_crc = c\<rparr>"
    by (auto simp: parse_header_def RECORD_HEADER_SIZE_def Let_def elim!: res_bind_InrE dest!: res_ok_SomeD)
  have d: "take 32 buf = finish_with_crc crc p"
    using strip by (rule strip_verify_InrD)
  have "length (take 32 buf) = length p + 4"
    by (simp add: d)
  then have lp: "length p = 28"
    using len by simp
  have "take 4 p = RECORD_MAGIC"
    using mg lp by (simp add: d finish_with_crc_def)
  moreover have "le64 s = take 8 (drop 4 p)" "le64 u = take 8 (drop 12 p)" "le32 n = take 4 (drop 20 p)"
    "le32 c = take 4 (drop 24 p)"
    using run lp by (auto simp: rd_run_def codec_simps le_from_le)
  ultimately have "header_payload s u n c =
      take 4 p @ take 8 (drop 4 p) @ take 8 (drop 12 p) @ take 4 (drop 20 p) @ take 4 (drop 24 p)"
    by (simp add: header_payload_def)
  also have "\<dots> = take 28 p"
    using take_add [of 24 4 p] take_add [of 20 4 p] take_add [of 12 8 p] take_add [of 4 8 p] by simp
  finally have "header_payload s u n c = p"
    using lp by simp
  then show ?R
    using d by (metis append_take_drop_id)
qed

lemma parse_header_SomeE:
  assumes "parse_header crc buf = Some h"
  obtains rest where "buf = finish_with_crc crc
    (header_payload (ph_sequence h) (ph_unit_index h) (ph_payload_len h) (ph_payload_crc h)) @ rest"
proof (cases h)
  case (fields s u n c)
  then show thesis
    using assms that by (auto simp: parse_header_iff)
qed

lemma parse_header_encode:
  "parse_header crc (encode_record crc r @ rest) = Some \<lparr>ph_sequence = jr_sequence r,
     ph_unit_index = jr_unit_index r, ph_payload_len = of_nat (length (jr_payload r)),
     ph_payload_crc = crc (jr_payload r)\<rparr>"
  by (auto simp: parse_header_iff encode_record_eq)

section \<open>Logs\<close>

text \<open>A log that can follow sequence number \<open>s\<close>: consecutive numbers with a representable
  successor, payloads within the bound.\<close>

fun log_ok :: "u64 \<Rightarrow> journal_record list \<Rightarrow> bool" where
  "log_ok s [] = True"
| "log_ok s (r # rs) \<longleftrightarrow>
     jr_sequence r = s \<and> length (jr_payload r) \<le> unat MAX_PAYLOAD \<and>
     checked_add s 1 = Some (s + 1) \<and> log_ok (s + 1) rs"

definition encode_log :: "(bytes \<Rightarrow> u32) \<Rightarrow> journal_record list \<Rightarrow> bytes" where
  "encode_log crc rs = concat (map (encode_record crc) rs)"

lemma encode_log_simps [simp]:
  "encode_log crc [] = []"
  "encode_log crc (r # rs) = encode_record crc r @ encode_log crc rs"
  "encode_log crc (rs @ qs) = encode_log crc rs @ encode_log crc qs"
  by (simp_all add: encode_log_def)

lemma log_ok_append:
  "log_ok s (rs @ qs) \<longleftrightarrow> log_ok s rs \<and> log_ok (s + of_nat (length rs)) qs"
  by (induction rs arbitrary: s) (auto simp: algebra_simps)

lemma payload_len_word:
  "length p \<le> unat MAX_PAYLOAD \<Longrightarrow> unat (of_nat (length p) :: u32) = length p"
  by (simp add: unat_MAX_PAYLOAD unat_of_nat)

text \<open>One iteration on a whole, expected record.\<close>

lemma scan_loop_record:
  assumes "drop pos buf = encode_record crc r @ rest" and "jr_sequence r = e"
    and "length (jr_payload r) \<le> unat MAX_PAYLOAD" and "checked_add e 1 = Some (e + 1)"
  shows "scan_loop crc buf dl acc pos e =
    scan_loop crc buf dl (acc @ [r]) (pos + length (encode_record crc r)) (e + 1)"
proof -
  note n = payload_len_word [OF assms(3)]
  have cap: "\<not> MAX_PAYLOAD < of_nat (length (jr_payload r))"
    using assms(3) by (simp add: word_less_nat_alt n)
  have "length buf - pos = 32 + length (jr_payload r) + length rest"
    using arg_cong [OF assms(1), of length] by simp
  then have len: "\<not> length buf \<le> pos" "\<not> length buf < pos + (32 + length (jr_payload r))"
    by simp_all
  have "drop (pos + 32) buf = drop 32 (encode_record crc r @ rest)"
    using assms(1) by (metis add.commute drop_drop)
  then have pay: "drop (pos + 32) buf = jr_payload r @ rest"
    by (simp add: encode_record_eq)
  have r: "\<lparr>jr_sequence = e, jr_unit_index = jr_unit_index r, jr_payload = jr_payload r\<rparr> = r"
    using assms(2) by simp
  show ?thesis
    using len assms(2,4) cap n
    by (subst scan_loop.simps)
      (simp add: assms(1) parse_header_encode RECORD_HEADER_SIZE_def Let_def pay r add.assoc)
qed

lemma scan_loop_log:
  assumes "log_ok e rs" and "drop pos buf = encode_log crc rs @ rest"
  shows "scan_loop crc buf dl acc pos e =
    scan_loop crc buf dl (acc @ rs) (pos + length (encode_log crc rs)) (e + of_nat (length rs))"
  using assms
proof (induction rs arbitrary: e pos acc)
  case (Cons r rs)
  have r: "drop pos buf = encode_record crc r @ encode_log crc rs @ rest"
    using Cons.prems(2) by simp
  have "drop (pos + length (encode_record crc r)) buf = encode_log crc rs @ rest"
    using r by (metis add.commute append_eq_conv_conj drop_drop)
  then show ?case
    using Cons.prems(1) scan_loop_record [OF r] Cons.IH
    by (simp add: algebra_simps)
qed simp

text \<open>What the scanner does at the end of the log: nothing left, zeros, or a cut record.\<close>

lemma parse_header_zero: "\<forall>b \<in> set bs. b = 0 \<Longrightarrow> parse_header crc bs = None"
proof (rule ccontr)
  assume z: "\<forall>b \<in> set bs. b = 0" and "parse_header crc bs \<noteq> None"
  then obtain h where "parse_header crc bs = Some h"
    by blast
  then obtain rest where "bs = finish_with_crc crc
    (header_payload (ph_sequence h) (ph_unit_index h) (ph_payload_len h) (ph_payload_crc h)) @ rest"
    by (rule parse_header_SomeE)
  then have "hd bs = hd RECORD_MAGIC" and "bs \<noteq> []"
    by (simp_all add: finish_with_crc_def header_payload_def RECORD_MAGIC_def)
  then show False
    using z hd_in_set [of bs] by (force simp: RECORD_MAGIC_def)
qed

lemma scan_loop_zeros:
  "\<forall>b \<in> set (drop pos buf). b = 0 \<Longrightarrow> \<not> in_durable dl pos \<Longrightarrow> scan_loop crc buf dl acc pos e = (acc, Clean)"
  by (subst scan_loop.simps) (simp add: parse_header_zero)

lemma scan_loop_torn:
  assumes "drop pos buf = take m (encode_record crc r)" and "0 < m" and "m < length (encode_record crc r)"
    and "jr_sequence r = e" and "length (jr_payload r) \<le> unat MAX_PAYLOAD" and "\<not> in_durable dl pos"
  shows "scan_loop crc buf dl acc pos e = (acc, TornTail pos)"
proof -
  note n = payload_len_word [OF assms(5)]
  have cap: "\<not> MAX_PAYLOAD < of_nat (length (jr_payload r))"
    using assms(5) by (simp add: word_less_nat_alt n)
  have len: "length buf - pos = m"
    using arg_cong [OF assms(1), of length] assms(3) by simp
  show ?thesis
  proof (cases "m < 32")
    case True
    have "take 1 (drop pos buf) = take 1 RECORD_MAGIC"
      using assms(2) by (simp add: assms(1) encode_record_eq finish_with_crc_def header_payload_def min_def)
    then have "\<exists>b \<in> set (drop pos buf). b \<noteq> 0"
      by (cases "drop pos buf") (simp_all add: RECORD_MAGIC_def)
    moreover have "parse_header crc (drop pos buf) = None"
      using True len by (simp add: parse_header_def RECORD_HEADER_SIZE_def)
    ultimately show ?thesis
      using assms(2,6) len by (subst scan_loop.simps) auto
  next
    case False
    then have "drop pos buf = finish_with_crc crc (header_payload (jr_sequence r) (jr_unit_index r)
        (of_nat (length (jr_payload r))) (crc (jr_payload r))) @ take (m - 32) (jr_payload r)"
      by (simp add: assms(1) encode_record_eq)
    then have "parse_header crc (drop pos buf) = Some \<lparr>ph_sequence = jr_sequence r,
        ph_unit_index = jr_unit_index r, ph_payload_len = of_nat (length (jr_payload r)),
        ph_payload_crc = crc (jr_payload r)\<rparr>"
      by (auto simp: parse_header_iff)
    moreover have "\<not> length buf \<le> pos" and "length buf < pos + 32 + length (jr_payload r)"
      using assms(2,3) len by simp_all
    ultimately show ?thesis
      using assms(4,6) cap n
      by (subst scan_loop.simps) (simp add: RECORD_HEADER_SIZE_def Let_def)
  qed
qed

lemma in_durable_None [simp]: "\<not> in_durable None pos"
  by (simp add: in_durable_def)

section \<open>The scanner against the encoder\<close>

text \<open>How an outcome describes the unread rest of the buffer from position \<open>at\<close> on.\<close>

definition outcome_ok :: "nat option \<Rightarrow> nat \<Rightarrow> bytes \<Rightarrow> scan_outcome \<Rightarrow> bool" where
  "outcome_ok dl at rest oc =
     (case oc of
        Clean \<Rightarrow> (\<forall>b \<in> set rest. b = 0) \<and> (rest = [] \<or> \<not> in_durable dl at)
      | TornTail a \<Rightarrow> a = at \<and> rest \<noteq> [] \<and> \<not> in_durable dl at
      | Corrupt a _ \<Rightarrow> a = at \<and> rest \<noteq> [])"

lemma drop_record:
  assumes "parse_header crc (drop pos buf) = Some h"
    and "pos + 32 + unat (ph_payload_len h) \<le> length buf"
    and "crc (take (unat (ph_payload_len h)) (drop (pos + 32) buf)) = ph_payload_crc h"
    and "length (take (unat (ph_payload_len h)) (drop (pos + 32) buf)) = unat (ph_payload_len h)"
  shows "drop pos buf = encode_record crc \<lparr>jr_sequence = ph_sequence h, jr_unit_index = ph_unit_index h,
      jr_payload = take (unat (ph_payload_len h)) (drop (pos + 32) buf)\<rparr> @
    drop (pos + 32 + unat (ph_payload_len h)) buf"
proof -
  obtain rest where d: "drop pos buf = finish_with_crc crc
    (header_payload (ph_sequence h) (ph_unit_index h) (ph_payload_len h) (ph_payload_crc h)) @ rest"
    using assms(1) by (rule parse_header_SomeE)
  have "rest = drop 32 (drop pos buf)"
    by (simp add: d)
  then have "rest = drop (pos + 32) buf"
    by (simp add: add.commute)
  then have "rest = take (unat (ph_payload_len h)) (drop (pos + 32) buf) @
      drop (pos + 32 + unat (ph_payload_len h)) buf"
    by (metis add.commute append_take_drop_id drop_drop)
  then show ?thesis
    using assms(3,4) by (simp add: d encode_record_eq)
qed

lemma scan_loop_sound:
  assumes "scan_loop crc buf dl acc pos e = (out, oc)" and "pos \<le> length buf"
  shows "\<exists>rs rest. out = acc @ rs \<and> log_ok e rs \<and> drop pos buf = encode_log crc rs @ rest \<and>
    outcome_ok dl (pos + length (encode_log crc rs)) rest oc"
  using assms
proof (induction crc buf dl acc pos e rule: scan_loop.induct)
  case (1 crc buf dl acc pos e)
  define stops where "stops oc \<longleftrightarrow> outcome_ok dl pos (drop pos buf) oc" for oc
  have halt: ?case if "out = acc" "stops oc"
    using that by (intro exI [of _ "[]"] exI [of _ "drop pos buf"]) (simp add: stops_def)
  show ?case
  proof (cases "length buf \<le> pos")
    case True
    then show ?thesis
      using 1(2) by (intro halt) (auto simp: stops_def outcome_ok_def scan_loop.simps [of crc buf])
  next
    case more: False
    then have rest_ne: "drop pos buf \<noteq> []"
      by simp
    show ?thesis
    proof (cases "parse_header crc (drop pos buf)")
      case None
      then show ?thesis
        using 1(2) more rest_ne
        by (intro halt)
          (auto simp: stops_def outcome_ok_def scan_loop.simps [of crc buf] split: if_splits)
    next
      case (Some h)
      define stop where "stop = (\<exists>r. out = acc \<and> (oc = TornTail pos \<and> \<not> in_durable dl pos \<or> oc = Corrupt pos r))"
      let ?n = "unat (ph_payload_len h)"
      let ?pay = "take ?n (drop (pos + 32) buf)"
      let ?r = "\<lparr>jr_sequence = ph_sequence h, jr_unit_index = ph_unit_index h, jr_payload = ?pay\<rparr>"
      have "stop \<or> (\<not> MAX_PAYLOAD < ph_payload_len h \<and> ph_sequence h = e \<and> pos + 32 + ?n \<le> length buf \<and>
          crc ?pay = ph_payload_crc h \<and> checked_add e 1 = Some (e + 1) \<and>
          scan_loop crc buf dl (acc @ [?r]) (pos + 32 + ?n) (e + 1) = (out, oc))"
        using 1(2) more Some
        by (subst (asm) scan_loop.simps)
          (auto simp: stop_def Let_def RECORD_HEADER_SIZE_def split: if_splits option.splits)
      then consider stop | (go) "\<not> MAX_PAYLOAD < ph_payload_len h" "ph_sequence h = e"
          "pos + 32 + ?n \<le> length buf" "crc ?pay = ph_payload_crc h" "checked_add e 1 = Some (e + 1)"
          "scan_loop crc buf dl (acc @ [?r]) (pos + 32 + ?n) (e + 1) = (out, oc)"
        by blast
      then show ?thesis
      proof cases
        case 1
        then show ?thesis
          using rest_ne by (intro halt) (auto simp: stop_def stops_def outcome_ok_def)
      next
        case go
        have "\<exists>rs rest. out = (acc @ [?r]) @ rs \<and> log_ok (e + 1) rs \<and>
            drop (pos + 32 + ?n) buf = encode_log crc rs @ rest \<and>
            outcome_ok dl (pos + 32 + ?n + length (encode_log crc rs)) rest oc"
          by (rule 1(1) [OF more Some, unfolded RECORD_HEADER_SIZE_def, OF _ _ refl _ refl])
            (use go in simp_all)
        then obtain rs rest where rs: "out = acc @ ?r # rs" "log_ok (e + 1) rs"
          "drop (pos + 32 + ?n) buf = encode_log crc rs @ rest"
          "outcome_ok dl (pos + 32 + ?n + length (encode_log crc rs)) rest oc"
          by auto
        have plen: "length ?pay = ?n"
          using go(3) by simp
        have d: "drop pos buf = encode_record crc ?r @ drop (pos + 32 + ?n) buf"
          using Some go(3,4) plen by (rule drop_record)
        have "?n \<le> unat MAX_PAYLOAD"
          using go(1) by (simp add: not_less word_le_nat_alt)
        then have "log_ok e (?r # rs)"
          using rs(2) go(2,5) plen by simp
        then show ?thesis
          using rs(1,3,4) d plen
          by (intro exI [of _ "?r # rs"] exI [of _ rest]) (simp add: algebra_simps)
      qed
    qed
  qed
qed

text \<open>A log cut at any byte, scanned from position \<open>pos\<close> on: the whole records, then the torn
  one.\<close>

lemma scan_loop_cut:
  assumes "log_ok e rs" and "drop pos buf = take m (encode_log crc rs)" and "\<not> in_durable dl pos"
  shows "\<exists>k \<le> length rs. scan_loop crc buf dl acc pos e =
      (acc @ take k rs, if length (encode_log crc (take k rs)) = min m (length (encode_log crc rs)) then Clean
        else TornTail (pos + length (encode_log crc (take k rs)))) \<and>
    length (encode_log crc (take k rs)) \<le> m \<and>
    (k < length rs \<longrightarrow> m < length (encode_log crc (take (Suc k) rs)))"
  using assms
proof (induction rs arbitrary: e pos m acc)
  case Nil
  then show ?case
    by (intro exI [of _ 0]) (simp add: scan_loop_zeros)
next
  case (Cons r rs)
  let ?n = "length (encode_record crc r)"
  have r: "jr_sequence r = e" "length (jr_payload r) \<le> unat MAX_PAYLOAD" "checked_add e 1 = Some (e + 1)"
    and rs: "log_ok (e + 1) rs"
    using Cons.prems(1) by auto
  show ?case
  proof (cases "m < ?n")
    case True
    then have d: "drop pos buf = take m (encode_record crc r)"
      using Cons.prems(2) by simp
    have "scan_loop crc buf dl acc pos e = (acc, if m = 0 then Clean else TornTail pos)"
      using scan_loop_torn [OF d _ _ r(1,2) Cons.prems(3)] True d Cons.prems(3)
      by (auto simp: scan_loop_zeros)
    then show ?thesis
      using True by (intro exI [of _ 0]) auto
  next
    case False
    then have d: "drop pos buf = encode_record crc r @ take (m - ?n) (encode_log crc rs)"
      using Cons.prems(2) by simp
    then have d': "drop (pos + ?n) buf = take (m - ?n) (encode_log crc rs)"
      by (metis add.commute append_eq_conv_conj drop_drop)
    have nd: "\<not> in_durable dl (pos + ?n)"
      using Cons.prems(3) by (auto simp: in_durable_def split: option.splits)
    obtain k where k: "k \<le> length rs" "scan_loop crc buf dl (acc @ [r]) (pos + ?n) (e + 1) =
        ((acc @ [r]) @ take k rs,
         if length (encode_log crc (take k rs)) = min (m - ?n) (length (encode_log crc rs)) then Clean
         else TornTail (pos + ?n + length (encode_log crc (take k rs))))"
      "length (encode_log crc (take k rs)) \<le> m - ?n"
      "k < length rs \<longrightarrow> m - ?n < length (encode_log crc (take (Suc k) rs))"
      using Cons.IH [OF rs d' nd] by blast
    show ?thesis
      using k False scan_loop_record [OF d r]
      by (intro exI [of _ "Suc k"]) (auto simp: min_def split: if_splits)
  qed
qed

section \<open>Properties\<close>

text \<open>C16: The scanner is exact. Whatever it returns is a log with consecutive sequence numbers
  from the expected one, whose encoding is literally the prefix of the buffer it consumed; a clean
  end leaves only zero bytes, a torn tail or corruption is reported at the first byte that is not
  part of that log, and when the durable prefix lies within the buffer neither a clean end nor a
  torn tail is ever reported before its end.\<close>

theorem scan_segment_bounded_exact:
  assumes "scan_segment_bounded crc buf first dl = (rs, oc)"
  shows "\<exists>rest. log_ok first rs \<and> buf = encode_log crc rs @ rest \<and>
    (case oc of Clean \<Rightarrow> \<forall>b \<in> set rest. b = 0
     | TornTail at \<Rightarrow> at = length (encode_log crc rs)
     | Corrupt at _ \<Rightarrow> at = length (encode_log crc rs)) \<and>
    (\<forall>d. dl = Some d \<longrightarrow> d \<le> length buf \<longrightarrow> (\<forall>at why. oc \<noteq> Corrupt at why) \<longrightarrow>
      d \<le> length (encode_log crc rs))"
proof -
  obtain rest where r: "log_ok first rs" "buf = encode_log crc rs @ rest"
    "outcome_ok dl (length (encode_log crc rs)) rest oc"
    using scan_loop_sound [OF assms [unfolded scan_segment_bounded_def]] by auto
  then show ?thesis
    by (intro exI [of _ rest])
      (auto simp: outcome_ok_def in_durable_def split: scan_outcome.splits option.splits)
qed

definition demo_crc :: "bytes \<Rightarrow> u32" where
  "demo_crc b = of_nat (sum_list (map unat b))"

lemma demo_scan:
  "scan_segment_bounded demo_crc
     (encode_log demo_crc [\<lparr>jr_sequence = 5, jr_unit_index = 7, jr_payload = [9]\<rparr>] @ [1]) 5 (Some 33) =
   ([\<lparr>jr_sequence = 5, jr_unit_index = 7, jr_payload = [9]\<rparr>], TornTail 33)"
proof -
  let ?r = "\<lparr>jr_sequence = 5, jr_unit_index = 7, jr_payload = [9]\<rparr>"
  let ?buf = "encode_log demo_crc [?r] @ [1]"
  have "drop 33 ?buf = [1]" and "length ?buf = 34"
    by simp_all
  then have "scan_loop demo_crc ?buf (Some 33) [?r] 33 6 = ([?r], TornTail 33)"
    by (subst scan_loop.simps) (simp add: parse_header_def RECORD_HEADER_SIZE_def in_durable_def)
  then show ?thesis
    using scan_loop_log [of 5 "[?r]" 0 ?buf demo_crc "[1]" "Some 33" "[]"]
    by (simp add: scan_segment_bounded_def unat_MAX_PAYLOAD checked_add_def)
qed

theorem scan_segment_bounded_exact_witness:
  "\<exists>rest. log_ok 5 [\<lparr>jr_sequence = 5, jr_unit_index = 7, jr_payload = [9]\<rparr>] \<and>
    encode_log demo_crc [\<lparr>jr_sequence = 5, jr_unit_index = 7, jr_payload = [9]\<rparr>] @ [1] =
    encode_log demo_crc [\<lparr>jr_sequence = 5, jr_unit_index = 7, jr_payload = [9]\<rparr>] @ rest \<and>
    33 \<le> length (encode_log demo_crc [\<lparr>jr_sequence = 5, jr_unit_index = 7, jr_payload = [9]\<rparr>])"
  using scan_segment_bounded_exact [OF demo_scan] by simp

text \<open>C17: No acknowledged record is lost to a crash that cuts the log. If a segment holds the
  records \<open>synced\<close>, whose bytes are the durable prefix, followed by any byte prefix of the records
  \<open>unsynced\<close> appended after the last sync, then the scanner reports no corruption and returns
  all of \<open>synced\<close> and exactly those further records that are whole.\<close>

theorem scan_segment_bounded_cut:
  assumes "log_ok first (synced @ unsynced)"
    and "buf = encode_log crc synced @ take m (encode_log crc unsynced)"
    and "d \<le> length (encode_log crc synced)"
  shows "\<exists>k \<le> length unsynced. \<exists>oc. scan_segment_bounded crc buf first (Some d) = (synced @ take k unsynced, oc) \<and>
    (\<forall>at why. oc \<noteq> Corrupt at why) \<and> length (encode_log crc (take k unsynced)) \<le> m \<and>
    (k < length unsynced \<longrightarrow> m < length (encode_log crc (take (Suc k) unsynced)))"
proof -
  let ?n = "length (encode_log crc synced)"
  have ok: "log_ok first synced" "log_ok (first + of_nat (length synced)) unsynced"
    using assms(1) by (simp_all add: log_ok_append)
  have all: "scan_segment_bounded crc buf first (Some d) =
      scan_loop crc buf (Some d) synced ?n (first + of_nat (length synced))"
    using scan_loop_log [OF ok(1), of 0 buf crc "take m (encode_log crc unsynced)" "Some d" "[]"] assms(2)
    by (simp add: scan_segment_bounded_def)
  have "drop ?n buf = take m (encode_log crc unsynced)" and "\<not> in_durable (Some d) ?n"
    using assms(2,3) by (simp_all add: in_durable_def)
  from scan_loop_cut [OF ok(2) this, of synced] show ?thesis
    unfolding all by (auto split: if_splits)
qed

theorem scan_segment_bounded_cut_witness:
  "\<exists>k \<le> 1. \<exists>oc. scan_segment_bounded demo_crc
      (encode_log demo_crc [\<lparr>jr_sequence = 5, jr_unit_index = 7, jr_payload = [9]\<rparr>] @
       take 20 (encode_log demo_crc [\<lparr>jr_sequence = 6, jr_unit_index = 8, jr_payload = []\<rparr>]))
      5 (Some 33) =
     ([\<lparr>jr_sequence = 5, jr_unit_index = 7, jr_payload = [9]\<rparr>] @
      take k [\<lparr>jr_sequence = 6, jr_unit_index = 8, jr_payload = []\<rparr>], oc) \<and>
    (\<forall>at why. oc \<noteq> Corrupt at why)"
  using scan_segment_bounded_cut [of 5 "[\<lparr>jr_sequence = 5, jr_unit_index = 7, jr_payload = [9]\<rparr>]"
      "[\<lparr>jr_sequence = 6, jr_unit_index = 8, jr_payload = []\<rparr>]" _ demo_crc 20 33]
  by (auto simp: unat_MAX_PAYLOAD checked_add_def)

end
