(* ===== verification/Footprint.thy ===== *)
theory Footprint
  imports Journal_Format
begin

text \<open>
  The append projection of \<open>crates/maki-format/src/journal.rs\<close>: \<open>checked_append_footprint\<close>, which
  computes in constant time per group how many bytes a batch of records adds to the journal, and
  the limits derived from it. The reference it is proved equal to appends the records one by one
  with the roll decision of \<open>JournalWriter::prepare_append\<close>.
\<close>

definition MAX_JOURNAL_SEGMENT_SIZE :: u64 where "MAX_JOURNAL_SEGMENT_SIZE = push_bit 30 1"

definition max_record_len :: "u32 \<Rightarrow> u64" where
  "max_record_len max_payload_size = of_nat RECORD_HEADER_SIZE + ucast max_payload_size"

definition footprint_group ::
  "u64 \<Rightarrow> (u64 \<times> u64) option \<Rightarrow> u64 \<Rightarrow> u64 \<Rightarrow> u64 \<Rightarrow> ((u64 \<times> u64) option \<times> u64) option" where
  "footprint_group segment_size projected added record_len count =
     (let header = of_nat SEGMENT_HEADER_SIZE;
          fitting = min (case projected of
              None \<Rightarrow> 0
            | Some (offset, records) \<Rightarrow>
                let fit = saturating_sub segment_size offset div record_len
                in if records = 0 then max fit 1 else fit) count
      in
      Option.bind
        (if 0 < fitting then
           Option.bind projected (\<lambda>(offset, records).
           Option.bind (checked_mul record_len fitting) (\<lambda>bytes.
           Option.bind (checked_add added bytes) (\<lambda>added.
           Option.bind (checked_add offset bytes) (\<lambda>offset.
           Option.bind (checked_add records fitting) (\<lambda>records.
           Some (Some (offset, records), added))))))
         else Some (projected, added))
        (\<lambda>(projected, added).
      let remaining = count - fitting in
      if 0 < remaining then
        let per_segment = max (saturating_sub segment_size header div record_len) 1;
            segments = div_ceil remaining per_segment
        in
        Option.bind (checked_mul record_len remaining) (\<lambda>body.
        Option.bind (checked_add added body) (\<lambda>added.
        Option.bind (checked_mul header segments) (\<lambda>headers.
        Option.bind (checked_add added headers) (\<lambda>added.
        let last_count = (remaining - 1) mod per_segment + 1 in
        Option.bind (checked_mul record_len last_count) (\<lambda>tail_len.
        Option.bind (checked_add header tail_len) (\<lambda>offset.
        Some (Some (offset, last_count), added)))))))
      else Some (projected, added)))"

fun footprint_loop ::
  "u64 \<Rightarrow> (u64 \<times> u64) option \<Rightarrow> u64 \<Rightarrow> (u64 \<times> u64) list \<Rightarrow> u64 option" where
  "footprint_loop segment_size projected added [] = Some added"
| "footprint_loop segment_size projected added ((record_len, count) # groups) =
     (if count = 0 then footprint_loop segment_size projected added groups
      else if record_len = 0 then None
      else Option.bind (footprint_group segment_size projected added record_len count)
        (\<lambda>(projected, added). footprint_loop segment_size projected added groups))"

definition checked_append_footprint ::
  "u64 \<Rightarrow> (u64 \<times> u64) option \<Rightarrow> (u64 \<times> u64) list \<Rightarrow> u64 option" where
  "checked_append_footprint segment_size active record_groups =
     footprint_loop segment_size active 0 record_groups"

definition minimum_journal_limit :: "u64 \<Rightarrow> u64 \<Rightarrow> u64 \<Rightarrow> u64 option" where
  "minimum_journal_limit segment_size max_record_length records_per_request =
     Option.bind (checked_add (of_nat SEGMENT_HEADER_SIZE) max_record_length) (\<lambda>one.
     let retained = max segment_size one in
     Option.bind (checked_append_footprint segment_size (Some (retained, 1))
       [(max_record_length, records_per_request)]) (\<lambda>append.
     Option.bind (checked_mul segment_size 2) (\<lambda>two.
     Option.bind (checked_mul max_record_length records_per_request) (\<lambda>body.
     Option.bind (checked_add two body) (\<lambda>legacy_floor.
     Option.bind (checked_add retained append) (\<lambda>needed.
     Some (max legacy_floor needed)))))))"

definition max_segment_file_size :: "u64 \<Rightarrow> u64" where
  "max_segment_file_size segment_size =
     saturating_add (saturating_mul segment_size 4)
       (of_nat SEGMENT_HEADER_SIZE + of_nat RECORD_HEADER_SIZE + ucast MAX_PAYLOAD)"

definition max_journal_segment_file_size :: u64 where
  "max_journal_segment_file_size = max_segment_file_size MAX_JOURNAL_SEGMENT_SIZE"

section \<open>The reference: appending one record at a time\<close>

text \<open>The active segment is its write offset and record count. A record goes into the active
  segment when that is empty or the record fits; otherwise a new segment with its header is
  opened. The second component is the number of bytes added to the journal.\<close>

fun append_one :: "nat \<Rightarrow> (nat \<times> nat) option \<Rightarrow> nat \<Rightarrow> (nat \<times> nat) option \<times> nat" where
  "append_one seg None len = (Some (48 + len, 1), 48 + len)"
| "append_one seg (Some (off, n)) len =
     (if n = 0 \<or> off + len \<le> seg then (Some (off + len, n + 1), len)
      else (Some (48 + len, 1), 48 + len))"

fun append_all :: "nat \<Rightarrow> (nat \<times> nat) option \<Rightarrow> nat list \<Rightarrow> (nat \<times> nat) option \<times> nat" where
  "append_all seg act [] = (act, 0)"
| "append_all seg act (len # lens) =
     (let (act', a) = append_one seg act len; (act'', b) = append_all seg act' lens in (act'', a + b))"

lemma append_all_append:
  "append_all seg act (xs @ ys) =
     (let (act', a) = append_all seg act xs; (act'', b) = append_all seg act' ys in (act'', a + b))"
  by (induction xs arbitrary: act) (auto simp: Let_def split: prod.splits)

text \<open>Filling a segment: as many records as the projection says.\<close>

definition fits :: "nat \<Rightarrow> nat \<times> nat \<Rightarrow> nat \<Rightarrow> nat" where
  "fits seg act len =
     (let fit = (seg - fst act) div len in if snd act = 0 then max fit 1 else fit)"

lemma append_fill:
  assumes "0 < len" and "k \<le> fits seg (off, n) len"
  shows "append_all seg (Some (off, n)) (replicate k len) = (Some (off + k * len, n + k), k * len)"
  using assms(2)
proof (induction k arbitrary: off n)
  case (Suc k)
  have "n = 0 \<or> off + len \<le> seg"
  proof (rule disjCI)
    assume "\<not> off + len \<le> seg"
    then have "(seg - off) div len = 0"
      using assms(1) by (intro div_less) arith
    then show "n = 0"
      using Suc.prems by (auto simp: fits_def split: if_splits)
  qed
  moreover have "append_all seg (Some (off + len, n + 1)) (replicate k len) =
      (Some (off + len + k * len, n + 1 + k), k * len)"
  proof (rule Suc.IH)
    have "(seg - (off + len)) div len = (seg - off - len) div len"
      by simp
    also have "\<dots> = (seg - off) div len - 1"
      using assms(1) by (cases "seg - off < len") (simp_all add: le_div_geq)
    finally have step: "(seg - (off + len)) div len = (seg - off) div len - 1" .
    show "k \<le> fits seg (off + len, n + 1) len"
      using Suc.prems by (auto simp: fits_def Let_def step max_def split: if_splits)
  qed
  ultimately show ?case
    by (auto simp: algebra_simps)
qed simp

text \<open>A segment that takes no further record of this length: the next one rolls.\<close>

definition full :: "nat \<Rightarrow> (nat \<times> nat) option \<Rightarrow> nat \<Rightarrow> bool" where
  "full seg act len = (case act of None \<Rightarrow> True | Some (off, n) \<Rightarrow> n \<noteq> 0 \<and> seg < off + len)"

lemma fill_full:
  assumes "0 < len" and "k = fits seg (off, n) len"
  shows "full seg (Some (off + k * len, n + k)) len"
proof -
  have nk: "n + k \<noteq> 0"
    using assms(2) by (auto simp: fits_def max_def Let_def split: if_splits)
  have "seg - off < Suc ((seg - off) div len) * len"
    using assms(1) by (metis dividend_less_div_times add.commute mult_Suc)
  moreover have "(seg - off) div len \<le> k"
    using assms(2) by (simp add: fits_def Let_def)
  then have "(seg - off) div len * len \<le> k * len"
    by (rule mult_le_mono1)
  ultimately have "seg - off < len + k * len"
    by (simp only: mult_Suc)
  then show ?thesis
    using assms(1) nk by (auto simp: full_def)
qed

lemma append_roll:
  assumes "full seg act len" and "0 < r"
  shows "append_all seg act (replicate r len) =
    (let (act', a) = append_all seg (Some (48, 0)) (replicate r len) in (act', 48 + a))"
proof -
  obtain k where "r = Suc k"
    using assms(2) by (cases r) auto
  then show ?thesis
    using assms(1) by (cases act) (auto simp: full_def Let_def split: prod.splits)
qed

lemma fits_fresh: "fits seg (48, 0) len = max ((seg - 48) div len) 1"
  by (simp add: fits_def Let_def)

lemma append_many:
  assumes "0 < len" and "full seg act len" and "0 < r" and "per = max ((seg - 48) div len) 1"
  shows "append_all seg act (replicate r len) =
    (Some (48 + ((r - 1) mod per + 1) * len, (r - 1) mod per + 1), r * len + 48 * ((r + per - 1) div per))"
  using assms(2,3)
proof (induction r arbitrary: act rule: less_induct)
  case (less r)
  have per: "0 < per" and fresh: "fits seg (48, 0) len = per"
    using assms(4) by (simp_all add: fits_fresh)
  note roll = append_roll [OF less.prems]
  show ?case
  proof (cases "r \<le> per")
    case True
    have "(r + per - 1) div per = 1"
      using True less.prems(2) per by (intro div_nat_eqI) simp_all
    moreover have "(r - 1) mod per + 1 = r"
      using True less.prems(2) by simp
    moreover have "append_all seg (Some (48, 0)) (replicate r len) = (Some (48 + r * len, 0 + r), r * len)"
      by (rule append_fill) (use assms(1) True fresh in simp_all)
    ultimately show ?thesis
      by (simp add: roll)
  next
    case False
    let ?q = "r - per"
    have split: "replicate r len = replicate per len @ replicate ?q len"
      using False by (simp flip: replicate_add)
    have one: "append_all seg (Some (48, 0)) (replicate per len) = (Some (48 + per * len, 0 + per), per * len)"
      by (rule append_fill) (use assms(1) fresh in simp_all)
    have "full seg (Some (48 + per * len, 0 + per)) len"
      by (rule fill_full) (use assms(1) fresh in simp_all)
    then have rest: "append_all seg (Some (48 + per * len, 0 + per)) (replicate ?q len) =
        (Some (48 + ((?q - 1) mod per + 1) * len, (?q - 1) mod per + 1),
         ?q * len + 48 * ((?q + per - 1) div per))"
      using False per by (intro less.IH) simp_all
    have "r - 1 = (?q - 1) + per"
      using False by simp
    then have "(r - 1) mod per = (?q - 1) mod per"
      by (simp only: mod_add_self2)
    moreover have "(r + per - 1) div per = (?q + per - 1) div per + 1"
    proof -
      have "r + per - 1 = (?q + per - 1) + per"
        using False by simp
      then show ?thesis
        using per by (simp only: div_add_self2)
    qed
    moreover have "r * len = per * len + ?q * len"
      using False by (simp flip: add_mult_distrib)
    moreover have "append_all seg (Some (48, 0)) (replicate r len) =
        (Some (48 + ((?q - 1) mod per + 1) * len, (?q - 1) mod per + 1),
         per * len + (?q * len + 48 * ((?q + per - 1) div per)))"
      unfolding split append_all_append one by (simp only: rest Let_def prod.case)
    ultimately show ?thesis
      by (simp add: roll)
  qed
qed

section \<open>The projection computes the reference\<close>

definition unat_act :: "(u64 \<times> u64) option \<Rightarrow> (nat \<times> nat) option" where
  "unat_act = map_option (map_prod unat unat)"

lemma unat_act_simps [simp]:
  "unat_act None = None" "unat_act (Some (a, b)) = Some (unat a, unat b)"
  by (simp_all add: unat_act_def)

lemma unat_max_min [simp]:
  "unat (max a b) = max (unat a) (unat (b :: 'a::len word))"
  "unat (min a b) = min (unat a) (unat (b :: 'a::len word))"
  by (simp_all add: max_def min_def word_le_nat_alt)

text \<open>The number of records of one group that go into the active segment.\<close>

definition group_fitting :: "u64 \<Rightarrow> (u64 \<times> u64) option \<Rightarrow> u64 \<Rightarrow> u64 \<Rightarrow> u64" where
  "group_fitting seg act len count = min (case act of
      None \<Rightarrow> 0
    | Some (offset, records) \<Rightarrow>
        let fit = saturating_sub seg offset div len in if records = 0 then max fit 1 else fit) count"

lemma unat_group_fitting:
  "unat (group_fitting seg act len count) =
     min (case unat_act act of None \<Rightarrow> 0 | Some a \<Rightarrow> fits (unat seg) a (unat len)) (unat count)"
  by (auto simp: group_fitting_def fits_def Let_def word_arith unat_eq_0 split: option.splits)

lemma footprint_group_fill:
  assumes "0 < unat len" and "fitting = group_fitting seg act len count"
    and "(if 0 < fitting then
        Option.bind act (\<lambda>(offset, records).
        Option.bind (checked_mul len fitting) (\<lambda>bytes.
        Option.bind (checked_add added bytes) (\<lambda>added.
        Option.bind (checked_add offset bytes) (\<lambda>offset.
        Option.bind (checked_add records fitting) (\<lambda>records.
        Some (Some (offset, records), added))))))
      else Some (act, added)) = Some (act1, added1)"
  shows "append_all (unat seg) (unat_act act) (replicate (unat fitting) (unat len)) =
      (unat_act act1, unat fitting * unat len)"
    and "unat added1 = unat added + unat fitting * unat len"
    and "unat fitting < unat count \<Longrightarrow> full (unat seg) (unat_act act1) (unat len)"
proof -
  let ?S = "unat seg" and ?L = "unat len" and ?F = "unat fitting"
  have F: "?F = min (case unat_act act of None \<Rightarrow> 0 | Some a \<Rightarrow> fits ?S a ?L) (unat count)"
    using assms(2) unat_group_fitting by simp
  have "append_all ?S (unat_act act) (replicate ?F ?L) = (unat_act act1, ?F * ?L) \<and>
      unat added1 = unat added + ?F * ?L \<and> (?F < unat count \<longrightarrow> full ?S (unat_act act1) ?L)"
  proof (cases act)
    case None
    then have "fitting = 0"
      using F by (simp add: unat_eq_0)
    then show ?thesis
      using assms(3) None by (auto simp: full_def)
  next
    case (Some p)
    obtain off n where act: "act = Some (off, n)"
      using Some by (cases p) auto
    have le: "?F \<le> fits ?S (unat off, unat n) ?L"
      using F act by simp
    have fl: "?F < unat count \<Longrightarrow> full ?S (Some (unat off + ?F * ?L, unat n + ?F)) ?L"
      using F act by (intro fill_full [OF assms(1)]) (auto simp: min_def split: if_splits)
    have fill: "append_all ?S (Some (unat off, unat n)) (replicate ?F ?L) =
        (Some (unat off + ?F * ?L, unat n + ?F), ?F * ?L)"
      by (rule append_fill [OF assms(1) le])
    show ?thesis
    proof (cases "fitting = 0")
      case True
      then show ?thesis
        using assms(3) fl act by auto
    next
      case False
      then have "act1 = Some (off + len * fitting, n + fitting)"
        "unat added1 = unat added + ?L * ?F"
        "unat (off + len * fitting) = unat off + ?L * ?F" "unat (n + fitting) = unat n + ?F"
        using assms(3) act word_neq_0_conv [of fitting]
        by (auto simp: bind_eq_Some_conv dest!: checked_add_SomeD checked_mul_SomeD)
      then show ?thesis
        using fill fl act by (simp add: mult.commute)
    qed
  qed
  then show "append_all ?S (unat_act act) (replicate ?F ?L) = (unat_act act1, ?F * ?L)"
    "unat added1 = unat added + ?F * ?L" "?F < unat count \<Longrightarrow> full ?S (unat_act act1) ?L"
    by blast+
qed

lemma footprint_group_exact:
  assumes "footprint_group seg act added len count = Some (act', added')" and "0 < unat len"
  shows "append_all (unat seg) (unat_act act) (replicate (unat count) (unat len)) =
      (unat_act act', unat added' - unat added) \<and> unat added \<le> unat added'"
proof -
  let ?S = "unat seg" and ?L = "unat len"
  define fitting where "fitting = group_fitting seg act len count"
  define remaining where "remaining = count - fitting"
  define per where "per = max (saturating_sub seg 48 div len) 1"
  define last_count where "last_count = (remaining - 1) mod per + 1"
  obtain act1 added1 where first: "(if 0 < fitting then
        Option.bind act (\<lambda>(offset, records).
        Option.bind (checked_mul len fitting) (\<lambda>bytes.
        Option.bind (checked_add added bytes) (\<lambda>added.
        Option.bind (checked_add offset bytes) (\<lambda>offset.
        Option.bind (checked_add records fitting) (\<lambda>records.
        Some (Some (offset, records), added))))))
      else Some (act, added)) = Some (act1, added1)"
    and second: "(if 0 < remaining then
        Option.bind (checked_mul len remaining) (\<lambda>body.
        Option.bind (checked_add added1 body) (\<lambda>added.
        Option.bind (checked_mul 48 (div_ceil remaining per)) (\<lambda>headers.
        Option.bind (checked_add added headers) (\<lambda>added.
        Option.bind (checked_mul len last_count) (\<lambda>tail_len.
        Option.bind (checked_add 48 tail_len) (\<lambda>offset.
        Some (Some (offset, last_count), added)))))))
      else Some (act1, added1)) = Some (act', added')"
    using assms(1)
    unfolding footprint_group_def group_fitting_def [symmetric] fitting_def [symmetric]
    by (auto simp: bind_eq_Some_conv Let_def SEGMENT_HEADER_SIZE_def remaining_def per_def last_count_def
        split: if_splits)
  note fill = footprint_group_fill [OF assms(2) fitting_def first]
  have le: "fitting \<le> count"
    by (simp add: fitting_def group_fitting_def)
  then have rem: "unat remaining = unat count - unat fitting" and split:
    "replicate (unat count) ?L = replicate (unat fitting) ?L @ replicate (unat remaining) ?L"
    by (simp_all add: remaining_def unat_sub word_le_nat_alt flip: replicate_add)
  show ?thesis
  proof (cases "remaining = 0")
    case True
    then show ?thesis
      using second fill(1,2) unfolding split append_all_append by auto
  next
    case False
    then have r: "0 < unat remaining"
      by (simp add: unat_gt_0)
    then have "full ?S (unat_act act1) ?L"
      using fill(3) rem by simp
    moreover have per: "unat per = max ((?S - 48) div ?L) 1"
      by (simp add: per_def word_arith)
    ultimately have many: "append_all ?S (unat_act act1) (replicate (unat remaining) ?L) =
        (Some (48 + ((unat remaining - 1) mod unat per + 1) * ?L, (unat remaining - 1) mod unat per + 1),
         unat remaining * ?L + 48 * ((unat remaining + unat per - 1) div unat per))"
      using r by (intro append_many [OF assms(2)])
    have segs: "unat (div_ceil remaining per) = (unat remaining + unat per - 1) div unat per"
      using per by (intro unat_div_ceil) simp
    have "unat (remaining - 1) = unat remaining - 1"
      using False by (simp add: unat_minus_one)
    moreover have "(unat remaining - 1) mod unat per + 1 \<le> unat remaining"
      using r mod_less_eq_dividend [of "unat remaining - 1" "unat per"] by linarith
    then have "(unat remaining - 1) mod unat per + 1 < 2 ^ 64"
      using unat_lt2p [of remaining] by simp
    ultimately have lc: "unat last_count = (unat remaining - 1) mod unat per + 1"
      by (simp add: last_count_def unat_word_ariths unat_mod_word)
    obtain off where "act' = Some (off, last_count)" "unat off = 48 + ?L * unat last_count"
      "unat added' = unat added1 + ?L * unat remaining + 48 * unat (div_ceil remaining per)"
      using second False word_neq_0_conv [of remaining]
      by (auto simp: bind_eq_Some_conv dest!: checked_add_SomeD checked_mul_SomeD)
    then have "append_all ?S (unat_act act1) (replicate (unat remaining) ?L) =
        (unat_act act', unat added' - unat added1) \<and> unat added1 \<le> unat added'"
      using many lc segs by (simp add: mult.commute)
    then show ?thesis
      using fill(1,2) unfolding split append_all_append by (auto simp: mult.commute)
  qed
qed

definition group_lens :: "(u64 \<times> u64) list \<Rightarrow> nat list" where
  "group_lens groups = concat (map (\<lambda>(len, count). replicate (unat count) (unat len)) groups)"

lemma footprint_loop_exact:
  "footprint_loop seg act added groups = Some tot \<Longrightarrow>
   unat tot = unat added + snd (append_all (unat seg) (unat_act act) (group_lens groups))"
proof (induction seg act added groups rule: footprint_loop.induct)
  case (2 seg act added len count groups)
  show ?case
  proof (cases "count = 0")
    case True
    then show ?thesis
      using 2 by (simp add: group_lens_def)
  next
    case False
    then obtain act' added' where g: "footprint_group seg act added len count = Some (act', added')"
      and len: "len \<noteq> 0" and rest: "footprint_loop seg act' added' groups = Some tot"
      using 2(3) by (auto simp: bind_eq_Some_conv split: if_splits)
    have "0 < unat len"
      using len by (simp add: unat_gt_0)
    note ex = footprint_group_exact [OF g this]
    have "unat tot = unat added' + snd (append_all (unat seg) (unat_act act') (group_lens groups))"
      using 2(2) [OF False len g refl rest] by simp
    then show ?thesis
      using ex by (auto simp: group_lens_def append_all_append Let_def split: prod.splits)
  qed
qed (simp add: group_lens_def)

section \<open>Requests of smaller records\<close>

lemma div_ceil_mono: "a \<le> b \<Longrightarrow> (a + p - 1) div p \<le> (b + p - 1) div (p :: nat)"
  by (rule div_le_mono) simp

lemma div_ceil_step:
  assumes "0 < p" and "0 < (n :: nat)"
  shows "Suc ((n - p + p - 1) div p) \<le> (n + p - 1) div p"
proof (cases "p \<le> n")
  case True
  then have "n + p - 1 = (n - p + p - 1) + p"
    using assms by simp
  then show ?thesis
    using assms by (simp only: div_add_self2)
next
  case False
  then have "(n - p + p - 1) div p = 0" and "(p + 0) div p \<le> (n + p - 1) div p"
    using assms by (simp, intro div_le_mono) simp
  then show ?thesis
    using assms by simp
qed

text \<open>Records no longer than \<open>mx\<close> never need more segments than as many records of length
  \<open>mx\<close>.\<close>

lemma append_all_le:
  assumes "0 < mx" and "per = max ((seg - 48) div mx) 1" and "\<forall>l \<in> set lens. l \<le> mx"
  shows "snd (append_all seg (Some (off, n)) lens) \<le>
    sum_list lens + 48 * ((length lens - fits seg (off, n) mx + per - 1) div per)"
  using assms(3)
proof (induction lens arbitrary: off n)
  case (Cons l ls)
  have l: "l \<le> mx"
    using Cons.prems by simp
  have sub: "(seg - off) div mx - 1 \<le> (seg - (off + l)) div mx" for off
  proof -
    have "(seg - off) div mx - 1 = (seg - off - mx) div mx"
      using assms(1) by (cases "seg - off < mx") (simp_all add: le_div_geq)
    also have "\<dots> \<le> (seg - (off + l)) div mx"
      using l by (intro div_le_mono) simp
    finally show ?thesis .
  qed
  have IH: "snd (append_all seg (Some (off', n')) ls) \<le>
      sum_list ls + 48 * ((length ls - fits seg (off', n') mx + per - 1) div per)" for off' n'
    using Cons by simp
  show ?case
  proof (cases "n = 0 \<or> off + l \<le> seg")
    case True
    have "fits seg (off, n) mx - 1 \<le> fits seg (off + l, n + 1) mx"
      using sub [of off] by (auto simp: fits_def Let_def max_def)
    then have "(length ls - fits seg (off + l, n + 1) mx + per - 1) div per \<le>
        (length (l # ls) - fits seg (off, n) mx + per - 1) div per"
      by (intro div_ceil_mono) simp
    with IH [of "off + l" "n + 1"] show ?thesis
      using True by (auto simp: Let_def split: prod.splits)
  next
    case False
    then have "(seg - off) div mx = 0"
      using l assms(1) by (intro div_less) arith
    then have zero: "fits seg (off, n) mx = 0"
      using False by (simp add: fits_def Let_def)
    have "per - 1 \<le> fits seg (48 + l, 1) mx"
      using sub [of 48] assms(2) by (auto simp: fits_def Let_def max_def)
    then have "(length ls - fits seg (48 + l, 1) mx + per - 1) div per \<le>
        (length (l # ls) - per + per - 1) div per"
      by (intro div_ceil_mono) simp
    also have "Suc \<dots> \<le> (length (l # ls) + per - 1) div per"
      using assms(2) by (intro div_ceil_step) simp_all
    finally have "Suc ((length ls - fits seg (48 + l, 1) mx + per - 1) div per) \<le>
        (length (l # ls) + per - 1) div per"
      by simp
    with IH [of "48 + l" 1] show ?thesis
      using False by (auto simp: Let_def zero split: prod.splits)
  qed
qed simp

section \<open>Properties\<close>

text \<open>C18: The constant-time append projection is exact. Whenever \<open>checked_append_footprint\<close>
  answers, its answer is the number of bytes that appending the records one at a time adds to the
  journal, segment headers of every roll included.\<close>

theorem checked_append_footprint_exact:
  assumes "checked_append_footprint segment_size active groups = Some tot"
  shows "unat tot = snd (append_all (unat segment_size) (unat_act active) (group_lens groups))"
  using footprint_loop_exact [OF assms [unfolded checked_append_footprint_def]] by simp

theorem checked_append_footprint_exact_witness:
  "unat (248 :: u64) = snd (append_all 150 (unat_act (Some (100, 1))) (group_lens [(40, 2), (72, 1)]))"
  using checked_append_footprint_exact [of 150 "Some (100, 1)" "[(40, 2), (72, 1)]" 248]
  by (simp add: checked_append_footprint_def footprint_group_def saturating_sub_def div_ceil_def
      checked_add_def checked_mul_def SEGMENT_HEADER_SIZE_def Let_def)

text \<open>C19: The configured minimum lets every request make progress. If the journal holds only the
  active segment, of at most the retained length, then any request of at most the given number of
  records, each at most the given length and of whatever mixture of sizes, stays within the limit
  that \<open>minimum_journal_limit\<close> computes.\<close>

theorem minimum_journal_limit_sufficient:
  assumes "minimum_journal_limit segment_size mx n = Some limit" and "0 < mx"
    and "off \<le> max (unat segment_size) (48 + unat mx)"
    and "length lens \<le> unat n" and "\<forall>l \<in> set lens. l \<le> unat mx"
  shows "off + snd (append_all (unat segment_size) (Some (off, k)) lens) \<le> unat limit"
proof -
  let ?S = "unat segment_size" and ?M = "unat mx" and ?N = "unat n"
  define per where "per = max ((?S - 48) div ?M) 1"
  define retained where "retained = max segment_size (48 + mx)"
  have M: "0 < ?M"
    using assms(2) by (simp add: word_less_nat_alt)
  obtain append where ap: "checked_append_footprint segment_size (Some (retained, 1)) [(mx, n)] = Some append"
    and one: "unat (48 + mx) = 48 + ?M" and lim: "unat retained + unat append \<le> unat limit"
    using assms(1)
    by (auto simp: minimum_journal_limit_def bind_eq_Some_conv Let_def SEGMENT_HEADER_SIZE_def
        retained_def dest!: checked_add_SomeD)
  have ret: "unat retained = max ?S (48 + ?M)"
    by (simp add: retained_def one)
  have app: "unat append = snd (append_all ?S (Some (unat retained, 1)) (replicate ?N ?M))"
    using footprint_loop_exact [OF ap [unfolded checked_append_footprint_def]]
    by (simp add: group_lens_def)
  have "full ?S (Some (unat retained, 1)) ?M"
    using M by (simp add: full_def ret)
  then have "?N * ?M + 48 * ((?N + per - 1) div per) \<le> unat append"
    using append_many [OF M _ _ per_def] app per_def by (cases "?N = 0") auto
  moreover have "snd (append_all ?S (Some (off, k)) lens) \<le>
      sum_list lens + 48 * ((length lens - fits ?S (off, k) ?M + per - 1) div per)"
    by (rule append_all_le [OF M per_def assms(5)])
  moreover have "(length lens - fits ?S (off, k) ?M + per - 1) div per \<le> (?N + per - 1) div per"
    using assms(4) by (intro div_ceil_mono) simp
  moreover have "sum_list lens \<le> length lens * ?M"
    using assms(5) by (induction lens) auto
  moreover have "length lens * ?M \<le> ?N * ?M"
    using assms(4) by (rule mult_le_mono1)
  ultimately show ?thesis
    using lim assms(3) ret by linarith
qed

theorem minimum_journal_limit_sufficient_witness:
  "70 + snd (append_all 100 (Some (70, 1)) [30, 40, 10]) \<le> unat (364 :: u64)"
  using minimum_journal_limit_sufficient [of 100 40 3 364 70 "[30, 40, 10]" 1]
  by (simp add: minimum_journal_limit_def checked_append_footprint_def footprint_group_def
      saturating_sub_def div_ceil_def checked_add_def checked_mul_def SEGMENT_HEADER_SIZE_def Let_def)

end
