(* ===== verification/Backing.thy ===== *)
theory Backing
  imports Path
begin

text \<open>
  The storage interface of \<open>crates/maki-backing/src/lib.rs\<close>. The traits \<open>Backing\<close> and
  \<open>BackingFile\<close> are a dictionary of operations on a state \<open>'s\<close> with file handles \<open>'h\<close>; every
  operation returns a result and the new state, also when it fails. The locale \<open>ab_medium\<close> is the
  contract the A/B metadata protocol relies on: which operations leave which files alone, and when
  the content of a file can no longer be changed by a crash.
\<close>

section \<open>Fallible stateful operations\<close>

type_synonym ('s, 'e, 'a) io = "'s \<Rightarrow> ('e + 'a) \<times> 's"

definition io_return :: "'a \<Rightarrow> ('s, 'e, 'a) io" where
  "io_return x s = (Inr x, s)"

definition io_fail :: "'e \<Rightarrow> ('s, 'e, 'a) io" where
  "io_fail e s = (Inl e, s)"

definition io_bind :: "('s, 'e, 'a) io \<Rightarrow> ('a \<Rightarrow> ('s, 'e, 'b) io) \<Rightarrow> ('s, 'e, 'b) io" where
  "io_bind m f s = (case m s of (Inl e, s') \<Rightarrow> (Inl e, s') | (Inr x, s') \<Rightarrow> f x s')"

text \<open>A Rust \<open>match\<close> on the result of an operation.\<close>

definition io_match ::
  "('s, 'e, 'a) io \<Rightarrow> ('e \<Rightarrow> ('s, 'f, 'b) io) \<Rightarrow> ('a \<Rightarrow> ('s, 'f, 'b) io) \<Rightarrow> ('s, 'f, 'b) io" where
  "io_match m h f s = (case m s of (Inl e, s') \<Rightarrow> h e s' | (Inr x, s') \<Rightarrow> f x s')"

text \<open>A pure fallible step inside a sequence of operations.\<close>

definition io_pure :: "'e + 'a \<Rightarrow> ('s, 'e, 'a) io" where
  "io_pure r s = (r, s)"

text \<open>The \<open>?\<close> operator on an I/O result inside a function that returns \<open>FormatError\<close>.\<close>

definition io_fmt :: "('s, io_error, 'a) io \<Rightarrow> ('s, format_error, 'a) io" where
  "io_fmt m s = (case m s of (r, s') \<Rightarrow> (map_sum FormatIo id r, s'))"

lemma io_simps [simp]:
  "io_return x s = (Inr x, s)" "io_fail e s = (Inl e, s)" "io_pure r s = (r, s)"
  by (simp_all add: io_return_def io_fail_def io_pure_def)

lemma io_bindE:
  assumes "io_bind m f s = (r, s'')"
  obtains (err) e where "m s = (Inl e, s'')" and "r = Inl e"
  | (ok) x s' where "m s = (Inr x, s')" and "f x s' = (r, s'')"
  using assms by (auto simp: io_bind_def split: prod.splits sum.splits)

lemma io_bind_InrE:
  assumes "io_bind m f s = (Inr y, s'')"
  obtains x s' where "m s = (Inr x, s')" and "f x s' = (Inr y, s'')"
  using assms by (rule io_bindE) auto

lemma io_matchE:
  assumes "io_match m h f s = (r, s'')"
  obtains (err) e s' where "m s = (Inl e, s')" and "h e s' = (r, s'')"
  | (ok) x s' where "m s = (Inr x, s')" and "f x s' = (r, s'')"
  using assms by (auto simp: io_match_def split: prod.splits sum.splits)

lemma io_fmtE:
  assumes "io_fmt m s = (r, s')"
  obtains q where "m s = (q, s')" and "r = map_sum FormatIo id q"
  using assms by (auto simp: io_fmt_def split: prod.splits)

lemma io_fmt_Inr [simp]: "io_fmt m s = (Inr x, s') \<longleftrightarrow> m s = (Inr x, s')"
  by (auto simp: io_fmt_def map_sum_def split: prod.splits sum.splits)

section \<open>The traits\<close>

record ('s, 'h) backing =
  b_open :: "string \<Rightarrow> bool \<Rightarrow> ('s, io_error, 'h) io"
  b_exists :: "string \<Rightarrow> ('s, io_error, bool) io"
  b_remove :: "string \<Rightarrow> ('s, io_error, unit) io"
  b_rename :: "string \<Rightarrow> string \<Rightarrow> ('s, io_error, unit) io"
  b_create_dir_all :: "string \<Rightarrow> ('s, io_error, unit) io"
  b_list :: "string \<Rightarrow> ('s, io_error, string list) io"
  b_sync_dir :: "string \<Rightarrow> ('s, io_error, unit) io"
  b_try_lock :: "string \<Rightarrow> ('s, io_error, unit) io"
  b_unlock :: "string \<Rightarrow> 's \<Rightarrow> 's"
  f_read_at :: "'h \<Rightarrow> nat \<Rightarrow> nat \<Rightarrow> ('s, io_error, bytes) io"
  f_write_at :: "'h \<Rightarrow> nat \<Rightarrow> bytes \<Rightarrow> ('s, io_error, unit) io"
  f_set_len :: "'h \<Rightarrow> nat \<Rightarrow> ('s, io_error, unit) io"
  f_punch_hole :: "'h \<Rightarrow> nat \<Rightarrow> nat \<Rightarrow> ('s, io_error, unit) io"
  f_len :: "'h \<Rightarrow> ('s, io_error, nat) io"
  f_sync_data :: "'h \<Rightarrow> ('s, io_error, unit) io"

text \<open>The default methods of \<open>BackingFile\<close>.\<close>

definition f_allocate_range :: "('s, 'h) backing \<Rightarrow> 'h \<Rightarrow> nat \<Rightarrow> nat \<Rightarrow> ('s, io_error, unit) io" where
  "f_allocate_range B h offset len =
     (if 2 ^ 64 \<le> offset + len then io_fail InvalidInput
      else io_bind (f_len B h) (\<lambda>n.
        if n < offset + len then f_set_len B h (offset + len) else io_return ()))"

definition f_is_empty :: "('s, 'h) backing \<Rightarrow> 'h \<Rightarrow> ('s, io_error, bool) io" where
  "f_is_empty B h = io_bind (f_len B h) (\<lambda>n. io_return (n = 0))"

definition f_sync_all :: "('s, 'h) backing \<Rightarrow> 'h \<Rightarrow> ('s, io_error, unit) io" where
  "f_sync_all B h = f_sync_data B h"

definition default_punch_hole :: "'h \<Rightarrow> nat \<Rightarrow> nat \<Rightarrow> ('s, io_error, unit) io" where
  "default_punch_hole h offset len = io_fail UnsupportedIo"

text \<open>A byte vector resized with zeros, and overwritten at an offset: \<open>Vec::resize\<close> and
  \<open>copy_from_slice\<close>, the content semantics of every in-memory backing.\<close>

definition resize :: "nat \<Rightarrow> bytes \<Rightarrow> bytes" where
  "resize n data = take n data @ replicate (n - length data) 0"

definition overwrite :: "nat \<Rightarrow> bytes \<Rightarrow> bytes \<Rightarrow> bytes" where
  "overwrite offset src data =
     (let data = if length data < offset + length src then resize (offset + length src) data else data
      in take offset data @ src @ drop (offset + length src) data)"

lemma length_resize [simp]: "length (resize n data) = n"
  by (simp add: resize_def)

lemma resize_same [simp]: "resize (length data) data = data"
  by (simp add: resize_def)

lemma resize_0 [simp]: "resize 0 data = []"
  by (simp add: resize_def)

lemma length_overwrite: "length (overwrite off src data) = max (length data) (off + length src)"
  by (simp add: overwrite_def Let_def)

lemma overwrite_all: "length data = length src \<Longrightarrow> overwrite 0 src data = src"
  by (simp add: overwrite_def)

lemma overwrite_resize_all [simp]: "overwrite 0 src (resize (length src) data) = src"
  by (simp add: overwrite_all)

text \<open>Writing back a part of the content changes nothing.\<close>

lemma overwrite_part:
  assumes "off + n \<le> length data"
  shows "overwrite off (take n (drop off data)) data = data"
proof -
  have "take off data @ take n (drop off data) @ drop (off + n) data = data"
    by (metis add.commute append_take_drop_id drop_drop)
  then show ?thesis
    using assms by (simp add: overwrite_def)
qed

section \<open>What the A/B protocol needs of a medium\<close>

text \<open>Rewriting a whole file: length, bytes, data sync. Both writes of \<open>AbStore::store\<close> have this
  shape.\<close>

definition write_image :: "('s, 'h) backing \<Rightarrow> 'h \<Rightarrow> bytes \<Rightarrow> ('s, io_error, unit) io" where
  "write_image B h bytes =
     io_bind (f_set_len B h (length bytes)) (\<lambda>_.
     io_bind (f_write_at B h 0 bytes) (\<lambda>_.
     f_sync_data B h))"

text \<open>The bounded read both required-metadata readers do: a file of exactly the record size is read and
  handed to \<open>accept\<close>; of any other file only the first twelve bytes are read, to refuse a
  recognizable foreign version; \<open>None\<close> is an absent or invalid copy.\<close>

definition read_fixed ::
  "('s, 'h) backing \<Rightarrow> string \<Rightarrow> nat \<Rightarrow> (bytes \<Rightarrow> bool) \<Rightarrow> string \<Rightarrow> (bytes \<Rightarrow> format_error + 'r option) \<Rightarrow>
   ('s, format_error, 'r option) io" where
  "read_fixed B path sz foreign what accept =
     io_match (b_open B path False)
       (\<lambda>e. if e = NotFound then io_return None else io_fail (FormatIo e))
       (\<lambda>file.
     io_bind (io_fmt (f_len B file)) (\<lambda>len.
     if len \<noteq> sz then
       (if 12 \<le> len then
          io_match (f_read_at B file 0 12)
            (\<lambda>e. if e = UnexpectedEof then io_return None else io_fail (FormatIo e))
            (\<lambda>header. if foreign header then io_fail (Unsupported what) else io_return None)
        else io_return None)
     else
       io_match (f_read_at B file 0 sz)
         (\<lambda>e. if e = UnexpectedEof then io_return None else io_fail (FormatIo e))
         (\<lambda>bytes. io_pure (accept bytes))))"

text \<open>What \<open>read_fixed\<close> may return for a content.\<close>

definition fixed_result :: "nat \<Rightarrow> (bytes \<Rightarrow> format_error + 'r option) \<Rightarrow> bytes option \<Rightarrow> 'r option \<Rightarrow> bool" where
  "fixed_result sz accept c x \<longleftrightarrow>
     (case c of Some c \<Rightarrow> if length c = sz then accept c = Inr x else x = None | None \<Rightarrow> x = None)"

text \<open>Partial-correctness triples over explicit state passing: \<open>E\<close> holds where the operation failed,
  \<open>Q x\<close> where it returned \<open>x\<close>.\<close>

definition triple :: "('s \<Rightarrow> bool) \<Rightarrow> ('s, 'e, 'a) io \<Rightarrow> ('a \<Rightarrow> 's \<Rightarrow> bool) \<Rightarrow> ('s \<Rightarrow> bool) \<Rightarrow> bool" where
  "triple P m Q E \<longleftrightarrow> (\<forall>s r s'. P s \<longrightarrow> m s = (r, s') \<longrightarrow> (case r of Inl _ \<Rightarrow> E s' | Inr x \<Rightarrow> Q x s'))"

lemma tripleI:
  assumes "\<And>s e s'. P s \<Longrightarrow> m s = (Inl e, s') \<Longrightarrow> E s'"
    and "\<And>s x s'. P s \<Longrightarrow> m s = (Inr x, s') \<Longrightarrow> Q x s'"
  shows "triple P m Q E"
  using assms by (auto simp: triple_def split: sum.split)

lemma tripleD:
  assumes "triple P m Q E" and "P s" and "m s = (r, s')"
  shows "r = Inl e \<Longrightarrow> E s'" and "r = Inr x \<Longrightarrow> Q x s'"
  using assms by (auto simp: triple_def)

lemma triple_bind:
  assumes "triple P m Q E" and "\<And>x. triple (Q x) (f x) R E"
  shows "triple P (io_bind m f) R E"
  unfolding triple_def
proof (intro allI impI)
  fix s r s'
  assume "P s" and run: "io_bind m f s = (r, s')"
  from run show "case r of Inl _ \<Rightarrow> E s' | Inr x \<Rightarrow> R x s'"
  proof (cases rule: io_bindE)
    case (err e)
    from tripleD(1) [OF assms(1) \<open>P s\<close> err(1) refl] show ?thesis
      using err(2) by simp
  next
    case (ok x s1)
    from tripleD(2) [OF assms(1) \<open>P s\<close> ok(1) refl] have "Q x s1" .
    then show ?thesis
      using assms(2) [of x] ok(2) by (simp add: triple_def)
  qed
qed

lemma triple_weaken:
  assumes "triple P m Q E" and "\<And>s. P' s \<Longrightarrow> P s" and "\<And>x s. Q x s \<Longrightarrow> Q' x s" and "\<And>s. E s \<Longrightarrow> E' s"
  shows "triple P' m Q' E'"
  unfolding triple_def
proof (intro allI impI)
  fix s r s'
  assume "P' s" and run: "m s = (r, s')"
  then have "P s"
    using assms(2) by simp
  note d = tripleD [OF assms(1) this run]
  show "case r of Inl _ \<Rightarrow> E' s' | Inr x \<Rightarrow> Q' x s'"
    using d(1) [THEN assms(4)] d(2) [THEN assms(3)] by (cases r) simp_all
qed

lemma triple_pre: "triple P m Q E \<Longrightarrow> (\<And>s. P' s \<Longrightarrow> P s) \<Longrightarrow> triple P' m Q E"
  by (rule triple_weaken)

lemma triple_error: "triple P m Q E \<Longrightarrow> (\<And>s. E s \<Longrightarrow> E' s) \<Longrightarrow> triple P m Q E'"
  by (rule triple_weaken)

lemma triple_fact: "(\<And>s. P s \<Longrightarrow> A) \<Longrightarrow> (A \<Longrightarrow> triple P m Q E) \<Longrightarrow> triple P m Q E"
  by (auto simp: triple_def)

lemma triple_return: "(\<And>s. P s \<Longrightarrow> Q x s) \<Longrightarrow> triple P (io_return x) Q E"
  by (simp add: triple_def io_return_def)

lemma triple_fail: "(\<And>s. P s \<Longrightarrow> E s) \<Longrightarrow> triple P (io_fail e) Q E"
  by (simp add: triple_def io_fail_def)

lemma triple_pure:
  "(\<And>s. P s \<Longrightarrow> E s) \<Longrightarrow> (\<And>x s. r = Inr x \<Longrightarrow> P s \<Longrightarrow> Q x s) \<Longrightarrow> triple P (io_pure r) Q E"
  by (auto simp: triple_def io_pure_def split: sum.splits)

lemma triple_fmt:
  assumes "triple P m Q E"
  shows "triple P (io_fmt m) Q E"
  unfolding triple_def
proof (intro allI impI)
  fix s r s'
  assume "P s" and "io_fmt m s = (r, s')"
  then obtain q where "m s = (q, s')" and "r = map_sum FormatIo id q"
    by (auto elim: io_fmtE)
  with tripleD [OF assms \<open>P s\<close>, of q s'] show "case r of Inl _ \<Rightarrow> E s' | Inr x \<Rightarrow> Q x s'"
    by (cases q) auto
qed

lemma triple_if:
  "(b \<Longrightarrow> triple P m Q E) \<Longrightarrow> (\<not> b \<Longrightarrow> triple P m' Q E) \<Longrightarrow> triple P (if b then m else m') Q E"
  by simp

text \<open>
  \<open>view s p\<close> is the content a reader of \<open>p\<close> sees; \<open>settled s p c\<close> says that the file is there with
  content \<open>c\<close> and that no crash can change that; \<open>synced s p c\<close> says the same but for the directory
  entry. Faults may make any operation fail, but an operation on a file that is there never claims
  that it is absent or too short.
\<close>

locale ab_medium =
  fixes B :: "('s, 'h) backing"
    and inv :: "'s \<Rightarrow> bool"
    and view :: "'s \<Rightarrow> string \<Rightarrow> bytes option"
    and settled :: "'s \<Rightarrow> string \<Rightarrow> bytes \<Rightarrow> bool"
    and synced :: "'s \<Rightarrow> string \<Rightarrow> bytes \<Rightarrow> bool"
    and opened :: "'s \<Rightarrow> 'h \<Rightarrow> string \<Rightarrow> bool"
    and crash :: "'s \<Rightarrow> 's \<Rightarrow> bool"
  assumes settled_view: "inv s \<Longrightarrow> settled s p c \<Longrightarrow> view s p = Some c"
    and open_inv: "inv s \<Longrightarrow> b_open B p cr s = (r, s') \<Longrightarrow> inv s'"
    and open_keep: "inv s \<Longrightarrow> b_open B p cr s = (r, s') \<Longrightarrow> q \<noteq> p \<or> \<not> cr \<or> view s q \<noteq> None \<Longrightarrow>
      view s' q = view s q"
    and open_settled: "inv s \<Longrightarrow> b_open B p cr s = (r, s') \<Longrightarrow> settled s \<le> settled s'"
    and open_opened: "inv s \<Longrightarrow> b_open B p cr s = (Inr h, s') \<Longrightarrow> opened s' h p"
    and open_absent: "inv s \<Longrightarrow> b_open B p False s = (Inl NotFound, s') \<Longrightarrow> view s p = None"
    and len_keep: "inv s \<Longrightarrow> opened s h p \<Longrightarrow> f_len B h s = (rl, s') \<Longrightarrow>
      inv s' \<and> view s' = view s \<and> settled s' = settled s \<and> opened s' h p \<and>
      (\<forall>n. rl = Inr n \<longrightarrow> (\<exists>c. view s p = Some c \<and> length c = n))"
    and read_keep: "inv s \<Longrightarrow> opened s h p \<Longrightarrow> view s p = Some c \<Longrightarrow> f_read_at B h off n s = (rr, s') \<Longrightarrow>
      inv s' \<and> view s' = view s \<and> settled s' = settled s \<and> opened s' h p \<and>
      (\<forall>bs. rr = Inr bs \<longrightarrow> off + n \<le> length c \<and> bs = take n (drop off c)) \<and>
      (rr = Inl UnexpectedEof \<longrightarrow> length c < off + n)"
    and rewrite_same: "inv s \<Longrightarrow> opened s h p \<Longrightarrow> view s p = Some c \<Longrightarrow> write_image B h c s = (ru, s') \<Longrightarrow>
      view s' = view s \<and> settled s \<le> settled s'"
    and write_image: "inv s \<Longrightarrow> opened s h p \<Longrightarrow> write_image B h c s = (ru, s') \<Longrightarrow>
      inv s' \<and> (\<forall>q. q \<noteq> p \<longrightarrow> view s' q = view s q) \<and> (\<forall>q d. q \<noteq> p \<longrightarrow> settled s q d \<longrightarrow> settled s' q d) \<and>
      (ru = Inr () \<longrightarrow> synced s' p c \<and> view s' p = Some c)"
    and sync_dir_keep: "inv s \<Longrightarrow> b_sync_dir B d s = (ru, s') \<Longrightarrow>
      inv s' \<and> view s' = view s \<and> settled s \<le> settled s'"
    and sync_dir_settles: "inv s \<Longrightarrow> synced s p c \<Longrightarrow> b_sync_dir B (parent p) s = (Inr (), s') \<Longrightarrow> settled s' p c"
    and crash_inv: "inv s \<Longrightarrow> crash s s' \<Longrightarrow> inv s'"
    and crash_settled: "inv s \<Longrightarrow> crash s s' \<Longrightarrow> settled s \<le> settled s'"

text \<open>Operations that only look: they keep the invariant, what readers see and what is settled, and
  their result, if they succeed, satisfies \<open>P\<close>.\<close>

context ab_medium
begin

definition quiet :: "(string \<Rightarrow> bytes option) \<Rightarrow> ('s, 'e, 'a) io \<Rightarrow> ('a \<Rightarrow> bool) \<Rightarrow> bool" where
  "quiet v m P \<longleftrightarrow> (\<forall>s r s'. inv s \<longrightarrow> view s = v \<longrightarrow> m s = (r, s') \<longrightarrow>
     inv s' \<and> view s' = v \<and> settled s \<le> settled s' \<and> (\<forall>x. r = Inr x \<longrightarrow> P x))"

lemma quietD:
  assumes "quiet (view s) m P" and "inv s" and "m s = (r, s')"
  shows "inv s' \<and> view s' = view s \<and> settled s \<le> settled s' \<and> (\<forall>x. r = Inr x \<longrightarrow> P x)"
  using assms unfolding quiet_def by blast

lemma quiet_basic [intro]:
  "P x \<Longrightarrow> quiet v (io_return x) P"
  "quiet v (io_fail e) P"
  "(\<And>x. r = Inr x \<Longrightarrow> P x) \<Longrightarrow> quiet v (io_pure r) P"
  by (auto simp: quiet_def)

lemma quiet_bind [intro?]:
  assumes "quiet v m P" and "\<And>x. P x \<Longrightarrow> quiet v (f x) Q"
  shows "quiet v (io_bind m f) Q"
  unfolding quiet_def
proof (intro allI impI)
  fix s r s'
  assume s: "inv s" "view s = v" and run: "io_bind m f s = (r, s')"
  from run show "inv s' \<and> view s' = v \<and> settled s \<le> settled s' \<and> (\<forall>x. r = Inr x \<longrightarrow> Q x)"
  proof (cases rule: io_bindE)
    case (err e)
    then show ?thesis
      using assms(1) s unfolding quiet_def by blast
  next
    case (ok x s1)
    have s1: "inv s1" "view s1 = v" "settled s \<le> settled s1" "P x"
      using assms(1) s ok(1) unfolding quiet_def by blast+
    from assms(2) [OF s1(4)] s1(1,2) ok(2)
    have "inv s' \<and> view s' = v \<and> settled s1 \<le> settled s' \<and> (\<forall>x. r = Inr x \<longrightarrow> Q x)"
      unfolding quiet_def by blast
    then show ?thesis
      using s1(3) order_trans by blast
  qed
qed

lemma quiet_weaken: "quiet v m P \<Longrightarrow> (\<And>x. P x \<Longrightarrow> Q x) \<Longrightarrow> quiet v m Q"
  unfolding quiet_def by blast

text \<open>A predicate no quiet operation can break.\<close>

definition steady :: "('s \<Rightarrow> bool) \<Rightarrow> bool" where
  "steady F \<longleftrightarrow> (\<forall>s. F s \<longrightarrow> inv s) \<and>
     (\<forall>s s'. F s \<longrightarrow> inv s' \<longrightarrow> view s' = view s \<longrightarrow> settled s \<le> settled s' \<longrightarrow> F s')"

lemma steadyD:
  "steady F \<Longrightarrow> F s \<Longrightarrow> inv s"
  "steady F \<Longrightarrow> F s \<Longrightarrow> inv s' \<Longrightarrow> view s' = view s \<Longrightarrow> settled s \<le> settled s' \<Longrightarrow> F s'"
  unfolding steady_def by blast+

lemma steady_view: "steady F \<Longrightarrow> steady (\<lambda>s. F s \<and> P (view s))"
  unfolding steady_def by auto

lemma quiet_triple:
  assumes "\<And>v. quiet v m (P v)" and "steady F"
  shows "triple F m (\<lambda>x s. F s \<and> P (view s) x) F"
  unfolding triple_def
proof (intro allI impI)
  fix s r s'
  assume "F s" and run: "m s = (r, s')"
  have "inv s"
    using assms(2) \<open>F s\<close> by (rule steadyD)
  note q = quietD [OF assms(1) this run]
  then have "F s'"
    by (intro steadyD(2) [OF assms(2) \<open>F s\<close>]) simp_all
  then show "case r of Inl _ \<Rightarrow> F s' | Inr x \<Rightarrow> F s' \<and> P (view s') x"
    using q by (cases r) simp_all
qed

lemma sync_dir_triple: "steady F \<Longrightarrow> triple F (b_sync_dir B d) (\<lambda>_. F) F"
proof (rule tripleI)
  fix s e s'
  assume F: "steady F" "F s" and run: "b_sync_dir B d s = (Inl e, s')"
  show "F s'"
    using sync_dir_keep [OF steadyD(1) [OF F] run] by (intro steadyD(2) [OF F]) simp_all
next
  fix s x s'
  assume F: "steady F" "F s" and run: "b_sync_dir B d s = (Inr x, s')"
  show "F s'"
    using sync_dir_keep [OF steadyD(1) [OF F] run] by (intro steadyD(2) [OF F]) simp_all
qed

text \<open>The read both A/B readers begin with: open the file without creating it, take its length,
  then read some prefix of it. \<open>g c\<close> is what the reader makes of the content.\<close>

lemma quiet_read:
  assumes "v p = None \<Longrightarrow> P (absent :: 'b)"
    and "\<And>c h. v p = Some c \<Longrightarrow>
      (\<And>s r s'. inv s \<Longrightarrow> view s = v \<Longrightarrow> opened s h p \<Longrightarrow> k h (length c) s = (r, s') \<Longrightarrow>
        inv s' \<and> view s' = v \<and> settled s \<le> settled s' \<and> (\<forall>x. r = Inr x \<longrightarrow> P x))"
  shows "quiet v (io_match (b_open B p False)
      (\<lambda>e. if e = NotFound then io_return absent else io_fail (FormatIo e))
      (\<lambda>file. io_bind (io_fmt (f_len B file)) (k file))) P"
  unfolding quiet_def
proof (intro allI impI)
  fix s r s'
  assume s: "inv s" "view s = v" and run: "io_match (b_open B p False)
      (\<lambda>e. if e = NotFound then io_return absent else io_fail (FormatIo e))
      (\<lambda>file. io_bind (io_fmt (f_len B file)) (k file)) s = (r, s')"
  from run show "inv s' \<and> view s' = v \<and> settled s \<le> settled s' \<and> (\<forall>x. r = Inr x \<longrightarrow> P x)"
  proof (cases rule: io_matchE)
    case (err e s1)
    have "inv s1" and "view s1 = view s" and "settled s \<le> settled s1"
      using s(1) err(1) open_settled by (auto intro: open_inv open_keep)
    then show ?thesis
      using err open_absent [OF s(1)] assms(1) s(2) by (auto split: if_splits)
  next
    case (ok h s1)
    have s1: "inv s1" "view s1 = v" "settled s \<le> settled s1" "opened s1 h p"
      using s ok(1) open_settled by (auto intro: open_inv open_keep open_opened)
    from ok(2) show ?thesis
    proof (cases rule: io_bindE)
      case (err e)
      then obtain q where "f_len B h s1 = (q, s')"
        by (auto elim: io_fmtE)
      from len_keep [OF s1(1,4) this] show ?thesis
        using s1 err by simp
    next
      case (ok n s2)
      then have "f_len B h s1 = (Inr n, s2)"
        by simp
      from len_keep [OF s1(1,4) this] s1(2,3) obtain c where
        s2: "inv s2" "view s2 = v" "settled s \<le> settled s2" "opened s2 h p" "v p = Some c" "length c = n"
        by auto
      have "k h (length c) s2 = (r, s')"
        using ok(2) s2(6) by simp
      from assms(2) [OF s2(5,1,2,4) this] show ?thesis
        using s2(3) order_trans by blast
    qed
  qed
qed

lemma quiet_read_at:
  assumes "inv s" and "opened s h p" and "view s p = Some c"
    and "io_match (f_read_at B h off n)
      (\<lambda>e. if e = UnexpectedEof then io_return (absent :: 'b) else io_fail (FormatIo e)) f s = (r, s')"
    and "length c < off + n \<Longrightarrow> P absent"
    and "off + n \<le> length c \<Longrightarrow> quiet (view s) (f (take n (drop off c))) P"
  shows "inv s' \<and> view s' = view s \<and> settled s \<le> settled s' \<and> (\<forall>x. r = Inr x \<longrightarrow> P x)"
  using assms(4)
proof (cases rule: io_matchE)
  case (err e s1)
  from read_keep [OF assms(1,2,3) err(1)] show ?thesis
    using err(2) assms(5) by (auto split: if_splits)
next
  case (ok bs s1)
  note k = read_keep [OF assms(1,2,3) ok(1)]
  then have "quiet (view s1) (f bs) P" and "inv s1"
    using assms(6) by auto
  from quietD [OF this ok(2)] show ?thesis
    using k by auto
qed

lemma quiet_read_fixed:
  "quiet v (read_fixed B p sz foreign what accept) (fixed_result sz accept (v p))"
    (is "quiet v _ ?P")
  unfolding read_fixed_def
proof (rule quiet_read)
  let ?header = "\<lambda>h. io_match (f_read_at B h 0 12)
      (\<lambda>e. if e = UnexpectedEof then io_return None else io_fail (FormatIo e))
      (\<lambda>header. if foreign header then io_fail (Unsupported what) else io_return None)"
  let ?image = "\<lambda>h. io_match (f_read_at B h 0 sz)
      (\<lambda>e. if e = UnexpectedEof then io_return None else io_fail (FormatIo e))
      (\<lambda>bytes. io_pure (accept bytes))"
  fix c h s r s'
  assume c: "v p = Some c" and s: "inv s" "view s = v" "opened s h p"
    and run: "(if length c \<noteq> sz then if 12 \<le> length c then ?header h else io_return None
       else ?image h) s = (r, s')"
  have vp: "view s p = Some c"
    using s(2) c by simp
  show "inv s' \<and> view s' = v \<and> settled s \<le> settled s' \<and> (\<forall>x. r = Inr x \<longrightarrow> ?P x)"
  proof (cases "length c = sz")
    case True
    then have run': "?image h s = (r, s')"
      using run by simp
    have "quiet (view s) (io_pure (accept c)) ?P"
      using c True by (intro quiet_basic(3)) (simp add: fixed_result_def)
    then have "inv s' \<and> view s' = view s \<and> settled s \<le> settled s' \<and> (\<forall>x. r = Inr x \<longrightarrow> ?P x)"
      by (intro quiet_read_at [OF s(1,3) vp run']) (simp_all add: True)
    then show ?thesis
      unfolding s(2) .
  next
    case False
    then have bad: "?P None"
      using c by (simp add: fixed_result_def)
    show ?thesis
    proof (cases "12 \<le> length c")
      case True
      then have run': "?header h s = (r, s')"
        using run False by simp
      have "inv s' \<and> view s' = view s \<and> settled s \<le> settled s' \<and> (\<forall>x. r = Inr x \<longrightarrow> ?P x)"
        by (rule quiet_read_at [OF s(1,3) vp run']) (use bad in \<open>auto intro!: quiet_basic\<close>)
      then show ?thesis
        unfolding s(2) .
    next
      case short: False
      then show ?thesis
        using run False s bad by auto
    qed
  qed
qed (simp add: fixed_result_def)

end

end
