(* ===== verification/Directory.thy ===== *)
theory Directory
  imports Backing
begin

text \<open>
  The second contract on a backing: what its operations leave alone. \<open>kept P s s'\<close> says that outside
  the paths \<open>P\<close> nothing changed: readers see the same, what was synced or settled still is, open
  files stay open, and a name that exists neither for readers nor on disk (\<open>absent\<close>) does not appear.
  For files that grow, \<open>held s p bs\<close> says that no crash can take away the first bytes \<open>bs\<close> of \<open>p\<close>, and
  \<open>cover s p n\<close> that a successful data sync would persist at least the first \<open>n\<close> of the bytes readers
  see and the length they see; both are kept alike. The locale
  \<open>ab_directory\<close> extends \<open>ab_medium\<close> with one such law per operation of the traits; frame reasoning
  over whole programs then follows their structure.
\<close>

locale ab_names = ab_medium B inv view settled synced opened crash
  for B :: "('s, 'h) backing" and inv view settled synced opened crash +
  fixes absent :: "'s \<Rightarrow> string \<Rightarrow> bool"
    and held :: "'s \<Rightarrow> string \<Rightarrow> bytes \<Rightarrow> bool"
    and cover :: "'s \<Rightarrow> string \<Rightarrow> nat \<Rightarrow> bool"
  assumes absent_view: "inv s \<Longrightarrow> absent s p \<Longrightarrow> view s p = None"
    and crash_absent: "inv s \<Longrightarrow> crash s s' \<Longrightarrow> absent s p \<Longrightarrow> absent s' p"
begin

definition kept :: "string set \<Rightarrow> 's \<Rightarrow> 's \<Rightarrow> bool" where
  "kept P s s' \<longleftrightarrow> inv s' \<and> (\<forall>q. q \<notin> P \<longrightarrow> view s' q = view s q \<and>
     (\<forall>c. settled s q c \<longrightarrow> settled s' q c) \<and> (\<forall>c. synced s q c \<longrightarrow> synced s' q c) \<and>
     (absent s q \<longrightarrow> absent s' q) \<and> (\<forall>h. opened s h q \<longrightarrow> opened s' h q) \<and>
     (\<forall>c. held s q c \<longrightarrow> held s' q c) \<and> (\<forall>n. cover s q n \<longrightarrow> cover s' q n))"

lemma kept_refl: "inv s \<Longrightarrow> kept P s s"
  by (simp add: kept_def)

lemma kept_trans: "kept P s s' \<Longrightarrow> kept P s' s'' \<Longrightarrow> kept P s s''"
  by (simp add: kept_def)

lemma kept_mono: "kept P s s' \<Longrightarrow> P \<subseteq> Q \<Longrightarrow> kept Q s s'"
  by (auto simp: kept_def)

lemma kept_inv: "kept P s s' \<Longrightarrow> inv s'"
  by (simp add: kept_def)

lemma keptD: "kept P s s' \<Longrightarrow> q \<notin> P \<Longrightarrow> view s' q = view s q"
    "kept P s s' \<Longrightarrow> q \<notin> P \<Longrightarrow> settled s q c \<Longrightarrow> settled s' q c"
    "kept P s s' \<Longrightarrow> q \<notin> P \<Longrightarrow> synced s q c \<Longrightarrow> synced s' q c"
    "kept P s s' \<Longrightarrow> q \<notin> P \<Longrightarrow> absent s q \<Longrightarrow> absent s' q"
    "kept P s s' \<Longrightarrow> q \<notin> P \<Longrightarrow> opened s h q \<Longrightarrow> opened s' h q"
    "kept P s s' \<Longrightarrow> q \<notin> P \<Longrightarrow> held s q c \<Longrightarrow> held s' q c"
    "kept P s s' \<Longrightarrow> q \<notin> P \<Longrightarrow> cover s q n \<Longrightarrow> cover s' q n"
  by (simp_all add: kept_def)

lemma kept_all: "kept {} s s' \<Longrightarrow> inv s' \<and> view s' = view s \<and> settled s \<le> settled s'"
  by (auto simp: kept_def)

end

locale ab_directory = ab_names B inv view settled synced opened crash absent held cover
  for B :: "('s, 'h) backing" and inv view settled synced opened crash absent held cover +
  assumes open_kept: "inv s \<Longrightarrow> b_open B p cr s = (ro, s') \<Longrightarrow> kept {p} s s'"
    and len_kept: "inv s \<Longrightarrow> opened s h p \<Longrightarrow> f_len B h s = (rl, s') \<Longrightarrow> kept {} s s' \<and> opened s' h p"
    and read_kept: "inv s \<Longrightarrow> opened s h p \<Longrightarrow> f_read_at B h off n s = (rr, s') \<Longrightarrow> kept {} s s' \<and> opened s' h p"
    and set_len_kept: "inv s \<Longrightarrow> opened s h p \<Longrightarrow> f_set_len B h n s = (rc, s') \<Longrightarrow> kept {p} s s' \<and> opened s' h p"
    and write_kept: "inv s \<Longrightarrow> opened s h p \<Longrightarrow> f_write_at B h off bs s = (rc, s') \<Longrightarrow> kept {p} s s' \<and> opened s' h p"
    and sync_data_kept: "inv s \<Longrightarrow> opened s h p \<Longrightarrow> f_sync_data B h s = (rc, s') \<Longrightarrow> kept {p} s s' \<and> opened s' h p"
    and sync_dir_kept: "inv s \<Longrightarrow> b_sync_dir B d s = (rc, s') \<Longrightarrow> kept {} s s'"
    and exists_kept: "inv s \<Longrightarrow> b_exists B p s = (re, s') \<Longrightarrow> kept {} s s' \<and> (re = Inr False \<longrightarrow> view s p = None)"
    and create_dir_kept: "inv s \<Longrightarrow> b_create_dir_all B d s = (rc, s') \<Longrightarrow> kept {} s s'"
    and list_kept: "inv s \<Longrightarrow> b_list B d s = (rn, s') \<Longrightarrow> kept {} s s'"
    and lock_kept: "inv s \<Longrightarrow> b_try_lock B p s = (rc, s') \<Longrightarrow> kept {p} s s'"
    and unlock_kept: "inv s \<Longrightarrow> kept {} s (b_unlock B p s)"
begin

text \<open>Programs that touch no path outside a set, and predicates they cannot break.\<close>

definition modifies :: "string set \<Rightarrow> ('s, 'e, 'a) io \<Rightarrow> bool" where
  "modifies P m \<longleftrightarrow> (\<forall>s r s'. inv s \<longrightarrow> m s = (r, s') \<longrightarrow> kept P s s')"

definition framed :: "string set \<Rightarrow> ('s \<Rightarrow> bool) \<Rightarrow> bool" where
  "framed P F \<longleftrightarrow> (\<forall>s. F s \<longrightarrow> inv s) \<and> (\<forall>s s'. F s \<longrightarrow> kept P s s' \<longrightarrow> F s')"

lemma modifiesD: "modifies P m \<Longrightarrow> inv s \<Longrightarrow> m s = (r, s') \<Longrightarrow> kept P s s'"
  unfolding modifies_def by blast

lemma modifies_basic [intro]:
  "modifies P (io_return x)" "modifies P (io_fail e)" "modifies P (io_pure r)"
  by (auto simp: modifies_def kept_refl)

lemma modifies_mono: "modifies P m \<Longrightarrow> P \<subseteq> Q \<Longrightarrow> modifies Q m"
  by (simp add: modifies_def) (blast intro: kept_mono)

lemma modifies_bind:
  assumes "modifies P m" and "\<And>x. modifies P (f x)"
  shows "modifies P (io_bind m f)"
  unfolding modifies_def
proof (intro allI impI)
  fix s r s'
  assume s: "inv s" and run: "io_bind m f s = (r, s')"
  from run show "kept P s s'"
  proof (cases rule: io_bindE)
    case (err e)
    then show ?thesis
      using modifiesD [OF assms(1) s] by simp
  next
    case (ok x s1)
    have k: "kept P s s1"
      by (rule modifiesD [OF assms(1) s ok(1)])
    then have "kept P s1 s'"
      by (rule modifiesD [OF assms(2) kept_inv ok(2)])
    with k show ?thesis
      by (rule kept_trans)
  qed
qed

lemma modifies_match:
  assumes "modifies P m" and "\<And>e. modifies P (h e)" and "\<And>x. modifies P (f x)"
  shows "modifies P (io_match m h f)"
  unfolding modifies_def
proof (intro allI impI)
  fix s r s'
  assume s: "inv s" and run: "io_match m h f s = (r, s')"
  from run show "kept P s s'"
  proof (cases rule: io_matchE)
    case (err e s1)
    have k: "kept P s s1"
      by (rule modifiesD [OF assms(1) s err(1)])
    then have "kept P s1 s'"
      by (rule modifiesD [OF assms(2) kept_inv err(2)])
    with k show ?thesis
      by (rule kept_trans)
  next
    case (ok x s1)
    have k: "kept P s s1"
      by (rule modifiesD [OF assms(1) s ok(1)])
    then have "kept P s1 s'"
      by (rule modifiesD [OF assms(3) kept_inv ok(2)])
    with k show ?thesis
      by (rule kept_trans)
  qed
qed

lemma modifies_fmt: "modifies P m \<Longrightarrow> modifies P (io_fmt m)"
  unfolding modifies_def by (auto elim: io_fmtE)

lemma modifies_if: "modifies P m \<Longrightarrow> modifies P m' \<Longrightarrow> modifies P (if b then m else m')"
  by simp

lemma modifies_ops:
  "modifies P (b_exists B p)" "modifies P (b_create_dir_all B d)" "modifies P (b_list B d)"
  "modifies P (b_sync_dir B d)"
proof -
  have none: "kept {} s s' \<Longrightarrow> kept P s s'" for s s'
    by (erule kept_mono) simp
  show "modifies P (b_exists B p)" "modifies P (b_create_dir_all B d)" "modifies P (b_list B d)" "modifies P (b_sync_dir B d)"
    unfolding modifies_def using exists_kept create_dir_kept list_kept sync_dir_kept none by blast+
qed

lemma modifies_lock: "modifies {p} (b_try_lock B p)"
  unfolding modifies_def using lock_kept by blast

lemma framed_steady: "steady F \<Longrightarrow> framed {} F"
  unfolding steady_def framed_def using kept_all by blast

lemma modifies_triple:
  assumes "modifies P m" and "framed P F"
  shows "triple F m (\<lambda>_. F) F"
  unfolding triple_def
proof (intro allI impI)
  fix s r s'
  assume "F s" and "m s = (r, s')"
  then have "inv s" and "kept P s s'"
    using assms(2) modifiesD [OF assms(1)] by (auto simp: framed_def)
  then have "F s'"
    using assms(2) \<open>F s\<close> unfolding framed_def by blast
  then show "case r of Inl _ \<Rightarrow> F s' | Inr _ \<Rightarrow> F s'"
    by (cases r) simp_all
qed

lemma triple_frame:
  assumes "triple P m Q E" and "modifies S m" and "framed S F"
  shows "triple (\<lambda>s. P s \<and> F s) m (\<lambda>x s. Q x s \<and> F s) (\<lambda>s. E s \<and> F s)"
proof -
  note t = tripleD [OF assms(1)] and f = tripleD [OF modifies_triple [OF assms(2,3)]]
  show ?thesis
  proof (rule tripleI)
    fix s e s'
    assume s: "P s \<and> F s" and run: "m s = (Inl e, s')"
    show "E s' \<and> F s'"
      using t(1) [OF conjunct1 [OF s] run refl] f(1) [OF conjunct2 [OF s] run refl] by simp
  next
    fix s x s'
    assume s: "P s \<and> F s" and run: "m s = (Inr x, s')"
    show "Q x s' \<and> F s'"
      using t(2) [OF conjunct1 [OF s] run refl] f(2) [OF conjunct2 [OF s] run refl] by simp
  qed
qed

text \<open>Facts about paths outside a set survive whatever happens to the set.\<close>

definition keeps :: "string set \<Rightarrow> ('s \<Rightarrow> bool) \<Rightarrow> bool" where
  "keeps P G \<longleftrightarrow> (\<forall>s s'. G s \<longrightarrow> kept P s s' \<longrightarrow> G s')"

lemma framed_keeps: "keeps P G \<Longrightarrow> framed P (\<lambda>s. inv s \<and> G s)"
  unfolding keeps_def framed_def using kept_inv by blast

lemma keeps_intros:
  "q \<notin> P \<Longrightarrow> keeps P (\<lambda>s. settled s q c)"
  "q \<notin> P \<Longrightarrow> keeps P (\<lambda>s. synced s q c)"
  "q \<notin> P \<Longrightarrow> keeps P (\<lambda>s. absent s q)"
  "q \<notin> P \<Longrightarrow> keeps P (\<lambda>s. f (view s q))"
  "keeps P (\<lambda>s. A)"
  "keeps P G \<Longrightarrow> keeps P H \<Longrightarrow> keeps P (\<lambda>s. G s \<and> H s)"
  "(\<And>x. keeps P (J x)) \<Longrightarrow> keeps P (\<lambda>s. \<exists>x. J x s)"
  "q \<notin> P \<Longrightarrow> keeps P (\<lambda>s. opened s h q)"
  "q \<notin> P \<Longrightarrow> keeps P (\<lambda>s. held s q c)"
  "q \<notin> P \<Longrightarrow> keeps P (\<lambda>s. cover s q n)"
  unfolding keeps_def
  by (blast intro: keptD(2), blast intro: keptD(3), blast intro: keptD(4), simp add: keptD(1),
      blast, blast, blast, blast intro: keptD(5), blast intro: keptD(6), blast intro: keptD(7))

lemma keeps_ball: "(\<And>x. x \<in> A \<Longrightarrow> keeps P (J x)) \<Longrightarrow> keeps P (\<lambda>s. \<forall>x \<in> A. J x s)"
  unfolding keeps_def by blast

lemma keeps_fact: "(A \<Longrightarrow> keeps P G) \<Longrightarrow> keeps P (\<lambda>s. A \<and> G s)"
  unfolding keeps_def by blast

text \<open>One step of a longer program: it turns \<open>A\<close> into \<open>H\<close> on the paths \<open>P\<close> and leaves \<open>G\<close> alone.\<close>

lemma triple_stage:
  assumes "triple (\<lambda>s. inv s \<and> A s) m (\<lambda>x s. inv s \<and> H x s) inv" and "modifies P m" and "keeps P G"
    and "\<And>s. inv s \<Longrightarrow> G s \<Longrightarrow> E s" and "\<And>x. triple (\<lambda>s. inv s \<and> G s \<and> H x s) (f x) R E"
  shows "triple (\<lambda>s. inv s \<and> G s \<and> A s) (io_bind m f) R E"
proof (rule triple_bind)
  show "triple (\<lambda>s. inv s \<and> G s \<and> A s) m (\<lambda>x s. inv s \<and> G s \<and> H x s) E"
    by (rule triple_weaken [OF triple_frame [OF assms(1,2) framed_keeps [OF assms(3)]]]) (use assms(4) in auto)
qed (rule assms(5))

lemma triple_leave:
  assumes "modifies P m" and "keeps P G" and "\<And>s. inv s \<Longrightarrow> G s \<Longrightarrow> E s"
    and "\<And>x. triple (\<lambda>s. inv s \<and> G s) (f x) R E"
  shows "triple (\<lambda>s. inv s \<and> G s) (io_bind m f) R E"
  by (rule triple_bind [OF triple_error [OF modifies_triple [OF assms(1) framed_keeps [OF assms(2)]]]])
    (use assms(3,4) in auto)

lemma exists_triple:
  assumes "framed {} F"
  shows "triple F (b_exists B p) (\<lambda>there s. F s \<and> (\<not> there \<longrightarrow> view s p = None)) F"
proof (rule tripleI)
  fix s e s'
  assume "F s" and run: "b_exists B p s = (Inl e, s')"
  then show "F s'"
    using assms exists_kept [OF _ run] unfolding framed_def by blast
next
  fix s there s'
  assume F: "F s" and run: "b_exists B p s = (Inr there, s')"
  then have "inv s"
    using assms by (simp add: framed_def)
  note k = exists_kept [OF this run]
  then have "F s'" and "view s' = view s"
    using assms F kept_all unfolding framed_def by blast+
  then show "F s' \<and> (\<not> there \<longrightarrow> view s' p = None)"
    using k by simp
qed

text \<open>Programs on an open file.\<close>

definition uses :: "'h \<Rightarrow> string \<Rightarrow> ('s, 'e, 'a) io \<Rightarrow> bool" where
  "uses h p m \<longleftrightarrow> (\<forall>s r s'. inv s \<longrightarrow> opened s h p \<longrightarrow> m s = (r, s') \<longrightarrow> kept {p} s s' \<and> opened s' h p)"

lemma usesD: "uses h p m \<Longrightarrow> inv s \<Longrightarrow> opened s h p \<Longrightarrow> m s = (r, s') \<Longrightarrow> kept {p} s s' \<and> opened s' h p"
  unfolding uses_def by blast

lemma uses_basic [intro]:
  "uses h p (io_return x)" "uses h p (io_fail e)" "uses h p (io_pure r)"
  by (simp_all add: uses_def kept_refl)

lemma uses_bind:
  assumes "uses h p m" and "\<And>x. uses h p (f x)"
  shows "uses h p (io_bind m f)"
  unfolding uses_def
proof (intro allI impI)
  fix s r s'
  assume s: "inv s" "opened s h p" and run: "io_bind m f s = (r, s')"
  from run show "kept {p} s s' \<and> opened s' h p"
  proof (cases rule: io_bindE)
    case (err e)
    then show ?thesis
      using usesD [OF assms(1) s] by simp
  next
    case (ok x s1)
    have k: "kept {p} s s1" "opened s1 h p"
      using usesD [OF assms(1) s ok(1)] by simp_all
    then have "kept {p} s1 s' \<and> opened s' h p"
      by (intro usesD [OF assms(2) kept_inv _ ok(2)])
    with k show ?thesis
      using kept_trans by blast
  qed
qed

lemma uses_match:
  assumes "uses h p m" and "\<And>e. uses h p (g e)" and "\<And>x. uses h p (f x)"
  shows "uses h p (io_match m g f)"
  unfolding uses_def
proof (intro allI impI)
  fix s r s'
  assume s: "inv s" "opened s h p" and run: "io_match m g f s = (r, s')"
  from run show "kept {p} s s' \<and> opened s' h p"
  proof (cases rule: io_matchE)
    case (err e s1)
    have k: "kept {p} s s1" "opened s1 h p"
      using usesD [OF assms(1) s err(1)] by simp_all
    then have "kept {p} s1 s' \<and> opened s' h p"
      by (intro usesD [OF assms(2) kept_inv _ err(2)])
    with k show ?thesis
      using kept_trans by blast
  next
    case (ok x s1)
    have k: "kept {p} s s1" "opened s1 h p"
      using usesD [OF assms(1) s ok(1)] by simp_all
    then have "kept {p} s1 s' \<and> opened s' h p"
      by (intro usesD [OF assms(3) kept_inv _ ok(2)])
    with k show ?thesis
      using kept_trans by blast
  qed
qed

lemma uses_fmt: "uses h p m \<Longrightarrow> uses h p (io_fmt m)"
  unfolding uses_def by (auto elim: io_fmtE)

lemma uses_if: "uses h p m \<Longrightarrow> uses h p m' \<Longrightarrow> uses h p (if b then m else m')"
  by simp

lemma uses_ops:
  "uses h p (f_len B h)" "uses h p (f_read_at B h off n)" "uses h p (f_set_len B h n)"
  "uses h p (f_write_at B h off bs)" "uses h p (f_sync_data B h)"
proof -
  have none: "kept {} s s' \<Longrightarrow> kept {p} s s'" for s s'
    by (erule kept_mono) simp
  show "uses h p (f_len B h)" "uses h p (f_read_at B h off n)"
    unfolding uses_def using len_kept [of _ h p] read_kept [of _ h p] none by blast+
  show "uses h p (f_set_len B h n)" "uses h p (f_write_at B h off bs)" "uses h p (f_sync_data B h)"
    unfolding uses_def using set_len_kept write_kept sync_data_kept by blast+
qed

lemma uses_write_image: "uses h p (write_image B h c)"
  unfolding write_image_def by (intro uses_bind uses_ops)

lemma modifies_open_then:
  assumes "\<And>h. uses h p (f h)" and "\<And>e. modifies {p} (g e)"
  shows "modifies {p} (io_match (b_open B p cr) g f)"
  unfolding modifies_def
proof (intro allI impI)
  fix s r s'
  assume s: "inv s" and run: "io_match (b_open B p cr) g f s = (r, s')"
  from run show "kept {p} s s'"
  proof (cases rule: io_matchE)
    case (err e s1)
    have k: "kept {p} s s1"
      by (rule open_kept [OF s err(1)])
    then have "kept {p} s1 s'"
      by (rule modifiesD [OF assms(2) kept_inv err(2)])
    with k show ?thesis
      by (rule kept_trans)
  next
    case (ok h s1)
    have k: "kept {p} s s1"
      by (rule open_kept [OF s ok(1)])
    have "kept {p} s1 s'"
      using usesD [OF assms(1) kept_inv [OF k] open_opened [OF s ok(1)] ok(2)] ..
    with k show ?thesis
      by (rule kept_trans)
  qed
qed

lemma modifies_open:
  assumes "\<And>h. uses h p (f h)"
  shows "modifies {p} (io_bind (io_fmt (b_open B p cr)) f)"
proof -
  have "io_bind (io_fmt (b_open B p cr)) f = io_match (b_open B p cr) (\<lambda>e. io_fail (FormatIo e)) f"
    by (auto simp: fun_eq_iff io_bind_def io_match_def io_fmt_def split: prod.split sum.split)
  then show ?thesis
    by (simp only:) (rule modifies_open_then [OF assms modifies_basic(2)])
qed

end

end
