(* ===== verification/Ab_Store.thy ===== *)
theory Ab_Store
  imports Ab_Record Directory
begin

text \<open>
  The A/B dual-copy store of \<open>crates/maki-format/src/ab.rs\<close>, over any backing dictionary and any
  record type. \<open>store\<close> takes its record by mutable reference: the model returns the record as the
  caller finds it afterwards, on success and on every error. The lemmas are proved once, in the
  locale \<open>ab_protocol\<close>, for every medium that meets \<open>ab_medium\<close> and every record type that meets
  \<open>ab_codec\<close>: no store, whatever fails in it, and no crash loses a generation that was
  acknowledged.
\<close>

record ab_store =
  st_a :: string
  st_b :: string
  st_max_len :: "nat option"

definition ab_store_new :: "string \<Rightarrow> string \<Rightarrow> ab_store" where
  "ab_store_new a b = \<lparr>st_a = a, st_b = b, st_max_len = None\<rparr>"

definition with_max_len :: "nat \<Rightarrow> ab_store \<Rightarrow> ab_store" where
  "with_max_len n st = st\<lparr>st_max_len := Some n\<rparr>"

definition ab_bound :: "'r ab_record \<Rightarrow> ab_store \<Rightarrow> nat" where
  "ab_bound R st =
     (case st_max_len st of None \<Rightarrow> ab_max_encoded_len R | Some mx \<Rightarrow> min mx (ab_max_encoded_len R))"

text \<open>The bounded read both \<open>read_copy\<close> and \<open>raw_generation\<close> do; \<open>None\<close> is an absent or invalid
  copy.\<close>

definition read_bounded :: "('s, 'h) backing \<Rightarrow> string \<Rightarrow> nat \<Rightarrow> ('s, format_error, bytes option) io" where
  "read_bounded B path bound =
     io_match (b_open B path False)
       (\<lambda>e. if e = NotFound then io_return None else io_fail (FormatIo e))
       (\<lambda>file.
     io_bind (io_fmt (f_len B file)) (\<lambda>len.
     if len = 0 \<or> bound < len then io_return None
     else io_match (f_read_at B file 0 len)
       (\<lambda>e. if e = UnexpectedEof then io_return None else io_fail (FormatIo e))
       (\<lambda>buf. io_return (Some buf))))"

definition read_copy ::
  "('s, 'h) backing \<Rightarrow> 'r ab_record \<Rightarrow> ab_store \<Rightarrow> string \<Rightarrow> ('s, format_error, ('r \<times> bytes) option) io" where
  "read_copy B R st path =
     io_bind (read_bounded B path (ab_bound R st)) (\<lambda>copy.
     io_return (Option.bind copy (\<lambda>buf.
       map_option (\<lambda>r. (r, buf)) (res_ok (ab_decode R buf)))))"

definition read_side ::
  "('s, 'h) backing \<Rightarrow> 'r ab_record \<Rightarrow> ab_store \<Rightarrow> string \<Rightarrow> ('s, format_error, 'r option) io" where
  "read_side B R st path =
     io_bind (read_copy B R st path) (\<lambda>copy. io_return (map_option fst copy))"

definition newest_of :: "'r ab_record \<Rightarrow> 'r option \<Rightarrow> 'r option \<Rightarrow> 'r option" where
  "newest_of R a b =
     (case (a, b) of
        (Some a, Some b) \<Rightarrow> Some (if ab_generation R b \<le> ab_generation R a then a else b)
      | (Some a, None) \<Rightarrow> Some a
      | (None, Some b) \<Rightarrow> Some b
      | (None, None) \<Rightarrow> None)"

definition ab_load :: "('s, 'h) backing \<Rightarrow> 'r ab_record \<Rightarrow> ab_store \<Rightarrow> ('s, format_error, 'r option) io" where
  "ab_load B R st =
     io_bind (read_side B R st (st_a st)) (\<lambda>a.
     io_bind (read_side B R st (st_b st)) (\<lambda>b.
     io_return (newest_of R a b)))"

definition raw_generation ::
  "('s, 'h) backing \<Rightarrow> (bytes \<Rightarrow> u32) \<Rightarrow> string \<Rightarrow> nat \<Rightarrow> ('s, format_error, u64 option) io" where
  "raw_generation B crc path max_len =
     io_bind (read_bounded B path max_len) (\<lambda>copy.
     io_return (Option.bind copy (\<lambda>buf. res_ok (raw_generation_decode crc buf))))"

definition ab_generations ::
  "('s, 'h) backing \<Rightarrow> (bytes \<Rightarrow> u32) \<Rightarrow> 'r ab_record \<Rightarrow> ab_store \<Rightarrow>
   ('s, format_error, u64 option \<times> u64 option) io" where
  "ab_generations B crc R st =
     io_bind (raw_generation B crc (st_a st) (ab_bound R st)) (\<lambda>ga.
     io_bind (raw_generation B crc (st_b st) (ab_bound R st)) (\<lambda>gb.
     io_return (ga, gb)))"

definition target_for :: "ab_store \<Rightarrow> u64 option \<Rightarrow> u64 option \<Rightarrow> string" where
  "target_for st ga gb =
     (case (ga, gb) of
        (None, _) \<Rightarrow> st_a st
      | (_, None) \<Rightarrow> st_b st
      | (Some ga, Some gb) \<Rightarrow> if ga \<le> gb then st_a st else st_b st)"

definition side_generations ::
  "('s, 'h) backing \<Rightarrow> 'r ab_record \<Rightarrow> ab_store \<Rightarrow> ('s, format_error, u64 option \<times> u64 option) io" where
  "side_generations B R st =
     io_bind (read_side B R st (st_a st)) (\<lambda>a.
     io_bind (read_side B R st (st_b st)) (\<lambda>b.
     io_return (map_option (ab_generation R) a, map_option (ab_generation R) b)))"

definition next_target_path ::
  "('s, 'h) backing \<Rightarrow> 'r ab_record \<Rightarrow> ab_store \<Rightarrow> ('s, format_error, string) io" where
  "next_target_path B R st =
     io_bind (side_generations B R st) (\<lambda>(ga, gb). io_return (target_for st ga gb))"

text \<open>\<open>ga.into_iter().chain(gb).max().unwrap_or(0)\<close>.\<close>

definition max_existing :: "u64 option \<Rightarrow> u64 option \<Rightarrow> u64" where
  "max_existing ga gb =
     (case (ga, gb) of
        (None, None) \<Rightarrow> 0 | (Some g, None) \<Rightarrow> g | (None, Some g) \<Rightarrow> g | (Some g, Some h) \<Rightarrow> max g h)"

text \<open>The part of \<open>store\<close> before the record is touched: choose the target, make the other valid
  copy durable, choose the generation.\<close>

definition store_preserve :: "('s, 'h) backing \<Rightarrow> (string \<times> bytes) option \<Rightarrow> ('s, format_error, unit) io" where
  "store_preserve B preserved =
     (case preserved of
        None \<Rightarrow> io_return ()
      | Some (path, bytes) \<Rightarrow>
          io_bind (io_fmt (b_open B path False)) (\<lambda>file.
          io_bind (io_fmt (write_image B file bytes)) (\<lambda>_.
          io_fmt (b_sync_dir B (parent path)))))"

definition store_prepare ::
  "('s, 'h) backing \<Rightarrow> (bytes \<Rightarrow> u32) \<Rightarrow> 'r ab_record \<Rightarrow> ab_store \<Rightarrow> 'r \<Rightarrow>
   ('s, format_error, string \<times> u64) io" where
  "store_prepare B crc R st rec =
     io_bind (ab_generations B crc R st) (\<lambda>(ga, gb).
     io_bind (read_copy B R st (st_a st)) (\<lambda>a.
     io_bind (read_copy B R st (st_b st)) (\<lambda>b.
     let ta = map_option (ab_generation R \<circ> fst) a;
         tb = map_option (ab_generation R \<circ> fst) b;
         target = target_for st ta tb;
         preserved = (if target = st_a st then map_option (\<lambda>(_, bytes). (st_b st, bytes)) b
                      else map_option (\<lambda>(_, bytes). (st_a st, bytes)) a)
     in
     io_bind (store_preserve B preserved) (\<lambda>_.
     io_bind (io_pure (ok_or (checked_add (max (max_existing ga gb) (ab_generation R rec)) 1)
       (Invalid ''A/B record generation space exhausted''))) (\<lambda>next_generation.
     io_return (target, next_generation))))))"

definition store_write ::
  "('s, 'h) backing \<Rightarrow> 'r ab_record \<Rightarrow> string \<Rightarrow> 'r \<Rightarrow> ('s, format_error, unit) io" where
  "store_write B R target rec =
     io_bind (io_pure (ab_encode R rec)) (\<lambda>bytes.
     io_bind (io_fmt (b_open B target True)) (\<lambda>file.
     io_fmt (write_image B file bytes)))"

definition store ::
  "('s, 'h) backing \<Rightarrow> (bytes \<Rightarrow> u32) \<Rightarrow> 'r ab_record \<Rightarrow> ab_store \<Rightarrow> 'r \<Rightarrow> 's \<Rightarrow>
   (format_error + unit) \<times> 'r \<times> 's" where
  "store B crc R st rec s =
     (case store_prepare B crc R st rec s of
        (Inl e, s') \<Rightarrow> (Inl e, rec, s')
      | (Inr (target, next_generation), s') \<Rightarrow>
          let rec' = ab_set_generation R next_generation rec in
          (case store_write B R target rec' s' of (r, s'') \<Rightarrow> (r, rec', s'')))"

text \<open>\<open>store.store(backing, &mut r)?\<close>: an error returns at once, otherwise the caller goes on with the
  updated record.\<close>

definition ab_put ::
  "('s, 'h) backing \<Rightarrow> (bytes \<Rightarrow> u32) \<Rightarrow> 'r ab_record \<Rightarrow> ab_store \<Rightarrow> 'r \<Rightarrow> ('s, format_error, 'r) io" where
  "ab_put B crc R st rec s =
     (case store B crc R st rec s of
        (Inl e, _, s') \<Rightarrow> (Inl e, s')
      | (Inr _, rec', s') \<Rightarrow> (Inr rec', s'))"

lemma ab_putE:
  assumes "ab_put B crc R st rec s = (r, s')"
  obtains (err) e rec' where "r = Inl e" and "store B crc R st rec s = (Inl e, rec', s')"
  | (ok) rec' where "r = Inr rec'" and "store B crc R st rec s = (Inr (), rec', s')"
  using assms by (auto simp: ab_put_def split: prod.splits sum.splits)

section \<open>Reading\<close>

text \<open>What a bounded read finds in a content.\<close>

definition bounded_content :: "nat \<Rightarrow> bytes option \<Rightarrow> bytes option" where
  "bounded_content bound c =
     Option.bind c (\<lambda>c. if c = [] \<or> bound < length c then None else Some c)"

definition copy_of :: "'r ab_record \<Rightarrow> ab_store \<Rightarrow> bytes option \<Rightarrow> ('r \<times> bytes) option" where
  "copy_of R st c =
     Option.bind (bounded_content (ab_bound R st) c) (\<lambda>buf.
       map_option (\<lambda>r. (r, buf)) (res_ok (ab_decode R buf)))"

lemma copy_of_SomeD:
  "copy_of R st c = Some (r, b) \<Longrightarrow> c = Some b \<and> b \<noteq> [] \<and> length b \<le> ab_bound R st \<and> ab_decode R b = Inr r"
  by (auto simp: copy_of_def bounded_content_def bind_eq_Some_conv split: if_splits)

context ab_medium
begin

lemma quiet_read_bounded: "quiet v (read_bounded B p bound) (\<lambda>x. x = bounded_content bound (v p))"
  unfolding read_bounded_def
proof (rule quiet_read)
  fix c h s r s'
  assume c: "v p = Some c" and s: "inv s" "view s = v" "opened s h p"
    and run: "(if length c = 0 \<or> bound < length c then io_return None
      else io_match (f_read_at B h 0 (length c))
        (\<lambda>e. if e = UnexpectedEof then io_return None else io_fail (FormatIo e))
        (\<lambda>buf. io_return (Some buf))) s = (r, s')"
  show "inv s' \<and> view s' = v \<and> settled s \<le> settled s' \<and> (\<forall>x. r = Inr x \<longrightarrow> x = bounded_content bound (v p))"
  proof (cases "length c = 0 \<or> bound < length c")
    case True
    then show ?thesis
      using run s c by (auto simp: bounded_content_def)
  next
    case False
    then have "io_match (f_read_at B h 0 (length c))
        (\<lambda>e. if e = UnexpectedEof then io_return None else io_fail (FormatIo e))
        (\<lambda>buf. io_return (Some buf)) s = (r, s')"
      using run by simp
    from quiet_read_at [OF s(1,3) _ this, of c "\<lambda>x. x = bounded_content bound (v p)"] show ?thesis
      using s c False by (auto simp: bounded_content_def)
  qed
qed (simp add: bounded_content_def)

lemma quiet_read_copy: "quiet v (read_copy B R st p) (\<lambda>x. x = copy_of R st (v p))"
  unfolding read_copy_def by (rule quiet_bind [OF quiet_read_bounded]) (auto simp: copy_of_def)

lemma quiet_read_side: "quiet v (read_side B R st p) (\<lambda>x. x = map_option fst (copy_of R st (v p)))"
  unfolding read_side_def by (rule quiet_bind [OF quiet_read_copy]) auto

definition raw_of :: "nat \<Rightarrow> (bytes \<Rightarrow> u32) \<Rightarrow> bytes option \<Rightarrow> u64 option" where
  "raw_of bound crc c =
     Option.bind (bounded_content bound c) (\<lambda>buf. res_ok (raw_generation_decode crc buf))"

lemma quiet_raw_generation:
  "quiet v (raw_generation B crc p bound) (\<lambda>x. x = raw_of bound crc (v p))"
  unfolding raw_generation_def by (rule quiet_bind [OF quiet_read_bounded]) (auto simp: raw_of_def)

lemma quiet_generations:
  "quiet v (ab_generations B crc R st) (\<lambda>x. x =
     (raw_of (ab_bound R st) crc (v (st_a st)), raw_of (ab_bound R st) crc (v (st_b st))))"
  unfolding ab_generations_def
  by (rule quiet_bind [OF quiet_raw_generation], rule quiet_bind [OF quiet_raw_generation]) auto

lemma quiet_load:
  "quiet v (ab_load B R st) (\<lambda>x. x = newest_of R (map_option fst (copy_of R st (v (st_a st))))
     (map_option fst (copy_of R st (v (st_b st)))))"
  unfolding ab_load_def
  by (rule quiet_bind [OF quiet_read_side], rule quiet_bind [OF quiet_read_side]) auto

text \<open>Everything \<open>store\<close> learns from the medium before it writes.\<close>

definition store_reads where
  "store_reads R crc st =
     io_bind (ab_generations B crc R st) (\<lambda>g.
     io_bind (read_copy B R st (st_a st)) (\<lambda>a.
     io_bind (read_copy B R st (st_b st)) (\<lambda>b. io_return (g, a, b))))"

lemma quiet_store_reads:
  "quiet v (store_reads R crc st) (\<lambda>x. x =
     ((raw_of (ab_bound R st) crc (v (st_a st)), raw_of (ab_bound R st) crc (v (st_b st))),
      copy_of R st (v (st_a st)), copy_of R st (v (st_b st))))"
  unfolding store_reads_def
  by (rule quiet_bind [OF quiet_generations], rule quiet_bind [OF quiet_read_copy],
      rule quiet_bind [OF quiet_read_copy]) auto

lemma preserve_spec:
  assumes "inv s" and "\<And>p c. pre = Some (p, c) \<Longrightarrow> view s p = Some c"
    and "store_preserve B pre s = (r, s')"
  shows "inv s' \<and> view s' = view s \<and> settled s \<le> settled s' \<and>
    (\<forall>p c. r = Inr () \<longrightarrow> pre = Some (p, c) \<longrightarrow> settled s' p c)"
proof (cases pre)
  case None
  then show ?thesis
    using assms by (simp add: store_preserve_def)
next
  case (Some pc)
  obtain p c where pre: "pre = Some (p, c)"
    using Some by (cases pc) auto
  have run: "io_bind (io_fmt (b_open B p False)) (\<lambda>file.
      io_bind (io_fmt (write_image B file c)) (\<lambda>_. io_fmt (b_sync_dir B (parent p)))) s = (r, s')"
    using assms(3) pre by (simp add: store_preserve_def)
  then show ?thesis
  proof (cases rule: io_bindE)
    case (err e)
    then obtain q where o: "b_open B p False s = (q, s')"
      by (auto elim: io_fmtE)
    then show ?thesis
      using assms(1) err open_settled by (auto intro: open_inv open_keep)
  next
    case (ok h s1)
    then have o: "b_open B p False s = (Inr h, s1)"
      by simp
    have s1: "inv s1" "view s1 = view s" "settled s \<le> settled s1" "opened s1 h p"
      "view s1 p = Some c"
      using assms(1) o open_keep [OF assms(1) o, of p] assms(2) pre open_settled [OF assms(1) o]
      by (auto intro: open_inv open_keep open_opened)
    from ok(2) show ?thesis
    proof (cases rule: io_bindE)
      case (err e)
      then obtain q where "write_image B h c s1 = (q, s')"
        by (auto elim: io_fmtE)
      then show ?thesis
        using write_image [OF s1(1,4)] rewrite_same [OF s1(1,4,5)] s1(2,3) err by (auto intro: order_trans)
    next
      case (ok u s2)
      then have w: "write_image B h c s1 = (Inr (), s2)"
        by simp
      note s2 = write_image [OF s1(1,4) w] rewrite_same [OF s1(1,4,5) w]
      obtain q where d: "b_sync_dir B (parent p) s2 = (q, s')" and r: "r = map_sum FormatIo id q"
        using ok(2) by (rule io_fmtE)
      have "inv s2" and "synced s2 p c"
        using s2 by simp_all
      then have "q = Inr () \<Longrightarrow> settled s' p c"
        using d sync_dir_settles by blast
      then show ?thesis
        using sync_dir_keep [OF \<open>inv s2\<close> d] s2 s1(2,3) r pre
        by (cases q) (auto intro: order_trans)
    qed
  qed
qed

lemma store_write_spec:
  assumes "inv s" and "store_write B R target rec s = (r, s')"
  shows "inv s' \<and> (\<forall>q. q \<noteq> target \<longrightarrow> view s' q = view s q) \<and>
    (\<forall>q c. q \<noteq> target \<longrightarrow> settled s q c \<longrightarrow> settled s' q c) \<and>
    (r = Inr () \<longrightarrow> (\<exists>b. ab_encode R rec = Inr b \<and> synced s' target b \<and> view s' target = Some b))"
proof (cases "ab_encode R rec")
  case (Inl e)
  then show ?thesis
    using assms by (auto simp: store_write_def io_bind_def)
next
  case (Inr b)
  then have "io_bind (io_fmt (b_open B target True)) (\<lambda>file. io_fmt (write_image B file b)) s = (r, s')"
    using assms(2) by (simp add: store_write_def io_bind_def)
  then show ?thesis
  proof (cases rule: io_bindE)
    case (err e)
    then obtain q where o: "b_open B target True s = (q, s')"
      by (auto elim: io_fmtE)
    then show ?thesis
      using assms(1) err open_settled [of s target True] by (auto intro: open_inv open_keep)
  next
    case (ok h s1)
    then have o: "b_open B target True s = (Inr h, s1)"
      by simp
    have s1: "inv s1" "opened s1 h target" "\<And>q. q \<noteq> target \<Longrightarrow> view s1 q = view s q"
      "settled s \<le> settled s1"
      using assms(1) o open_settled [OF assms(1) o] by (auto intro: open_inv open_opened open_keep)
    obtain q where w: "write_image B h b s1 = (q, s')" and r: "r = map_sum FormatIo id q"
      using ok(2) by (rule io_fmtE)
    show ?thesis
      using write_image [OF s1(1,2) w] s1(3,4) Inr r by (cases q) auto
  qed
qed

end

section \<open>The protocol\<close>

lemma checked_add_one_less: "checked_add (g :: u64) 1 = Some n \<Longrightarrow> g < n"
  by (auto simp: word_less_nat_alt dest!: checked_add_SomeD)


text \<open>Every history of one A/B pair: stores that succeed or fail anywhere, directory syncs, loads and
  crashes in any order. The last argument is the generation acknowledged last, by a store and a
  directory sync that both succeeded.\<close>

inductive ab_run ::
  "('s, 'h) backing \<Rightarrow> ('s \<Rightarrow> 's \<Rightarrow> bool) \<Rightarrow> (bytes \<Rightarrow> u32) \<Rightarrow> 'r ab_record \<Rightarrow> ('r \<Rightarrow> bool) \<Rightarrow> ab_store \<Rightarrow>
   's \<Rightarrow> 's \<Rightarrow> u64 option \<Rightarrow> bool"
  for B crash crc R wf st s0 where
  run_start: "ab_run B crash crc R wf st s0 s0 None"
| run_store: "ab_run B crash crc R wf st s0 s g \<Longrightarrow> store B crc R st rec s = (r, rec', s') \<Longrightarrow>
    ab_run B crash crc R wf st s0 s' g"
| run_ack: "ab_run B crash crc R wf st s0 s g \<Longrightarrow> wf rec \<Longrightarrow> store B crc R st rec s = (Inr (), rec', s') \<Longrightarrow>
    b_sync_dir B (parent (st_a st)) s' = (Inr (), s'') \<Longrightarrow>
    ab_run B crash crc R wf st s0 s'' (Some (ab_generation R rec'))"
| run_sync: "ab_run B crash crc R wf st s0 s g \<Longrightarrow> b_sync_dir B d s = (q, s') \<Longrightarrow>
    ab_run B crash crc R wf st s0 s' g"
| run_load: "ab_run B crash crc R wf st s0 s g \<Longrightarrow> ab_load B R st s = (x, s') \<Longrightarrow>
    ab_run B crash crc R wf st s0 s' g"
| run_crash: "ab_run B crash crc R wf st s0 s g \<Longrightarrow> crash s s' \<Longrightarrow> ab_run B crash crc R wf st s0 s' g"

text \<open>\<open>stable s p g\<close>: side \<open>p\<close> holds, safe from crashes, a valid record of generation at least
  \<open>g\<close>.\<close>

locale ab_protocol = ab_medium B inv view settled synced opened crash + ab_codec crc R wf
  for B :: "('s, 'h) backing" and inv and view and settled and synced and opened and crash
    and crc and R :: "'r ab_record" and wf +
  fixes st :: ab_store
  assumes paths: "st_a st \<noteq> st_b st"
    and same_dir: "parent (st_a st) = parent (st_b st)"
    and fits_bound: "wf r \<Longrightarrow> ab_encode R r = Inr b \<Longrightarrow> length b \<le> ab_bound R st"
begin

definition stable :: "'s \<Rightarrow> string \<Rightarrow> u64 \<Rightarrow> bool" where
  "stable s p g \<longleftrightarrow> (\<exists>c r. settled s p c \<and> copy_of R st (Some c) = Some (r, c) \<and> g \<le> ab_generation R r)"

definition side_generation :: "'s \<Rightarrow> string \<Rightarrow> u64 option" where
  "side_generation s p = map_option (ab_generation R \<circ> fst) (copy_of R st (view s p))"

lemma stable_side: "inv s \<Longrightarrow> stable s p g \<Longrightarrow> \<exists>h. side_generation s p = Some h \<and> g \<le> h"
  by (auto simp: stable_def side_generation_def settled_view)

lemma raw_of_side:
  assumes "side_generation s p = Some h"
  shows "raw_of (ab_bound R st) crc (view s p) = Some h"
proof -
  obtain r b where c: "copy_of R st (view s p) = Some (r, b)" and h: "h = ab_generation R r"
    using assms by (auto simp: side_generation_def)
  note b = copy_of_SomeD [OF c]
  then have "length b \<le> ab_max_encoded_len R"
    by (auto simp: ab_bound_def split: option.splits)
  then have "raw_generation_decode crc b = Inr h"
    using b h decode_raw [of b r] by simp
  then show ?thesis
    using b by (simp add: raw_of_def bounded_content_def)
qed

lemma side_le_max:
  "side_generation s (st_a st) = Some h \<or> side_generation s (st_b st) = Some h \<Longrightarrow>
   h \<le> max_existing (raw_of (ab_bound R st) crc (view s (st_a st)))
     (raw_of (ab_bound R st) crc (view s (st_b st)))"
  using raw_of_side [of s "st_a st"] raw_of_side [of s "st_b st"]
  by (auto simp: max_existing_def split: option.splits)

text \<open>The other side of a target, and what \<open>store\<close> preserves there.\<close>

definition other :: "string \<Rightarrow> string" where
  "other p = (if p = st_a st then st_b st else st_a st)"

definition target :: "'s \<Rightarrow> string" where
  "target s = target_for st (side_generation s (st_a st)) (side_generation s (st_b st))"

definition preserved :: "'s \<Rightarrow> (string \<times> bytes) option" where
  "preserved s = map_option (\<lambda>(x, bytes). (other (target s), bytes)) (copy_of R st (view s (other (target s))))"

lemma target_other: "other (target s) \<noteq> target s" "target s = st_a st \<or> target s = st_b st"
  using paths by (auto simp: target_def target_for_def other_def split: option.splits if_splits)

lemma preserved_view: "preserved s = Some (p, c) \<Longrightarrow> view s p = Some c"
  by (auto simp: preserved_def dest: copy_of_SomeD)

lemma store_prepare_eq:
  assumes "store_reads R crc st s =
    (Inr ((ga, gb), copy_of R st (view s (st_a st)), copy_of R st (view s (st_b st))), s1)"
  shows "store_prepare B crc R st rec s =
    io_bind (store_preserve B (preserved s)) (\<lambda>_.
    io_bind (io_pure (ok_or (checked_add (max (max_existing ga gb) (ab_generation R rec)) 1)
      (Invalid ''A/B record generation space exhausted''))) (\<lambda>next_generation.
    io_return (target s, next_generation))) s1"
proof -
  let ?a = "copy_of R st (view s (st_a st))" and ?b = "copy_of R st (view s (st_b st))"
  have "(if target s = st_a st then map_option (\<lambda>(_, bytes). (st_b st, bytes)) ?b
      else map_option (\<lambda>(_, bytes). (st_a st, bytes)) ?a) = preserved s"
    using target_other(2) [of s] by (auto simp: preserved_def other_def)
  moreover have "target_for st (map_option (ab_generation R \<circ> fst) ?a)
      (map_option (ab_generation R \<circ> fst) ?b) = target s"
    by (simp add: target_def side_generation_def)
  ultimately show ?thesis
    using assms unfolding store_reads_def store_prepare_def
    by (elim io_bind_InrE) (simp add: io_bind_def Let_def)
qed

lemma prepare_spec:
  assumes "inv s" and "store_prepare B crc R st rec s = (r, s')"
  shows "inv s'" and "view s' = view s" and "settled s \<le> settled s'"
    and "r = Inr (t, n) \<Longrightarrow> t = target s"
    and "r = Inr (t, n) \<Longrightarrow> preserved s = Some (p, c) \<Longrightarrow> settled s' p c"
    and "r = Inr (t, n) \<Longrightarrow> ab_generation R rec < n"
    and "r = Inr (t, n) \<Longrightarrow> side_generation s (st_a st) = Some h \<or> side_generation s (st_b st) = Some h \<Longrightarrow> h < n"
proof -
  let ?g = "\<lambda>p. raw_of (ab_bound R st) crc (view s p)"
  let ?m = "max (max_existing (?g (st_a st)) (?g (st_b st))) (ab_generation R rec)"
  have "inv s' \<and> view s' = view s \<and> settled s \<le> settled s' \<and> (r = Inr (t, n) \<longrightarrow> t = target s \<and>
      (\<forall>p c. preserved s = Some (p, c) \<longrightarrow> settled s' p c) \<and> checked_add ?m 1 = Some n)" for t n
  proof (cases "store_reads R crc st s")
    case (Pair q s1)
    note q = quietD [OF quiet_store_reads assms(1) Pair]
    show ?thesis
    proof (cases q)
      case (Inl e)
      have "store_prepare B crc R st rec s = (Inl e, s1)"
        using Pair unfolding Inl store_reads_def store_prepare_def
        by (auto simp: io_bind_def split: prod.splits sum.splits)
      then show ?thesis
        using assms(2) q by simp
    next
      case (Inr x)
      with q Pair have "store_reads R crc st s =
          (Inr ((?g (st_a st), ?g (st_b st)), copy_of R st (view s (st_a st)), copy_of R st (view s (st_b st))), s1)"
        by simp
      note run = assms(2)[unfolded store_prepare_eq [OF this]]
      have inv1: "inv s1" and pv: "\<And>p c. preserved s = Some (p, c) \<Longrightarrow> view s1 p = Some c"
        using q preserved_view by auto
      have pres: "inv s2 \<and> view s2 = view s1 \<and> settled s1 \<le> settled s2 \<and>
          (\<forall>p c. q = Inr () \<longrightarrow> preserved s = Some (p, c) \<longrightarrow> settled s2 p c)"
        if "store_preserve B (preserved s) s1 = (q, s2)" for q s2
        by (rule preserve_spec [OF inv1 _ that]) (rule pv)
      from run show ?thesis
      proof (cases rule: io_bindE)
        case (err e)
        from pres [OF err(1)] show ?thesis
          using q err(2) by auto
      next
        case (ok u s2)
        then show ?thesis
          using pres [of "Inr ()" s2] q
          by (cases "checked_add ?m 1") (auto simp: io_bind_def intro: order_trans)
      qed
    qed
  qed
  note spec = this
  show "inv s'" "view s' = view s" "settled s \<le> settled s'" "r = Inr (t, n) \<Longrightarrow> t = target s"
    "r = Inr (t, n) \<Longrightarrow> preserved s = Some (p, c) \<Longrightarrow> settled s' p c"
    using spec by blast+
  assume "r = Inr (t, n)"
  then have "?m < n"
    using spec checked_add_one_less by blast
  then show "ab_generation R rec < n"
    and "side_generation s (st_a st) = Some h \<or> side_generation s (st_b st) = Some h \<Longrightarrow> h < n"
    using side_le_max [of s h] by (auto intro: le_less_trans)
qed

text \<open>A stable target is only overwritten when the preserved side is at least as new.\<close>

lemma other_newer:
  "side_generation s (target s) = Some h \<Longrightarrow> \<exists>k. side_generation s (other (target s)) = Some k \<and> h \<le> k"
  using paths by (auto simp: target_def target_for_def other_def split: option.splits if_splits)

lemma preserved_new:
  assumes "inv s" and "stable s (target s) g"
  obtains x c where "preserved s = Some (other (target s), c)"
    and "copy_of R st (Some c) = Some (x, c)" and "g \<le> ab_generation R x"
proof -
  obtain h where h: "side_generation s (target s) = Some h" "g \<le> h"
    using stable_side [OF assms] by blast
  then obtain k where "side_generation s (other (target s)) = Some k" "g \<le> k"
    using other_newer order_trans by blast
  then obtain x c where x: "copy_of R st (view s (other (target s))) = Some (x, c)" "g \<le> ab_generation R x"
    by (auto simp: side_generation_def)
  then show thesis
    using copy_of_SomeD [OF x(1)] by (intro that [of c x]) (simp_all add: preserved_def)
qed

text \<open>The invariant: some side is stable at the acknowledged generation.\<close>

definition safe :: "'s \<Rightarrow> u64 option \<Rightarrow> bool" where
  "safe s acked \<longleftrightarrow> inv s \<and> (\<forall>g. acked = Some g \<longrightarrow> stable s (st_a st) g \<or> stable s (st_b st) g)"

lemma safe_mono: "safe s g \<Longrightarrow> inv s' \<Longrightarrow> settled s \<le> settled s' \<Longrightarrow> safe s' g"
  unfolding safe_def stable_def by blast

text \<open>What any store leaves behind, failed or not: either nothing settled was touched, or the target
  was, with the preserved copy settled before.\<close>

lemma store_effect:
  assumes "inv s" and "store B crc R st rec s = (r, rec', s')"
  shows "inv s'"
    and "settled s (other (target s)) c \<Longrightarrow> settled s' (other (target s)) c"
    and "settled s \<le> settled s' \<or> (\<forall>p c. preserved s = Some (p, c) \<longrightarrow> settled s' p c)"
proof -
  have "inv s' \<and> (\<forall>c. settled s (other (target s)) c \<longrightarrow> settled s' (other (target s)) c) \<and>
    (settled s \<le> settled s' \<or> (\<forall>p c. preserved s = Some (p, c) \<longrightarrow> settled s' p c))"
  proof (cases "store_prepare B crc R st rec s")
    case (Pair q s1)
    note s1 = prepare_spec [OF assms(1) Pair]
    show ?thesis
    proof (cases q)
      case (Inl e)
      then have "s' = s1"
        using assms(2) Pair by (simp add: store_def)
      then show ?thesis
        using s1(1,3) by blast
    next
      case (Inr tn)
      obtain t n where tn: "tn = (t, n)"
        by (cases tn)
      then have t: "t = target s" and q: "q = Inr (target s, n)"
        using s1(4) Inr by auto
      have w: "store_write B R (target s) (ab_set_generation R n rec) s1 = (r, s')"
        using assms(2) Pair Inr tn t by (auto simp: store_def Let_def split: prod.splits)
      note w' = store_write_spec [OF s1(1) w]
      have keep: "settled s' (other (target s)) c" if "settled s1 (other (target s)) c" for c
        using w' that target_other(1) [of s] by blast
      have "settled s' p c" if pre: "preserved s = Some (p, c)" for p c
      proof -
        have "p = other (target s)"
          using pre by (auto simp: preserved_def)
        then show ?thesis
          using keep s1(5) [OF q pre] by simp
      qed
      moreover have "settled s' (other (target s)) c" if "settled s (other (target s)) c" for c
        using keep rev_predicate2D [OF that s1(3)] by simp
      ultimately show ?thesis
        using w' by blast
    qed
  qed
  then show "inv s'" "settled s (other (target s)) c \<Longrightarrow> settled s' (other (target s)) c"
    "settled s \<le> settled s' \<or> (\<forall>p c. preserved s = Some (p, c) \<longrightarrow> settled s' p c)"
    by blast+
qed

lemma store_safe:
  assumes "safe s acked" and "store B crc R st rec s = (r, rec', s')"
  shows "safe s' acked"
proof -
  have inv: "inv s"
    using assms(1) by (simp add: safe_def)
  note s' = store_effect [OF inv assms(2)]
  have "stable s' (st_a st) g \<or> stable s' (st_b st) g" if g: "stable s (st_a st) g \<or> stable s (st_b st) g" for g
  proof -
    consider "settled s \<le> settled s'" | "stable s (other (target s)) g"
      | "stable s (target s) g" "\<forall>p c. preserved s = Some (p, c) \<longrightarrow> settled s' p c"
      using g s'(3) target_other(2) [of s] by (auto simp: other_def split: if_splits)
    then have "settled s \<le> settled s' \<or> stable s' (other (target s)) g"
    proof cases
      case 2
      then show ?thesis
        using s'(2) unfolding stable_def by blast
    next
      case 3
      then obtain x c where "preserved s = Some (other (target s), c)"
        "copy_of R st (Some c) = Some (x, c)" "g \<le> ab_generation R x"
        using preserved_new [OF inv] by blast
      then show ?thesis
        using 3(2) by (auto simp: stable_def)
    qed simp
    moreover have "stable s' p g" if "stable s p g" and "settled s \<le> settled s'" for p
      using that unfolding stable_def by blast
    ultimately show ?thesis
      using g by (auto simp: other_def split: if_splits)
  qed
  then show ?thesis
    using assms(1) s'(1) by (simp add: safe_def)
qed

text \<open>A successful store: the target now holds the new record, whose generation exceeds every
  valid copy's, and the other side is as before, settled if it was valid.\<close>

lemma store_ok:
  assumes "inv s" and "wf rec" and "store B crc R st rec s = (Inr (), rec', s')"
  obtains b where "ab_encode R rec' = Inr b" and "wf rec'" and "inv s'"
    and "synced s' (target s) b" and "view s' (target s) = Some b"
    and "view s' (other (target s)) = view s (other (target s))"
    and "\<And>p c. preserved s = Some (p, c) \<Longrightarrow> settled s' p c"
    and "\<And>h. side_generation s (st_a st) = Some h \<or> side_generation s (st_b st) = Some h \<Longrightarrow>
      h < ab_generation R rec'"
    and "ab_generation R rec < ab_generation R rec'"
    and "rec' = ab_set_generation R (ab_generation R rec') rec"
proof -
  obtain t n s1 where p: "store_prepare B crc R st rec s = (Inr (t, n), s1)"
    and w: "store_write B R t (ab_set_generation R n rec) s1 = (Inr (), s')"
    and rec': "rec' = ab_set_generation R n rec"
    using assms(3) by (auto simp: store_def Let_def split: prod.splits sum.splits)
  note s1 = prepare_spec [OF assms(1) p]
  have t: "t = target s"
    using s1(4) by simp
  note s2 = store_write_spec [OF s1(1) w]
  have n: "ab_generation R rec' = n"
    by (simp add: rec' generation_set)
  obtain b where b: "ab_encode R rec' = Inr b" "synced s' (target s) b" "view s' (target s) = Some b"
    using s2 rec' t by blast
  show thesis
  proof (rule that [OF b(1) _ _ b(2,3)])
    show "settled s' p c" if "preserved s = Some (p, c)" for p c
    proof -
      have "p = other (target s)"
        using that by (auto simp: preserved_def)
      then show ?thesis
        using s1(5) [OF refl that] s2 t target_other(1) [of s] by auto
    qed
    show "h < ab_generation R rec'"
      if "side_generation s (st_a st) = Some h \<or> side_generation s (st_b st) = Some h" for h
      using s1(7) [OF refl that] n by simp
    show "view s' (other (target s)) = view s (other (target s))"
      using s1(2) s2 t target_other(1) [of s] by simp
    show "ab_generation R rec < ab_generation R rec'"
      using s1(6) n by simp
  qed (use s2 n rec' assms(2) wf_set in auto)
qed

lemma copy_of_encoded:
  "wf r \<Longrightarrow> ab_encode R r = Inr b \<Longrightarrow> copy_of R st (Some b) = Some (r, b)"
  using encode_Inr [of r b] encode_size [of r b] fits_bound [of r b]
  by (auto simp: copy_of_def bounded_content_def)

text \<open>A side that carries a record newer than whatever the other side holds: the next store goes to
  the other side and settles this one first.\<close>

definition newest_at :: "'s \<Rightarrow> string \<Rightarrow> 'r \<Rightarrow> bytes \<Rightarrow> bool" where
  "newest_at s t r b \<longleftrightarrow> (t = st_a st \<or> t = st_b st) \<and> wf r \<and> ab_encode R r = Inr b \<and> view s t = Some b \<and>
     (\<forall>k. side_generation s (other t) = Some k \<longrightarrow> k < ab_generation R r)"

lemma newest_at_view: "view s' = view s \<Longrightarrow> newest_at s' t r b = newest_at s t r b"
  by (simp add: newest_at_def side_generation_def)

lemma other_other: "t = st_a st \<or> t = st_b st \<Longrightarrow> other (other t) = t"
  using paths by (auto simp: other_def)

lemma put_newest:
  assumes "inv s" and "wf rec" and "ab_put B crc R st rec s = (Inr rec', s')"
  obtains t b where "newest_at s' t rec' b" and "synced s' t b" and "inv s'"
    and "rec' = ab_set_generation R (ab_generation R rec') rec"
proof -
  have run: "store B crc R st rec s = (Inr (), rec', s')"
    using assms(3) by (cases rule: ab_putE) auto
  obtain b where b: "ab_encode R rec' = Inr b" "wf rec'" "inv s'" "synced s' (target s) b"
    "view s' (target s) = Some b" "view s' (other (target s)) = view s (other (target s))"
    "rec' = ab_set_generation R (ab_generation R rec') rec"
    and gen: "\<And>h. side_generation s (st_a st) = Some h \<or> side_generation s (st_b st) = Some h \<Longrightarrow>
      h < ab_generation R rec'"
    using store_ok [OF assms(1,2) run] by metis
  have "k < ab_generation R rec'" if "side_generation s' (other (target s)) = Some k" for k
    using gen [of k] that b(6) by (auto simp: side_generation_def other_def split: if_splits)
  then have "newest_at s' (target s) rec' b"
    using b target_other(2) [of s] by (simp add: newest_at_def)
  then show thesis
    using b that by blast
qed

lemma put_again:
  assumes "inv s" and "newest_at s t rec b" and "ab_put B crc R st rec s = (Inr rec', s')"
  obtains b' where "settled s' t b" and "synced s' (other t) b'" and "ab_encode R rec' = Inr b'" and "wf rec'"
    and "inv s'" and "rec' = ab_set_generation R (ab_generation R rec') rec"
    and "ab_generation R rec < ab_generation R rec'"
proof -
  have run: "store B crc R st rec s = (Inr (), rec', s')"
    using assms(3) by (cases rule: ab_putE) auto
  have t: "t = st_a st \<or> t = st_b st" and wf: "wf rec" and b: "ab_encode R rec = Inr b" "view s t = Some b"
    and older: "\<And>k. side_generation s (other t) = Some k \<Longrightarrow> k < ab_generation R rec"
    using assms(2) by (auto simp: newest_at_def)
  have copy: "copy_of R st (view s t) = Some (rec, b)"
    using copy_of_encoded [OF wf b(1)] b(2) by simp
  then have gen: "side_generation s t = Some (ab_generation R rec)"
    by (simp add: side_generation_def)
  then have target: "target s = other t"
    using t older paths by (cases "side_generation s (other t)")
      (fastforce simp: target_def target_for_def other_def split: if_splits)+
  have "preserved s = Some (t, b)"
    using copy other_other [OF t] by (simp add: preserved_def target)
  moreover obtain b' where "ab_encode R rec' = Inr b'" "wf rec'" "inv s'" "synced s' (target s) b'"
    "\<And>p c. preserved s = Some (p, c) \<Longrightarrow> settled s' p c"
    "rec' = ab_set_generation R (ab_generation R rec') rec" "ab_generation R rec < ab_generation R rec'"
    using store_ok [OF assms(1) wf run] gen t by metis
  ultimately show thesis
    using that target by metis
qed

text \<open>Two puts in a row, the way a pair is created: the record sits on one side, then on both.\<close>

definition placed :: "'s \<Rightarrow> 'r \<Rightarrow> bool" where
  "placed s r \<longleftrightarrow> (\<exists>t b. newest_at s t r b \<and> synced s t b)"

definition pair :: "('s \<Rightarrow> string \<Rightarrow> bytes \<Rightarrow> bool) \<Rightarrow> 's \<Rightarrow> 'r \<Rightarrow> 'r \<Rightarrow> bool" where
  "pair holds s r r' \<longleftrightarrow> (\<exists>t b b'. (t = st_a st \<or> t = st_b st) \<and> wf r \<and> wf r' \<and>
     ab_encode R r = Inr b \<and> ab_encode R r' = Inr b' \<and> ab_generation R r < ab_generation R r' \<and>
     r' = ab_set_generation R (ab_generation R r') r \<and> settled s t b \<and> holds s (other t) b')"

lemma put_inv: "inv s \<Longrightarrow> ab_put B crc R st rec s = (r, s') \<Longrightarrow> inv s'"
  by (auto elim!: ab_putE dest: store_effect(1))

lemma put_placed:
  assumes "wf rec"
  shows "triple inv (ab_put B crc R st rec)
    (\<lambda>r s. inv s \<and> placed s r \<and> r = ab_set_generation R (ab_generation R r) rec) inv"
proof (rule tripleI)
  fix s x s'
  assume s: "inv s" and run: "ab_put B crc R st rec s = (Inr x, s')"
  from s assms run show "inv s' \<and> placed s' x \<and> x = ab_set_generation R (ab_generation R x) rec"
    by (rule put_newest) (auto simp: placed_def)
qed (rule put_inv)

lemma put_pair:
  "triple (\<lambda>s. inv s \<and> placed s r) (ab_put B crc R st r) (\<lambda>r' s. inv s \<and> pair synced s r r') inv"
proof (rule tripleI)
  fix s x s'
  assume s: "inv s \<and> placed s r" and run: "ab_put B crc R st r s = (Inr x, s')"
  then obtain t b where t: "newest_at s t r b"
    by (auto simp: placed_def)
  obtain b' where "settled s' t b" "synced s' (other t) b'" "ab_encode R x = Inr b'" "wf x" "inv s'"
    "x = ab_set_generation R (ab_generation R x) r" "ab_generation R r < ab_generation R x"
    using conjunct1 [OF s] t run by (rule put_again)
  then show "inv s' \<and> pair synced s' r x"
    using t unfolding pair_def newest_at_def by blast
next
  fix s e s'
  assume "inv s \<and> placed s r" and "ab_put B crc R st r s = (Inl e, s')"
  then show "inv s'"
    using put_inv by blast
qed

lemma pair_settles:
  assumes "inv s" and "pair synced s r r'" and "b_sync_dir B (parent (st_a st)) s = (Inr (), s')"
  shows "pair settled s' r r'"
proof -
  obtain t b b' where t: "t = st_a st \<or> t = st_b st" "settled s t b" "synced s (other t) b'"
    and facts: "wf r" "wf r'" "ab_encode R r = Inr b" "ab_encode R r' = Inr b'"
      "ab_generation R r < ab_generation R r'" "r' = ab_set_generation R (ab_generation R r') r"
    using assms(2) by (auto simp: pair_def)
  have "parent (other t) = parent (st_a st)"
    using same_dir by (auto simp: other_def)
  then have "settled s' (other t) b'"
    using sync_dir_settles [OF assms(1) t(3)] assms(3) by simp
  moreover have "settled s' t b"
    using sync_dir_keep [OF assms(1,3)] t(2) by blast
  ultimately show ?thesis
    using t(1) facts unfolding pair_def by blast
qed

text \<open>What a pair makes a load return.\<close>

lemma pair_load:
  assumes "inv s" and "pair settled s r r'" and "ab_load B R st s = (Inr x, s')"
  shows "x = Some r'"
proof -
  obtain t b b' where t: "t = st_a st \<or> t = st_b st" "settled s t b" "settled s (other t) b'"
    and enc: "wf r" "wf r'" "ab_encode R r = Inr b" "ab_encode R r' = Inr b'"
      "ab_generation R r < ab_generation R r'"
    using assms(2) by (auto simp: pair_def)
  have "copy_of R st (view s t) = Some (r, b)" "copy_of R st (view s (other t)) = Some (r', b')"
    using copy_of_encoded [OF enc(1,3)] copy_of_encoded [OF enc(2,4)]
      settled_view [OF assms(1) t(2)] settled_view [OF assms(1) t(3)] by simp_all
  moreover have "x = newest_of R (map_option fst (copy_of R st (view s (st_a st))))
      (map_option fst (copy_of R st (view s (st_b st))))"
    using quietD [OF quiet_load assms(1,3)] by simp
  ultimately show ?thesis
    using t(1) enc(5) by (auto simp: newest_of_def other_def split: if_splits)
qed

lemma store_ack:
  assumes "inv s" and "wf rec" and "store B crc R st rec s = (Inr (), rec', s')"
    and "b_sync_dir B (parent (st_a st)) s' = (Inr (), s'')"
  shows "safe s'' (Some (ab_generation R rec'))"
proof -
  obtain b where b: "ab_encode R rec' = Inr b" "wf rec'" "inv s'" "synced s' (target s) b"
    using assms(1-3) by (rule store_ok)
  have "parent (target s) = parent (st_a st)"
    using target_other(2) [of s] same_dir by auto
  then have "settled s'' (target s) b"
    using sync_dir_settles [OF b(3,4)] assms(4) by simp
  then have "stable s'' (target s) (ab_generation R rec')"
    using copy_of_encoded [OF b(2,1)] by (auto simp: stable_def)
  then show ?thesis
    using target_other(2) [of s] sync_dir_keep [OF b(3) assms(4)] by (auto simp: safe_def)
qed

lemma run_safe:
  assumes "ab_run B crash crc R wf st s0 s g" and "inv s0"
  shows "safe s g"
  using assms
proof (induction rule: ab_run.induct)
  case run_start
  then show ?case by (simp add: safe_def)
next
  case (run_store s g rec r rec' s')
  then show ?case using store_safe by blast
next
  case (run_ack s g rec rec' s' s'')
  have "inv s"
    using run_ack.IH [OF run_ack.prems] by (simp add: safe_def)
  then show ?case
    using run_ack.hyps(2-4) by (rule store_ack)
next
  case (run_sync s g d q s')
  have safe: "safe s g"
    by (rule run_sync.IH [OF run_sync.prems])
  then have "inv s"
    by (simp add: safe_def)
  from sync_dir_keep [OF this run_sync.hyps(2)] show ?case
    by (intro safe_mono [OF safe]) auto
next
  case (run_load s g x s')
  have safe: "safe s g"
    by (rule run_load.IH [OF run_load.prems])
  then have "inv s"
    by (simp add: safe_def)
  from quietD [OF quiet_load this run_load.hyps(2)] show ?case
    by (intro safe_mono [OF safe]) simp_all
next
  case (run_crash s g s')
  have safe: "safe s g"
    by (rule run_crash.IH [OF run_crash.prems])
  then have "inv s"
    by (simp add: safe_def)
  then show ?case
    using crash_inv [OF _ run_crash.hyps(2)] crash_settled [OF _ run_crash.hyps(2)]
    by (intro safe_mono [OF safe]) auto
qed

lemma load_acked:
  assumes "safe s (Some g)" and "ab_load B R st s = (Inr x, s')"
  shows "\<exists>r. x = Some r \<and> g \<le> ab_generation R r"
proof -
  have inv: "inv s" and "stable s (st_a st) g \<or> stable s (st_b st) g"
    using assms(1) by (simp_all add: safe_def)
  then obtain h where "side_generation s (st_a st) = Some h \<or> side_generation s (st_b st) = Some h"
    and "g \<le> h"
    using stable_side by blast
  moreover have "x = newest_of R (map_option fst (copy_of R st (view s (st_a st))))
      (map_option fst (copy_of R st (view s (st_b st))))"
    using quietD [OF quiet_load inv assms(2)] by simp
  ultimately show ?thesis
    by (auto simp: newest_of_def side_generation_def split: option.splits)
qed

end

section \<open>What a store leaves alone\<close>

context ab_directory
begin

lemma read_bounded_modifies: "modifies {p} (read_bounded B p n)"
  unfolding read_bounded_def
  by (intro modifies_open_then uses_bind uses_fmt uses_ops uses_if uses_match uses_basic modifies_if modifies_basic)

lemma store_modifies:
  shows "modifies {st_a st, st_b st} (store_prepare B crc R st rec)"
    and "t = st_a st \<or> t = st_b st \<Longrightarrow> modifies {st_a st, st_b st} (store_write B R t rec)"
proof -
  have read: "modifies {st_a st, st_b st} (read_bounded B p n)" if "p \<in> {st_a st, st_b st}" for p n
    by (rule modifies_mono [OF read_bounded_modifies]) (use that in auto)
  have assoc: "io_bind m (\<lambda>x. io_bind (f x) g) = io_bind (io_bind m f) g" for m :: "('s, format_error, 'c) io"
    and f :: "'c \<Rightarrow> ('s, format_error, unit) io" and g :: "unit \<Rightarrow> ('s, format_error, unit) io"
    by (auto simp: fun_eq_iff io_bind_def split: prod.split sum.split)
  have pres: "modifies {st_a st, st_b st} (store_preserve B (Some (p, c)))" if "p \<in> {st_a st, st_b st}" for p c
  proof -
    have "modifies {p} (io_bind (io_bind (io_fmt (b_open B p False)) (\<lambda>file. io_fmt (write_image B file c)))
        (\<lambda>_. io_fmt (b_sync_dir B (parent p))))"
      by (intro modifies_bind modifies_open uses_fmt uses_write_image modifies_fmt modifies_ops)
    then show ?thesis
      unfolding store_preserve_def using that by (auto simp: assoc intro: modifies_mono)
  qed
  have pres': "modifies {st_a st, st_b st} (store_preserve B pre)"
    if "\<And>p c. pre = Some (p, c) \<Longrightarrow> p \<in> {st_a st, st_b st}" for pre
    using pres that by (cases pre) (auto simp: store_preserve_def)
  show "modifies {st_a st, st_b st} (store_prepare B crc R st rec)"
    unfolding store_prepare_def ab_generations_def raw_generation_def read_copy_def Let_def split_beta
    by (intro modifies_bind read modifies_basic pres') (auto split: if_splits)
  show "modifies {st_a st, st_b st} (store_write B R t rec)" if "t = st_a st \<or> t = st_b st"
    unfolding store_write_def
    by (intro modifies_bind modifies_basic modifies_mono [OF modifies_open] uses_fmt uses_write_image) (use that in auto)
qed

lemma put_modifies: "modifies {st_a st, st_b st} (ab_put B crc R st rec)"
  unfolding modifies_def
proof (intro allI impI)
  fix s r s'
  assume inv: "inv s" and "ab_put B crc R st rec s = (r, s')"
  then obtain q rec' where run: "store B crc R st rec s = (q, rec', s')"
    by (auto elim: ab_putE)
  show "kept {st_a st, st_b st} s s'"
  proof (cases "store_prepare B crc R st rec s")
    case (Pair x s1)
    have k: "kept {st_a st, st_b st} s s1"
      by (rule modifiesD [OF store_modifies(1) inv Pair])
    show ?thesis
    proof (cases x)
      case (Inl e)
      then show ?thesis
        using run Pair k by (simp add: store_def)
    next
      case (Inr tn)
      obtain t n where tn: "tn = (t, n)"
        by (cases tn)
      have t: "t = st_a st \<or> t = st_b st"
        using Pair Inr tn by (auto simp: store_prepare_def Let_def target_for_def elim!: io_bind_InrE
            split: option.splits if_splits)
      have "store_write B R t (ab_set_generation R n rec) s1 = (q, s')"
        using run Pair Inr tn by (auto simp: store_def Let_def split: prod.splits)
      from modifiesD [OF store_modifies(2) [OF t] kept_inv [OF k] this] k show ?thesis
        using kept_trans by blast
    qed
  qed
qed

end

end
