(* ===== verification/Mem_Backing.thy ===== *)
theory Mem_Backing
  imports Directory Layout "HOL-Library.Finite_Map" "HOL-Library.List_Lexorder" "HOL-Library.Char_ord"
begin

text \<open>
  The in-memory backing of \<open>crates/maki-backing/src/mem.rs\<close>. A file's shared byte vector is a cell
  of a heap, so that a handle keeps its content across removal and renaming of the name it was
  opened by. All operations are durable at once.
\<close>

record mem_state =
  mb_files :: "(string, nat) fmap"
  mb_cells :: "nat \<Rightarrow> bytes"
  mb_next :: nat
  mb_dirs :: "string fset"
  mb_locks :: "string fset"

definition mem_new :: mem_state where
  "mem_new = \<lparr>mb_files = fmempty, mb_cells = (\<lambda>_. []), mb_next = 0, mb_dirs = {||}, mb_locks = {||}\<rparr>"

definition usize_overflow :: "nat \<Rightarrow> bool" where
  "usize_overflow n \<longleftrightarrow> 2 ^ 64 \<le> n"

definition mem_read_at :: "nat \<Rightarrow> nat \<Rightarrow> nat \<Rightarrow> (mem_state, io_error, bytes) io" where
  "mem_read_at h offset len s =
     (let data = mb_cells s h in
      if usize_overflow (offset + len) then (Inl InvalidInput, s)
      else if length data < offset + len then (Inl UnexpectedEof, s)
      else (Inr (take len (drop offset data)), s))"

definition mem_write_at :: "nat \<Rightarrow> nat \<Rightarrow> bytes \<Rightarrow> (mem_state, io_error, unit) io" where
  "mem_write_at h offset src s =
     (if usize_overflow (offset + length src) then (Inl InvalidInput, s)
      else (Inr (), s\<lparr>mb_cells := (mb_cells s)(h := overwrite offset src (mb_cells s h))\<rparr>))"

definition mem_set_len :: "nat \<Rightarrow> nat \<Rightarrow> (mem_state, io_error, unit) io" where
  "mem_set_len h len s = (Inr (), s\<lparr>mb_cells := (mb_cells s)(h := resize len (mb_cells s h))\<rparr>)"

definition mem_punch_hole :: "nat \<Rightarrow> nat \<Rightarrow> nat \<Rightarrow> (mem_state, io_error, unit) io" where
  "mem_punch_hole h offset len s =
     (if len = 0 then (Inr (), s)
      else if usize_overflow (offset + len) then (Inl InvalidInput, s)
      else
        let data = mb_cells s h in
        if length data \<le> offset then (Inr (), s)
        else
          let stop = min (offset + len) (length data) in
          (Inr (), s\<lparr>mb_cells := (mb_cells s)(h := overwrite offset (replicate (stop - offset) 0) data)\<rparr>))"

definition mem_len :: "nat \<Rightarrow> (mem_state, io_error, nat) io" where
  "mem_len h s = (Inr (length (mb_cells s h)), s)"

definition mem_sync_data :: "nat \<Rightarrow> (mem_state, io_error, unit) io" where
  "mem_sync_data h s = (Inr (), s)"

definition mem_open :: "string \<Rightarrow> bool \<Rightarrow> (mem_state, io_error, nat) io" where
  "mem_open path create s =
     (case validate path False of
        Inl e \<Rightarrow> (Inl e, s)
      | Inr _ \<Rightarrow>
          (case fmlookup (mb_files s) path of
             Some h \<Rightarrow> (Inr h, s)
           | None \<Rightarrow>
               if \<not> create then (Inl NotFound, s)
               else
                 let h = mb_next s in
                 (Inr h, s\<lparr>mb_files := fmupd path h (mb_files s), mb_cells := (mb_cells s)(h := []),
                    mb_next := Suc h\<rparr>)))"

definition mem_exists :: "string \<Rightarrow> (mem_state, io_error, bool) io" where
  "mem_exists path s =
     (case validate path False of
        Inl e \<Rightarrow> (Inl e, s)
      | Inr _ \<Rightarrow> (Inr (fmlookup (mb_files s) path \<noteq> None \<or> path |\<in>| mb_dirs s), s))"

definition mem_remove :: "string \<Rightarrow> (mem_state, io_error, unit) io" where
  "mem_remove path s =
     (case validate path False of
        Inl e \<Rightarrow> (Inl e, s)
      | Inr _ \<Rightarrow>
          (case fmlookup (mb_files s) path of
             None \<Rightarrow> (Inl NotFound, s)
           | Some _ \<Rightarrow> (Inr (), s\<lparr>mb_files := fmdrop path (mb_files s)\<rparr>)))"

definition mem_rename :: "string \<Rightarrow> string \<Rightarrow> (mem_state, io_error, unit) io" where
  "mem_rename src dst s =
     (case validate src False of
        Inl e \<Rightarrow> (Inl e, s)
      | Inr _ \<Rightarrow>
     (case validate dst False of
        Inl e \<Rightarrow> (Inl e, s)
      | Inr _ \<Rightarrow>
          (case fmlookup (mb_files s) src of
             None \<Rightarrow> (Inl NotFound, s)
           | Some h \<Rightarrow> (Inr (), s\<lparr>mb_files := fmupd dst h (fmdrop src (mb_files s))\<rparr>))))"

text \<open>The prefixes of a path that end before a slash, and the path itself: the directories
  \<open>create_dir_all\<close> makes.\<close>

definition dir_prefixes :: "string \<Rightarrow> string list" where
  "dir_prefixes path =
     map (\<lambda>n. join_path (take n (split_on (CHR ''/'') path))) [1 ..< Suc (length (split_on (CHR ''/'') path))]"

definition mem_create_dir_all :: "string \<Rightarrow> (mem_state, io_error, unit) io" where
  "mem_create_dir_all path s =
     (case validate path False of
        Inl e \<Rightarrow> (Inl e, s)
      | Inr _ \<Rightarrow> (Inr (), s\<lparr>mb_dirs := fset_of_list (dir_prefixes path) |\<union>| mb_dirs s\<rparr>))"

text \<open>The entries directly inside a directory, by name.\<close>

definition dir_prefix :: "string \<Rightarrow> string" where
  "dir_prefix dir = (if dir = [] then [] else dir @ ''/'')"

definition direct_entry :: "string \<Rightarrow> string \<Rightarrow> string option" where
  "direct_entry dir name =
     (case strip_prefix (dir_prefix dir) name of
        None \<Rightarrow> None
      | Some rest \<Rightarrow> if rest = [] \<or> CHR ''/'' \<in> set rest then None else Some rest)"

definition list_entries :: "string \<Rightarrow> string fset \<Rightarrow> string list" where
  "list_entries dir names =
     remdups_adj (sort (List.map_filter (direct_entry dir) (sorted_list_of_fset names)))"

definition mem_list :: "string \<Rightarrow> (mem_state, io_error, string list) io" where
  "mem_list dir s =
     (case validate dir True of
        Inl e \<Rightarrow> (Inl e, s)
      | Inr _ \<Rightarrow> (Inr (list_entries dir (fmdom (mb_files s) |\<union>| mb_dirs s)), s))"

definition mem_sync_dir :: "string \<Rightarrow> (mem_state, io_error, unit) io" where
  "mem_sync_dir dir s =
     (case validate dir True of Inl e \<Rightarrow> (Inl e, s) | Inr _ \<Rightarrow> (Inr (), s))"

definition mem_try_lock :: "string \<Rightarrow> (mem_state, io_error, unit) io" where
  "mem_try_lock path s =
     (case validate path False of
        Inl e \<Rightarrow> (Inl e, s)
      | Inr _ \<Rightarrow>
          if path |\<in>| mb_locks s then (Inl WouldBlock, s)
          else
            let s = s\<lparr>mb_locks := finsert path (mb_locks s)\<rparr> in
            (case fmlookup (mb_files s) path of
               Some _ \<Rightarrow> (Inr (), s)
             | None \<Rightarrow>
                 let h = mb_next s in
                 (Inr (), s\<lparr>mb_files := fmupd path h (mb_files s), mb_cells := (mb_cells s)(h := []),
                    mb_next := Suc h\<rparr>)))"

definition mem_unlock :: "string \<Rightarrow> mem_state \<Rightarrow> mem_state" where
  "mem_unlock path s = s\<lparr>mb_locks := mb_locks s |-| {|path|}\<rparr>"

definition mem_backing :: "(mem_state, nat) backing" where
  "mem_backing =
     \<lparr>b_open = mem_open, b_exists = mem_exists, b_remove = mem_remove, b_rename = mem_rename,
      b_create_dir_all = mem_create_dir_all, b_list = mem_list, b_sync_dir = mem_sync_dir,
      b_try_lock = mem_try_lock, b_unlock = mem_unlock,
      f_read_at = mem_read_at, f_write_at = mem_write_at, f_set_len = mem_set_len,
      f_punch_hole = mem_punch_hole, f_len = mem_len, f_sync_data = mem_sync_data\<rparr>"

section \<open>The medium contract\<close>

text \<open>Names and cells correspond one to one.\<close>

definition mem_inv :: "mem_state \<Rightarrow> bool" where
  "mem_inv s \<longleftrightarrow>
     (\<forall>p h. fmlookup (mb_files s) p = Some h \<longrightarrow> h < mb_next s) \<and>
     (\<forall>p q h. fmlookup (mb_files s) p = Some h \<longrightarrow> fmlookup (mb_files s) q = Some h \<longrightarrow> p = q)"

definition mem_view :: "mem_state \<Rightarrow> string \<Rightarrow> bytes option" where
  "mem_view s p = map_option (mb_cells s) (fmlookup (mb_files s) p)"

definition mem_settled :: "mem_state \<Rightarrow> string \<Rightarrow> bytes \<Rightarrow> bool" where
  "mem_settled s p c \<longleftrightarrow> mem_view s p = Some c"

definition mem_opened :: "mem_state \<Rightarrow> nat \<Rightarrow> string \<Rightarrow> bool" where
  "mem_opened s h p \<longleftrightarrow> fmlookup (mb_files s) p = Some h"

lemma mem_write_image:
  "write_image mem_backing h c s =
     (if usize_overflow (length c) then (Inl InvalidInput, s\<lparr>mb_cells := (mb_cells s)(h := resize (length c) (mb_cells s h))\<rparr>)
      else (Inr (), s\<lparr>mb_cells := (mb_cells s)(h := c)\<rparr>))"
  by (simp add: write_image_def mem_backing_def mem_set_len_def mem_write_at_def mem_sync_data_def
      io_bind_def)

lemma mem_view_cell:
  "mem_inv s \<Longrightarrow> mem_opened s h p \<Longrightarrow>
   mem_view (s\<lparr>mb_cells := (mb_cells s)(h := c)\<rparr>) = (mem_view s)(p \<mapsto> c)"
  by (auto simp: mem_view_def mem_opened_def mem_inv_def fun_eq_iff map_option_case split: option.splits)

lemma validate_not_NotFound: "validate p b = Inl e \<Longrightarrow> e = InvalidInput"
proof -
  have "validate_components cs = Inl e \<Longrightarrow> e = InvalidInput" for cs
    by (induction cs) (auto split: if_splits)
  then show "validate p b = Inl e \<Longrightarrow> e = InvalidInput"
    by (auto simp: validate_def split: if_splits)
qed

lemma mem_open_spec:
  assumes "mem_inv s" and "mem_open p cr s = (r, s')"
  shows "mem_inv s'" and "q \<noteq> p \<or> \<not> cr \<or> mem_view s q \<noteq> None \<Longrightarrow> mem_view s' q = mem_view s q"
    and "r = Inr h \<Longrightarrow> mem_opened s' h p"
proof -
  have "mem_inv s' \<and> (q \<noteq> p \<or> \<not> cr \<or> mem_view s q \<noteq> None \<longrightarrow> mem_view s' q = mem_view s q) \<and>
      (r = Inr h \<longrightarrow> mem_opened s' h p)"
  proof (cases "validate p False = Inr () \<and> fmlookup (mb_files s) p = None \<and> cr")
    case True
    then have s': "r = Inr (mb_next s)" "s' = s\<lparr>mb_files := fmupd p (mb_next s) (mb_files s),
        mb_cells := (mb_cells s)(mb_next s := []), mb_next := Suc (mb_next s)\<rparr>"
      using assms(2) by (auto simp: mem_open_def Let_def)
    have fresh: "fmlookup (mb_files s) x = Some k \<Longrightarrow> k < mb_next s" for x k
      using assms(1) by (simp add: mem_inv_def)
    then have "mem_inv s'"
      using assms(1) by (auto simp: mem_inv_def s'(2) less_Suc_eq)
    then show ?thesis
      using True fresh by (auto simp: s' mem_view_def mem_opened_def map_option_case split: option.splits)
  next
    case False
    then have "s' = s" and "r = Inr h \<Longrightarrow> mem_opened s h p"
      using assms(2) by (auto simp: mem_open_def mem_opened_def split: sum.splits option.splits)
    then show ?thesis
      using assms(1) by simp
  qed
  then show "mem_inv s'" "q \<noteq> p \<or> \<not> cr \<or> mem_view s q \<noteq> None \<Longrightarrow> mem_view s' q = mem_view s q"
    "r = Inr h \<Longrightarrow> mem_opened s' h p"
    by blast+
qed

interpretation mem: ab_medium mem_backing mem_inv mem_view mem_settled mem_settled mem_opened "(=)"
proof unfold_locales
  fix s h p c r s'
  assume s: "mem_inv s" "mem_opened s h p" and w: "write_image mem_backing h c s = (r, s')"
  have inv: "mem_inv (s\<lparr>mb_cells := f\<rparr>)" for f
    using s(1) by (simp add: mem_inv_def)
  show "mem_inv s' \<and> (\<forall>q. q \<noteq> p \<longrightarrow> mem_view s' q = mem_view s q) \<and>
      (\<forall>q d. q \<noteq> p \<longrightarrow> mem_settled s q d \<longrightarrow> mem_settled s' q d) \<and>
      (r = Inr () \<longrightarrow> mem_settled s' p c \<and> mem_view s' p = Some c)"
    using w mem_view_cell [OF s] inv by (auto simp: mem_write_image mem_settled_def split: if_splits)
  assume "mem_view s p = Some c"
  then have "mb_cells s h = c" and v: "(mem_view s)(p \<mapsto> c) = mem_view s"
    using s(2) by (auto simp: mem_view_def mem_opened_def)
  then have "mem_view s' = mem_view s"
    using w mem_view_cell [OF s, of c] by (auto simp: mem_write_image split: if_splits)
  then show "mem_view s' = mem_view s \<and> mem_settled s \<le> mem_settled s'"
    by (auto simp: mem_settled_def)
next
  fix s p cr r s' q
  assume o: "mem_inv s" "b_open mem_backing p cr s = (r, s')"
  then have o': "mem_open p cr s = (r, s')"
    by (simp add: mem_backing_def)
  note spec = mem_open_spec [OF o(1) o']
  show "mem_inv s'" "q \<noteq> p \<or> \<not> cr \<or> mem_view s q \<noteq> None \<Longrightarrow> mem_view s' q = mem_view s q"
    using spec by blast+
  show "mem_settled s \<le> mem_settled s'"
  proof (intro le_funI le_boolI)
    fix x y
    assume "mem_settled s x y"
    then show "mem_settled s' x y"
      using spec(2) [of x] by (simp add: mem_settled_def)
  qed
next
  fix s p cr h s'
  assume o: "mem_inv s" "b_open mem_backing p cr s = (Inr h, s')"
  then show "mem_opened s' h p"
    using mem_open_spec(3) [of s p cr "Inr h"] by (simp add: mem_backing_def)
qed (auto simp: mem_settled_def mem_opened_def mem_backing_def mem_open_def mem_view_def
    mem_len_def mem_read_at_def mem_sync_dir_def Let_def
    split: sum.splits option.splits if_splits dest: validate_not_NotFound)

definition mem_absent :: "mem_state \<Rightarrow> string \<Rightarrow> bool" where
  "mem_absent s p \<longleftrightarrow> mem_view s p = None"

text \<open>Memory is as durable as it gets: what readers see is held and covered.\<close>

definition mem_held :: "mem_state \<Rightarrow> string \<Rightarrow> bytes \<Rightarrow> bool" where
  "mem_held s p bs \<longleftrightarrow> (\<exists>c. mem_view s p = Some c \<and> prefix bs c)"

definition mem_cover :: "mem_state \<Rightarrow> string \<Rightarrow> nat \<Rightarrow> bool" where
  "mem_cover s p n \<longleftrightarrow> mem_view s p \<noteq> None"

interpretation mem: ab_names mem_backing mem_inv mem_view mem_settled mem_settled mem_opened "(=)"
  mem_absent mem_held mem_cover
  by unfold_locales (auto simp: mem_absent_def)

lemma mem_kept:
  "mem.kept P s s' \<longleftrightarrow> mem_inv s' \<and> (\<forall>q. q \<notin> P \<longrightarrow> mem_view s' q = mem_view s q \<and>
     (\<forall>h. mem_opened s h q \<longrightarrow> mem_opened s' h q))"
  by (auto simp: mem.kept_def mem_settled_def mem_absent_def mem_held_def mem_cover_def)

lemma mem_kept_files:
  assumes "mem_inv s" and "mb_files s' = mb_files s" and "mb_cells s' = mb_cells s" and "mb_next s' = mb_next s"
  shows "mem.kept P s s'"
  using assms by (auto simp: mem_kept mem_inv_def mem_view_def mem_opened_def)

lemma mem_cell_kept:
  assumes "mem_inv s" and "mem_opened s h p" and "s' = s\<lparr>mb_cells := (mb_cells s)(h := c)\<rparr>"
  shows "mem.kept {p} s s' \<and> mem_opened s' h p"
  using mem_view_cell [OF assms(1,2), of c] assms
  by (auto simp: mem_kept mem_inv_def mem_opened_def)

interpretation mem: ab_directory mem_backing mem_inv mem_view mem_settled mem_settled mem_opened "(=)"
  mem_absent mem_held mem_cover
proof unfold_locales
  fix s p cr r s'
  assume s: "mem_inv s" and run: "b_open mem_backing p cr s = (r, s')"
  then have run': "mem_open p cr s = (r, s')"
    by (simp add: mem_backing_def)
  then have "mem_opened s' h q" if "q \<noteq> p" "mem_opened s h q" for h q
    using that by (auto simp: mem_open_def mem_opened_def Let_def split: sum.splits option.splits if_splits)
  with mem_open_spec(1,2) [OF s run'] show "mem.kept {p} s s'"
    by (simp add: mem_kept)
next
  fix s h p n r s'
  assume s: "mem_inv s" "mem_opened s h p"
  show "mem.kept {p} s s' \<and> mem_opened s' h p" if "f_set_len mem_backing h n s = (r, s')"
    using that by (intro mem_cell_kept [OF s, of _ "resize n (mb_cells s h)"])
      (auto simp: mem_backing_def mem_set_len_def)
next
  fix s h p off bs r s'
  assume s: "mem_inv s" "mem_opened s h p" and "f_write_at mem_backing h off bs s = (r, s')"
  then have "s' = s \<or> (\<exists>c. s' = s\<lparr>mb_cells := (mb_cells s)(h := c)\<rparr>)"
    by (auto simp: mem_backing_def mem_write_at_def Let_def split: if_splits)
  then show "mem.kept {p} s s' \<and> mem_opened s' h p"
    using mem_cell_kept [OF s] mem_kept_files [OF s(1)] s(2) by blast
next
  fix s p r s'
  assume s: "mem_inv s" and "b_try_lock mem_backing p s = (r, s')"
  then have run: "mem_try_lock p s = (r, s')"
    by (simp add: mem_backing_def)
  have next_free: "fmlookup (mb_files s) q \<noteq> Some (mb_next s)" for q
    using s by (auto simp: mem_inv_def)
  have view: "mem_view s' q = mem_view s q" if "q \<noteq> p" for q
    using run that next_free [of q] by (cases "fmlookup (mb_files s) q")
      (auto simp: mem_try_lock_def mem_view_def Let_def split: sum.splits if_splits option.splits)
  moreover have "mem_inv s'"
    using run s by (auto simp: mem_try_lock_def mem_inv_def Let_def less_Suc_eq split: sum.splits if_splits option.splits) blast+
  moreover have "mem_opened s' h q" if "q \<noteq> p" "mem_opened s h q" for h q
    using run that by (auto simp: mem_try_lock_def mem_opened_def Let_def split: sum.splits if_splits option.splits)
  ultimately show "mem.kept {p} s s'"
    by (simp add: mem_kept)
next
  fix s p r s'
  assume s: "mem_inv s" and "b_exists mem_backing p s = (r, s')"
  then have "s' = s" and "r = Inr False \<Longrightarrow> mem_view s p = None"
    by (auto simp: mem_backing_def mem_exists_def mem_view_def split: sum.splits option.splits if_splits)
  then show "mem.kept {} s s' \<and> (r = Inr False \<longrightarrow> mem_view s p = None)"
    using s by (simp add: mem_kept_files)
qed (auto simp: mem_backing_def mem_create_dir_all_def mem_len_def mem_read_at_def mem_sync_dir_def Let_def
      mem_list_def mem_unlock_def mem_sync_data_def mem_opened_def
      intro!: mem_kept_files split: sum.splits if_splits option.splits)

end
