(* ===== verification/Crash_Backing.thy ===== *)
theory Crash_Backing
  imports Mem_Backing
begin

text \<open>
  The crash-simulating backing of \<open>crates/maki-test-support/src/crash_backing.rs\<close>, the durability
  model the repository's own tests are written against: data is volatile until \<open>sync_data\<close>, names
  until \<open>sync_dir\<close>, a failed sync loses what it could not persist, a write may persist a prefix, and
  a crash keeps, loses or tears every volatile operation independently.

  The fault hooks are closures with state; here they are functions of the number of earlier checks,
  so they range over all schedules. The random generator of \<open>crash\<close> is a record of choices.
  Garbage collection of unreachable inodes and the handle counts that delay it are left out: no
  operation can observe an inode without a name or a handle. The theory ends with the proof that
  this backing meets the contract \<open>ab_medium\<close>.
\<close>

datatype fault_op =
    FOpen string bool
  | FWriteAt string nat nat
  | FSetLen string nat
  | FSyncData string
  | FSyncDir string
  | FRemove string
  | FRename string string

datatype pend =
    PWrite nat bytes
  | PSetLen nat

record inode =
  ino_durable :: bytes
  ino_pending :: "pend list"
  ino_image :: bytes

definition inode_default :: inode where
  "inode_default = \<lparr>ino_durable = [], ino_pending = [], ino_image = []\<rparr>"

definition from_content :: "bytes \<Rightarrow> inode" where
  "from_content content = \<lparr>ino_durable = content, ino_pending = [], ino_image = content\<rparr>"

record name_entry =
  nm_durable :: "nat option"
  nm_volatile :: "nat option"
  nm_change :: nat

definition name_pending :: "name_entry \<Rightarrow> bool" where
  "name_pending n \<longleftrightarrow> nm_durable n \<noteq> nm_volatile n"

record crash_state =
  cb_inodes :: "nat \<Rightarrow> inode option"
  cb_names :: "(string, name_entry) fmap"
  cb_next_inode :: nat
  cb_next_change :: nat
  cb_dirs :: "(string, bool) fmap"
  cb_locks :: "string fset"
  cb_hook :: "nat \<Rightarrow> fault_op \<Rightarrow> io_error option"
  cb_partial_hook :: "nat \<Rightarrow> fault_op \<Rightarrow> (nat \<times> io_error) option"
  cb_calls :: nat
  cb_lenient_sync_failures :: bool
  cb_pending_writes :: nat
  cb_read_bytes :: nat
  cb_free_bytes :: "nat option"
  cb_tearing :: "nat option"

definition crash_new :: crash_state where
  "crash_new = \<lparr>cb_inodes = (\<lambda>_. None), cb_names = fmempty, cb_next_inode = 0, cb_next_change = 0,
     cb_dirs = fmempty, cb_locks = {||}, cb_hook = (\<lambda>_ _. None), cb_partial_hook = (\<lambda>_ _. None),
     cb_calls = 0, cb_lenient_sync_failures = False, cb_pending_writes = 0, cb_read_bytes = 0,
     cb_free_bytes = None, cb_tearing = None\<rparr>"

text \<open>\<open>Inner::check\<close>: the injected error, if any, and the state that counts the call.\<close>

definition check :: "fault_op \<Rightarrow> (crash_state, io_error, unit) io" where
  "check op s =
     (case cb_hook s (cb_calls s) op of
        Some e \<Rightarrow> (Inl e, s\<lparr>cb_calls := Suc (cb_calls s)\<rparr>)
      | None \<Rightarrow> (Inr (), s\<lparr>cb_calls := Suc (cb_calls s)\<rparr>))"

definition volatile :: "crash_state \<Rightarrow> string \<Rightarrow> nat option" where
  "volatile s path = Option.bind (fmlookup (cb_names s) path) nm_volatile"

definition relink :: "string \<Rightarrow> nat option \<Rightarrow> nat \<Rightarrow> crash_state \<Rightarrow> crash_state" where
  "relink path i change s =
     (let name = (case fmlookup (cb_names s) path of
                    Some n \<Rightarrow> n
                  | None \<Rightarrow> \<lparr>nm_durable = None, nm_volatile = None, nm_change = 0\<rparr>)
      in s\<lparr>cb_names := fmupd path (name\<lparr>nm_volatile := i, nm_change := change\<rparr>) (cb_names s)\<rparr>)"

definition new_change :: "crash_state \<Rightarrow> nat \<times> crash_state" where
  "new_change s = (Suc (cb_next_change s), s\<lparr>cb_next_change := Suc (cb_next_change s)\<rparr>)"

definition apply_pend :: "pend \<Rightarrow> bytes \<Rightarrow> bytes" where
  "apply_pend p data = (case p of PWrite offset src \<Rightarrow> overwrite offset src data | PSetLen len \<Rightarrow> resize len data)"

definition durable_after_sync :: "inode \<Rightarrow> bytes" where
  "durable_after_sync nd = fold apply_pend (ino_pending nd) (ino_durable nd)"

section \<open>Crashes\<close>

text \<open>\<open>settle_names\<close>: \<open>keep\<close> decides per change.\<close>

definition settle_entry :: "(nat \<Rightarrow> bool) \<Rightarrow> name_entry \<Rightarrow> name_entry" where
  "settle_entry keep n =
     (if name_pending n then
        let t = (if keep (nm_change n) then nm_volatile n else nm_durable n)
        in n\<lparr>nm_durable := t, nm_volatile := t\<rparr>
      else n)"

definition settled_names :: "(nat \<Rightarrow> bool) \<Rightarrow> (string, name_entry) fmap \<Rightarrow> (string, name_entry) fmap" where
  "settled_names keep names =
     (let m = fmmap (settle_entry keep) names
      in fmfilter (\<lambda>p. case fmlookup m p of Some n \<Rightarrow> nm_durable n \<noteq> None | None \<Rightarrow> False) m)"

definition live_inodes :: "(string, name_entry) fmap \<Rightarrow> nat fset" where
  "live_inodes names = (\<lambda>n. the (nm_durable n)) |`| ffilter (\<lambda>n. nm_durable n \<noteq> None) (fmran names)"

datatype tear = TearPrefix nat | TearHole nat
datatype fate = Lose | Keep | Tear tear

record choices =
  ch_dir :: "string \<Rightarrow> bool"
  ch_name :: "nat \<Rightarrow> bool"
  ch_op :: "nat \<Rightarrow> nat \<Rightarrow> fate"

text \<open>The cut points of \<open>apply_torn\<close> after the first one.\<close>

function sector_cuts :: "nat \<Rightarrow> nat \<Rightarrow> nat \<Rightarrow> nat list" where
  "sector_cuts gran pos len =
     (if gran = 0 \<or> len \<le> pos then [] else pos # sector_cuts gran (pos + gran) len)"
  by pat_completeness auto
termination by (relation "measure (\<lambda>(g, p, l). l - p)") auto

declare sector_cuts.simps [simp del]

definition apply_torn :: "nat \<Rightarrow> tear \<Rightarrow> nat \<Rightarrow> bytes \<Rightarrow> bytes \<Rightarrow> bytes" where
  "apply_torn gran t offset src data =
     (if src = [] then data
      else
        let cuts = 0 # sector_cuts gran (gran - offset mod gran) (length src) @ [length src];
            sectors = length cuts - 1
        in
        (case t of
           TearPrefix k \<Rightarrow> overwrite offset (take (cuts ! (k mod sectors)) src) data
         | TearHole k \<Rightarrow>
             let hole_start = cuts ! (k mod sectors);
                 hole_end = cuts ! Suc (k mod sectors);
                 data = overwrite offset (take hole_start src) data
             in
             if hole_end < length src then overwrite (offset + hole_end) (drop hole_end src) data
             else if length data < offset + length src then resize (offset + length src) data
             else data))"

fun crash_ops :: "nat option \<Rightarrow> (nat \<Rightarrow> fate) \<Rightarrow> nat \<Rightarrow> pend list \<Rightarrow> bytes \<Rightarrow> bytes" where
  "crash_ops tearing f i [] data = data"
| "crash_ops tearing f i (p # ps) data =
     crash_ops tearing f (Suc i) ps
       (case f i of
          Lose \<Rightarrow> data
        | Keep \<Rightarrow> apply_pend p data
        | Tear t \<Rightarrow>
            (case (tearing, p) of
               (Some gran, PWrite offset src) \<Rightarrow> apply_torn gran t offset src data
             | _ \<Rightarrow> apply_pend p data))"

text \<open>The common end of all crashes: directories by \<open>dirs\<close>, names by \<open>keep\<close>, the content of every
  surviving inode by \<open>content\<close>.\<close>

definition crash_with :: "(string \<Rightarrow> bool) \<Rightarrow> (nat \<Rightarrow> bool) \<Rightarrow> (nat \<Rightarrow> inode \<Rightarrow> bytes) \<Rightarrow> crash_state \<Rightarrow> crash_state" where
  "crash_with dirs keep content s =
     (let names = settled_names keep (cb_names s) in
      s\<lparr>cb_pending_writes := 0,
        cb_dirs := fmmap (\<lambda>_. True)
          (fmfilter (\<lambda>d. fmlookup (cb_dirs s) d = Some True \<or> dirs d) (cb_dirs s)),
        cb_names := names,
        cb_inodes := (\<lambda>i. if i |\<in>| live_inodes names
                          then map_option (\<lambda>nd. from_content (content i nd)) (cb_inodes s i)
                          else None)\<rparr>)"

definition crash_random :: "choices \<Rightarrow> crash_state \<Rightarrow> crash_state" where
  "crash_random ch s =
     crash_with (ch_dir ch) (ch_name ch)
       (\<lambda>i nd. crash_ops (cb_tearing s) (ch_op ch i) 0 (ino_pending nd) (ino_durable nd)) s"

definition crash_all_lost :: "crash_state \<Rightarrow> crash_state" where
  "crash_all_lost s = crash_with (\<lambda>_. False) (\<lambda>_. False) (\<lambda>i nd. ino_durable nd) s"

text \<open>\<open>crash_keep_torn_prefix\<close>: the position of the last write, and the operations with that one
  cut short.\<close>

definition is_write :: "pend \<Rightarrow> bool" where
  "is_write p = (case p of PWrite _ _ \<Rightarrow> True | PSetLen _ \<Rightarrow> False)"

fun torn_prefix_ops :: "nat \<Rightarrow> nat \<Rightarrow> pend list \<Rightarrow> bytes \<Rightarrow> bytes" where
  "torn_prefix_ops keep_bytes base [] data = data"
| "torn_prefix_ops keep_bytes base (p # ps) data =
     torn_prefix_ops keep_bytes base ps
       (if is_write p \<and> \<not> list_ex is_write ps then
          (case p of
             PWrite offset src \<Rightarrow>
               let keep = min keep_bytes (length src)
               in take (max (offset + keep) base) (overwrite offset (take keep src) data)
           | PSetLen _ \<Rightarrow> data)
        else apply_pend p data)"

definition crash_keep_torn_prefix :: "string \<Rightarrow> nat \<Rightarrow> crash_state \<Rightarrow> crash_state option" where
  "crash_keep_torn_prefix path keep_bytes s =
     (case volatile s path of
        None \<Rightarrow> None
      | Some torn \<Rightarrow>
          let torn_change = (case fmlookup (cb_names s) path of Some n \<Rightarrow> nm_change n | None \<Rightarrow> 0)
          in Some (crash_with (\<lambda>_. False) (\<lambda>change. change = torn_change)
               (\<lambda>i nd. if i = torn
                  then torn_prefix_ops keep_bytes (length (ino_durable nd)) (ino_pending nd) (ino_durable nd)
                  else ino_durable nd) s))"

section \<open>Files\<close>

record crash_file =
  cf_path :: string
  cf_inode :: nat

definition with_inode ::
  "crash_file \<Rightarrow> (inode \<Rightarrow> crash_state \<Rightarrow> (io_error + 'a) \<times> inode \<times> crash_state) \<Rightarrow>
   (crash_state, io_error, 'a) io" where
  "with_inode h f s =
     (case cb_inodes s (cf_inode h) of
        None \<Rightarrow> (Inl NotFound, s)
      | Some nd \<Rightarrow>
          (case f nd s of (r, nd', s') \<Rightarrow> (r, s'\<lparr>cb_inodes := (cb_inodes s')(cf_inode h \<mapsto> nd')\<rparr>)))"

definition cf_read_at :: "crash_file \<Rightarrow> nat \<Rightarrow> nat \<Rightarrow> (crash_state, io_error, bytes) io" where
  "cf_read_at h offset len =
     with_inode h (\<lambda>nd s.
       if length (ino_image nd) < offset + len then (Inl UnexpectedEof, nd, s)
       else (Inr (take len (drop offset (ino_image nd))), nd,
             s\<lparr>cb_read_bytes := cb_read_bytes s + len\<rparr>))"

text \<open>Recording an operation in the page cache and as dirty.\<close>

definition push_pend :: "pend \<Rightarrow> inode \<Rightarrow> inode" where
  "push_pend p nd = nd\<lparr>ino_image := apply_pend p (ino_image nd), ino_pending := ino_pending nd @ [p]\<rparr>"

definition cf_write_at :: "crash_file \<Rightarrow> nat \<Rightarrow> bytes \<Rightarrow> (crash_state, io_error, unit) io" where
  "cf_write_at h offset data =
     with_inode h (\<lambda>nd s.
       let op = FWriteAt (cf_path h) offset (length data) in
       (case check op s of
          (Inl e, s) \<Rightarrow> (Inl e, nd, s)
        | (Inr _, s) \<Rightarrow>
            let (written, outcome) =
                  (case cb_partial_hook s (cb_calls s) op of
                     Some (n, err) \<Rightarrow> (take (min n (length data)) data, Inl err)
                   | None \<Rightarrow> (data, Inr ()))
            in
            if written \<noteq> [] then
              (outcome, push_pend (PWrite offset written) nd,
               s\<lparr>cb_pending_writes := Suc (cb_pending_writes s)\<rparr>)
            else (outcome, nd, s)))"

definition cf_punch_hole :: "crash_file \<Rightarrow> nat \<Rightarrow> nat \<Rightarrow> (crash_state, io_error, unit) io" where
  "cf_punch_hole h offset len =
     with_inode h (\<lambda>nd s.
       if usize_overflow (offset + len) then (Inl InvalidInput, nd, s)
       else
         let stop = min (offset + len) (length (ino_image nd)) in
         if stop \<le> offset then (Inr (), nd, s)
         else
           (case check (FWriteAt (cf_path h) offset (stop - offset)) s of
              (Inl e, s) \<Rightarrow> (Inl e, nd, s)
            | (Inr _, s) \<Rightarrow>
                (Inr (), push_pend (PWrite offset (replicate (stop - offset) 0)) nd,
                 s\<lparr>cb_pending_writes := Suc (cb_pending_writes s)\<rparr>)))"

definition cf_set_len :: "crash_file \<Rightarrow> nat \<Rightarrow> (crash_state, io_error, unit) io" where
  "cf_set_len h len =
     with_inode h (\<lambda>nd s.
       (case check (FSetLen (cf_path h) len) s of
          (Inl e, s) \<Rightarrow> (Inl e, nd, s)
        | (Inr _, s) \<Rightarrow> (Inr (), push_pend (PSetLen len) nd, s)))"

definition cf_len :: "crash_file \<Rightarrow> (crash_state, io_error, nat) io" where
  "cf_len h = with_inode h (\<lambda>nd s. (Inr (length (ino_image nd)), nd, s))"

definition cf_sync_data :: "crash_file \<Rightarrow> (crash_state, io_error, unit) io" where
  "cf_sync_data h =
     with_inode h (\<lambda>nd s.
       (case check (FSyncData (cf_path h)) s of
          (Inl e, s) \<Rightarrow>
            (Inl e, if cb_lenient_sync_failures s then nd else nd\<lparr>ino_pending := []\<rparr>, s)
        | (Inr _, s) \<Rightarrow>
            (Inr (), nd\<lparr>ino_durable := durable_after_sync nd, ino_pending := []\<rparr>, s)))"

section \<open>Namespace\<close>

definition cb_open :: "string \<Rightarrow> bool \<Rightarrow> (crash_state, io_error, crash_file) io" where
  "cb_open path create s =
     (case validate path False of
        Inl e \<Rightarrow> (Inl e, s)
      | Inr _ \<Rightarrow>
     (case check (FOpen path create) s of
        (Inl e, s) \<Rightarrow> (Inl e, s)
      | (Inr _, s) \<Rightarrow>
          (case volatile s path of
             Some i \<Rightarrow> (Inr \<lparr>cf_path = path, cf_inode = i\<rparr>, s)
           | None \<Rightarrow>
               if create then
                 let i = Suc (cb_next_inode s);
                     s = s\<lparr>cb_next_inode := i, cb_inodes := (cb_inodes s)(i \<mapsto> inode_default)\<rparr>;
                     (change, s) = new_change s
                 in (Inr \<lparr>cf_path = path, cf_inode = i\<rparr>, relink path (Some i) change s)
               else (Inl NotFound, s))))"

definition cb_exists :: "string \<Rightarrow> (crash_state, io_error, bool) io" where
  "cb_exists path s =
     (case validate path False of
        Inl e \<Rightarrow> (Inl e, s)
      | Inr _ \<Rightarrow> (Inr (volatile s path \<noteq> None \<or> fmlookup (cb_dirs s) path \<noteq> None), s))"

definition cb_remove :: "string \<Rightarrow> (crash_state, io_error, unit) io" where
  "cb_remove path s =
     (case validate path False of
        Inl e \<Rightarrow> (Inl e, s)
      | Inr _ \<Rightarrow>
     (case check (FRemove path) s of
        (Inl e, s) \<Rightarrow> (Inl e, s)
      | (Inr _, s) \<Rightarrow>
          if volatile s path = None then (Inl NotFound, s)
          else let (change, s) = new_change s in (Inr (), relink path None change s)))"

definition cb_rename :: "string \<Rightarrow> string \<Rightarrow> (crash_state, io_error, unit) io" where
  "cb_rename src dst s =
     (case validate src False of
        Inl e \<Rightarrow> (Inl e, s)
      | Inr _ \<Rightarrow>
     (case validate dst False of
        Inl e \<Rightarrow> (Inl e, s)
      | Inr _ \<Rightarrow>
     (case check (FRename src dst) s of
        (Inl e, s) \<Rightarrow> (Inl e, s)
      | (Inr _, s) \<Rightarrow>
          (case volatile s src of
             None \<Rightarrow> (Inl NotFound, s)
           | Some i \<Rightarrow>
               if src = dst then (Inr (), s)
               else
                 let (change, s) = new_change s
                 in (Inr (), relink src None change (relink dst (Some i) change s))))))"

definition cb_create_dir_all :: "string \<Rightarrow> (crash_state, io_error, unit) io" where
  "cb_create_dir_all path s =
     (case validate path False of
        Inl e \<Rightarrow> (Inl e, s)
      | Inr _ \<Rightarrow>
          (Inr (), s\<lparr>cb_dirs := fold (\<lambda>d m. if fmlookup m d = None then fmupd d False m else m)
             (dir_prefixes path) (cb_dirs s)\<rparr>))"

definition cb_list :: "string \<Rightarrow> (crash_state, io_error, string list) io" where
  "cb_list dir s =
     (case validate dir True of
        Inl e \<Rightarrow> (Inl e, s)
      | Inr _ \<Rightarrow>
          (Inr (list_entries dir
             (ffilter (\<lambda>p. volatile s p \<noteq> None) (fmdom (cb_names s)) |\<union>| fmdom (cb_dirs s))), s))"

definition commit_entry :: "string \<Rightarrow> string \<Rightarrow> name_entry \<Rightarrow> name_entry" where
  "commit_entry dir name n = (if direct_entry dir name \<noteq> None then n\<lparr>nm_durable := nm_volatile n\<rparr> else n)"

definition committed_names :: "string \<Rightarrow> (string, name_entry) fmap \<Rightarrow> (string, name_entry) fmap" where
  "committed_names dir names =
     (let m = fmmap_keys (commit_entry dir) names
      in fmfilter (\<lambda>p. case fmlookup m p of
                         Some n \<Rightarrow> nm_durable n \<noteq> None \<or> nm_volatile n \<noteq> None | None \<Rightarrow> False) m)"

definition cb_sync_dir :: "string \<Rightarrow> (crash_state, io_error, unit) io" where
  "cb_sync_dir dir s =
     (case validate dir True of
        Inl e \<Rightarrow> (Inl e, s)
      | Inr _ \<Rightarrow>
     (case check (FSyncDir dir) s of
        (Inl e, s) \<Rightarrow> (Inl e, s)
      | (Inr _, s) \<Rightarrow>
          let dirs = (if dir = [] then cb_dirs s else fmupd dir True (cb_dirs s))
          in (Inr (), s\<lparr>cb_names := committed_names dir (cb_names s),
                cb_dirs := fmmap_keys (\<lambda>d v. if direct_entry dir d \<noteq> None then True else v) dirs\<rparr>)))"

definition cb_try_lock :: "string \<Rightarrow> (crash_state, io_error, unit) io" where
  "cb_try_lock path s =
     (case validate path False of
        Inl e \<Rightarrow> (Inl e, s)
      | Inr _ \<Rightarrow>
          if path |\<in>| cb_locks s then (Inl WouldBlock, s)
          else (Inr (), s\<lparr>cb_locks := finsert path (cb_locks s)\<rparr>))"

definition cb_unlock :: "string \<Rightarrow> crash_state \<Rightarrow> crash_state" where
  "cb_unlock path s = s\<lparr>cb_locks := cb_locks s |-| {|path|}\<rparr>"

definition crash_backing :: "(crash_state, crash_file) backing" where
  "crash_backing =
     \<lparr>b_open = cb_open, b_exists = cb_exists, b_remove = cb_remove, b_rename = cb_rename,
      b_create_dir_all = cb_create_dir_all, b_list = cb_list, b_sync_dir = cb_sync_dir,
      b_try_lock = cb_try_lock, b_unlock = cb_unlock,
      f_read_at = cf_read_at, f_write_at = cf_write_at, f_set_len = cf_set_len,
      f_punch_hole = cf_punch_hole, f_len = cf_len, f_sync_data = cf_sync_data\<rparr>"

section \<open>Operations that change nothing\<close>

text \<open>A dirty operation that writes back what the content already has survives any fate without a
  trace.\<close>

definition harmless :: "bytes \<Rightarrow> pend \<Rightarrow> bool" where
  "harmless c p =
     (case p of
        PSetLen n \<Rightarrow> n = length c
      | PWrite off src \<Rightarrow> off + length src \<le> length c \<and> src = take (length src) (drop off c))"

lemma overwrite_sub:
  "off + length src \<le> length c \<Longrightarrow> src = take (length src) (drop off c) \<Longrightarrow> overwrite off src c = c"
  using overwrite_part [of off "length src" c] by simp

lemma harmless_take:
  "harmless c (PWrite off src) \<Longrightarrow> overwrite off (take n src) c = c"
proof -
  assume h: "harmless c (PWrite off src)"
  then have "take n src = take (min n (length src)) (drop off c)"
    by (simp add: harmless_def) (metis take_take)
  then show ?thesis
    using h by (intro overwrite_sub) (auto simp: harmless_def min_def)
qed

lemma harmless_drop:
  assumes "harmless c (PWrite off src)" and "n \<le> length src"
  shows "overwrite (off + n) (drop n src) c = c"
proof (rule overwrite_sub)
  have src: "src = take (length src) (drop off c)" and "off + length src \<le> length c"
    using assms(1) by (simp_all add: harmless_def)
  then show "off + n + length (drop n src) \<le> length c"
    using assms(2) by simp
  have "drop n src = drop n (take (length src) (drop off c))"
    using src by simp
  also have "\<dots> = take (length src - n) (drop (off + n) c)"
    by (simp add: drop_take add.commute)
  finally have "drop n src = take (length src - n) (drop (off + n) c)" .
  then show "drop n src = take (length (drop n src)) (drop (off + n) c)"
    unfolding length_drop .
qed

lemma harmless_apply [simp]: "harmless c p \<Longrightarrow> apply_pend p c = c"
  using harmless_take [of c] by (cases p) (auto simp: harmless_def apply_pend_def intro: overwrite_sub)

lemma sector_cuts_le: "\<forall>x \<in> set (sector_cuts g p n). x \<le> n"
  by (induction g p n rule: sector_cuts.induct) (subst sector_cuts.simps, auto)

lemma harmless_torn: "harmless c (PWrite off src) \<Longrightarrow> apply_torn gran t off src c = c"
proof -
  assume h: "harmless c (PWrite off src)"
  let ?cuts = "0 # sector_cuts gran (gran - off mod gran) (length src) @ [length src]"
  have cut: "?cuts ! k \<le> length src" if "k < length ?cuts" for k
    using nth_mem [OF that] sector_cuts_le [of gran "gran - off mod gran" "length src"] by auto
  have k: "Suc (k mod (length ?cuts - 1)) < length ?cuts" for k
    by (simp add: mod_less_divisor less_Suc_eq_le)
  have len: "off + length src \<le> length c"
    using h by (simp add: harmless_def)
  show ?thesis
    using harmless_take [OF h] harmless_drop [OF h] cut [OF k] len
    by (auto simp: apply_torn_def Let_def simp del: length_Cons length_append nth_Cons_Suc
        split: tear.split)
qed

lemma crash_ops_harmless:
  "\<forall>p \<in> set ps. harmless c p \<Longrightarrow> crash_ops tearing f i ps c = c"
  by (induction ps arbitrary: i)
    (auto simp: harmless_torn split: fate.split option.split pend.split prod.split)

lemma fold_harmless: "\<forall>p \<in> set ps. harmless c p \<Longrightarrow> fold apply_pend ps c = c"
  by (induction ps) auto

lemma torn_prefix_harmless:
  "\<forall>p \<in> set ps. harmless c p \<Longrightarrow> torn_prefix_ops k (length c) ps c = c"
  by (induction ps) (auto simp: harmless_take Let_def is_write_def split: pend.splits)

section \<open>What the file operations do to an inode\<close>

definition touched :: "nat \<Rightarrow> inode \<Rightarrow> crash_state \<Rightarrow> crash_state \<Rightarrow> bool" where
  "touched i nd s s' \<longleftrightarrow> cb_names s' = cb_names s \<and> cb_hook s' = cb_hook s \<and>
     cb_next_inode s' = cb_next_inode s \<and> cb_inodes s' = (cb_inodes s)(i \<mapsto> nd)"

lemma touched_trans: "touched i nd s s' \<Longrightarrow> touched i nd' s' s'' \<Longrightarrow> touched i nd' s s''"
  by (simp add: touched_def)

lemma check_cases:
  obtains (fault) e where "cb_hook s (cb_calls s) op = Some e"
    and "check op s = (Inl e, s\<lparr>cb_calls := Suc (cb_calls s)\<rparr>)"
  | (pass) "cb_hook s (cb_calls s) op = None"
    and "check op s = (Inr (), s\<lparr>cb_calls := Suc (cb_calls s)\<rparr>)"
  by (cases "cb_hook s (cb_calls s) op") (auto simp: check_def)

lemma cf_set_len_spec:
  assumes "cb_inodes s (cf_inode h) = Some nd" and "cf_set_len h n s = (r, s')"
  shows "touched (cf_inode h) (if r = Inr () then push_pend (PSetLen n) nd else nd) s s'"
  using assms
  by (cases rule: check_cases [where s = s and op = "FSetLen (cf_path h) n"])
    (auto simp: cf_set_len_def with_inode_def touched_def)

lemma cf_write_at_spec:
  assumes "cb_inodes s (cf_inode h) = Some nd" and "cf_write_at h off data s = (r, s')"
  obtains k nd' where "touched (cf_inode h) nd' s s'"
    and "nd' = nd \<or> nd' = push_pend (PWrite off (take k data)) nd"
    and "r = Inr () \<longrightarrow> nd' = (if data = [] then nd else push_pend (PWrite off data) nd)"
proof (cases rule: check_cases [where s = s and op = "FWriteAt (cf_path h) off (length data)"])
  case (fault e)
  then show thesis
    using assms by (intro that [of nd]) (auto simp: cf_write_at_def with_inode_def touched_def Let_def)
next
  case pass
  show thesis
  proof (cases "cb_partial_hook s (Suc (cb_calls s)) (FWriteAt (cf_path h) off (length data))")
    case None
    then show thesis
      using assms pass
      by (intro that [of "if data = [] then nd else push_pend (PWrite off data) nd" "length data"])
        (auto simp: cf_write_at_def with_inode_def touched_def Let_def split: if_splits)
  next
    case (Some ne)
    then show thesis
      using assms pass
      by (intro that [of "if take (min (fst ne) (length data)) data = [] then nd
            else push_pend (PWrite off (take (min (fst ne) (length data)) data)) nd"
            "min (fst ne) (length data)"])
        (auto simp: cf_write_at_def with_inode_def touched_def Let_def min_def split: if_splits prod.splits)
  qed
qed

lemma cf_sync_data_spec:
  assumes "cb_inodes s (cf_inode h) = Some nd" and "cf_sync_data h s = (r, s')"
  obtains nd' where "touched (cf_inode h) nd' s s'"
    and "r = Inr () \<longrightarrow> nd' = nd\<lparr>ino_durable := durable_after_sync nd, ino_pending := []\<rparr>"
    and "r \<noteq> Inr () \<longrightarrow> nd' = nd \<or> nd' = nd\<lparr>ino_pending := []\<rparr>"
proof (cases rule: check_cases [where s = s and op = "FSyncData (cf_path h)"])
  case (fault e)
  then show thesis
    using assms
    by (intro that [of "if cb_lenient_sync_failures s then nd else nd\<lparr>ino_pending := []\<rparr>"])
      (auto simp: cf_sync_data_def with_inode_def touched_def)
next
  case pass
  then show thesis
    using assms
    by (intro that [of "nd\<lparr>ino_durable := durable_after_sync nd, ino_pending := []\<rparr>"])
      (auto simp: cf_sync_data_def with_inode_def touched_def)
qed

text \<open>An inode whose content is \<open>c\<close> on disk and in the cache, with nothing harmful dirty.\<close>

definition calm :: "bytes \<Rightarrow> inode \<Rightarrow> bool" where
  "calm c nd \<longleftrightarrow> ino_durable nd = c \<and> ino_image nd = c \<and> (\<forall>p \<in> set (ino_pending nd). harmless c p)"

lemma push_harmless:
  "harmless (ino_image nd) p \<Longrightarrow> ino_image (push_pend p nd) = ino_image nd"
  "harmless c p \<Longrightarrow> calm c nd \<Longrightarrow> calm c (push_pend p nd)"
  by (auto simp: push_pend_def calm_def)

lemma harmless_prefix: "harmless c (PWrite 0 (take k c))"
  by (cases "k \<le> length c") (simp_all add: harmless_def)

lemma write_image_inode:
  assumes "cb_inodes s (cf_inode h) = Some nd" and "write_image crash_backing h c s = (r, s')"
  obtains nd' where "touched (cf_inode h) nd' s s'"
    and "r = Inr () \<longrightarrow> nd' = from_content c"
    and "ino_image nd = c \<longrightarrow> ino_image nd' = c"
    and "calm c nd \<longrightarrow> calm c nd'"
proof -
  let ?i = "cf_inode h"
  have len: "harmless c (PSetLen (length c))"
    by (simp add: harmless_def)
  have run: "io_bind (cf_set_len h (length c)) (\<lambda>_. io_bind (cf_write_at h 0 c) (\<lambda>_. cf_sync_data h)) s = (r, s')"
    using assms(2) by (simp add: write_image_def crash_backing_def)
  then show thesis
  proof (cases rule: io_bindE)
    case (err e)
    then show thesis
      using cf_set_len_spec [OF assms(1) err(1)] that [of nd] by simp
  next
    case (ok u s1)
    let ?nd1 = "push_pend (PSetLen (length c)) nd"
    have t1: "touched ?i ?nd1 s s1"
      using cf_set_len_spec [OF assms(1) ok(1)] by simp
    then have i1: "cb_inodes s1 ?i = Some ?nd1"
      by (simp add: touched_def)
    have same1: "ino_image nd = c \<Longrightarrow> ino_image ?nd1 = c" "calm c nd \<Longrightarrow> calm c ?nd1"
      using push_harmless(1) [where nd = nd and p = "PSetLen (length c)"] push_harmless(2) [OF len] len by auto
    from ok(2) show thesis
    proof (cases rule: io_bindE)
      case (err e)
      obtain k nd2 where t2: "touched ?i nd2 s1 s'"
        and nd2: "nd2 = ?nd1 \<or> nd2 = push_pend (PWrite 0 (take k c)) ?nd1"
        using i1 err(1) by (rule cf_write_at_spec)
      have "ino_image nd = c \<Longrightarrow> ino_image nd2 = c" "calm c nd \<Longrightarrow> calm c nd2"
        using nd2 same1 harmless_prefix [of c k] push_harmless(1) [where nd = ?nd1] push_harmless(2) [where c = c]
        by auto
      then show thesis
        using that [of nd2] touched_trans [OF t1 t2] err(2) by simp
    next
      case (ok v s2)
      define nd2 where "nd2 = (if c = [] then ?nd1 else push_pend (PWrite 0 c) ?nd1)"
      obtain k nd2' where t2: "touched ?i nd2' s1 s2" and "nd2' = nd2"
        using i1 ok(1) unfolding nd2_def by (rule cf_write_at_spec) simp
      then have t2: "touched ?i nd2 s1 s2"
        by simp
      then have i2: "cb_inodes s2 ?i = Some nd2"
        by (simp add: touched_def)
      have same2: "ino_image nd2 = c"
        by (simp add: nd2_def push_pend_def apply_pend_def)
      have calm2: "calm c nd \<Longrightarrow> calm c nd2"
        using same1(2) push_harmless(2) [OF harmless_prefix [of c "length c"], of ?nd1]
        by (auto simp: nd2_def)
      have after: "durable_after_sync nd2 = c"
        by (simp add: nd2_def durable_after_sync_def push_pend_def apply_pend_def)
      obtain nd3 where t3: "touched ?i nd3 s2 s'"
        and ok3: "r = Inr () \<longrightarrow> nd3 = nd2\<lparr>ino_durable := durable_after_sync nd2, ino_pending := []\<rparr>"
        and err3: "r \<noteq> Inr () \<longrightarrow> nd3 = nd2 \<or> nd3 = nd2\<lparr>ino_pending := []\<rparr>"
        using i2 ok(2) by (rule cf_sync_data_spec)
      have "touched ?i nd3 s s'"
        using t1 t2 t3 by (blast intro: touched_trans)
      moreover have "r = Inr () \<Longrightarrow> nd3 = from_content c"
        using ok3 after same2 by (simp add: from_content_def)
      moreover have "ino_image nd3 = c" "calm c nd \<Longrightarrow> calm c nd3"
        using ok3 err3 same2 calm2 after by (cases "r = Inr ()"; auto simp: calm_def)+
      ultimately show thesis
        using that by blast
    qed
  qed
qed

section \<open>The medium contract\<close>

definition entry_ids :: "name_entry \<Rightarrow> nat set" where
  "entry_ids n = set_option (nm_durable n) \<union> set_option (nm_volatile n)"

text \<open>Faults are hard errors: the hook never claims that an existing file is absent or short.\<close>

definition hook_ok :: "crash_state \<Rightarrow> bool" where
  "hook_ok s \<longleftrightarrow> (\<forall>k op. cb_hook s k op \<noteq> Some NotFound \<and> cb_hook s k op \<noteq> Some UnexpectedEof)"

text \<open>No two names share an inode, every named inode exists, and only valid paths are names.\<close>

definition names_ok :: "(string, name_entry) fmap \<Rightarrow> (nat \<Rightarrow> inode option) \<Rightarrow> nat \<Rightarrow> bool" where
  "names_ok names inodes next_inode \<longleftrightarrow>
     (\<forall>p n. fmlookup names p = Some n \<longrightarrow> validate p False = Inr () \<and>
        (\<forall>i \<in> entry_ids n. i \<le> next_inode \<and> inodes i \<noteq> None)) \<and>
     (\<forall>p q m n. fmlookup names p = Some m \<longrightarrow> fmlookup names q = Some n \<longrightarrow> p \<noteq> q \<longrightarrow>
        entry_ids m \<inter> entry_ids n = {})"

definition cb_inv :: "crash_state \<Rightarrow> bool" where
  "cb_inv s \<longleftrightarrow> hook_ok s \<and> names_ok (cb_names s) (cb_inodes s) (cb_next_inode s)"

definition cb_view :: "crash_state \<Rightarrow> string \<Rightarrow> bytes option" where
  "cb_view s p = Option.bind (volatile s p) (\<lambda>i. map_option ino_image (cb_inodes s i))"

definition cb_settled :: "crash_state \<Rightarrow> string \<Rightarrow> bytes \<Rightarrow> bool" where
  "cb_settled s p c \<longleftrightarrow> (\<exists>n i nd. fmlookup (cb_names s) p = Some n \<and> nm_durable n = Some i \<and>
     nm_volatile n = Some i \<and> cb_inodes s i = Some nd \<and> calm c nd)"

definition cb_synced :: "crash_state \<Rightarrow> string \<Rightarrow> bytes \<Rightarrow> bool" where
  "cb_synced s p c \<longleftrightarrow> (\<exists>i. volatile s p = Some i \<and> cb_inodes s i = Some (from_content c))"

definition cb_opened :: "crash_state \<Rightarrow> crash_file \<Rightarrow> string \<Rightarrow> bool" where
  "cb_opened s h p \<longleftrightarrow> volatile s p = Some (cf_inode h)"

definition cb_crash :: "crash_state \<Rightarrow> crash_state \<Rightarrow> bool" where
  "cb_crash s s' \<longleftrightarrow> (\<exists>ch. s' = crash_random ch s) \<or> s' = crash_all_lost s \<or>
     (\<exists>path k. crash_keep_torn_prefix path k s = Some s')"

lemma volatile_SomeE:
  assumes "volatile s p = Some i"
  obtains n where "fmlookup (cb_names s) p = Some n" and "nm_volatile n = Some i"
  using assms by (auto simp: volatile_def bind_eq_Some_conv)

lemma volatile_named:
  "cb_inv s \<Longrightarrow> volatile s p = Some i \<Longrightarrow> i \<le> cb_next_inode s \<and> (\<exists>nd. cb_inodes s i = Some nd)"
  by (erule volatile_SomeE) (auto simp: cb_inv_def names_ok_def entry_ids_def)

lemma volatile_inj: "cb_inv s \<Longrightarrow> volatile s p = Some i \<Longrightarrow> volatile s q = Some i \<Longrightarrow> p = q"
  by (elim volatile_SomeE) (fastforce simp: cb_inv_def names_ok_def entry_ids_def)

text \<open>The bookkeeping fields do not matter.\<close>

definition same_files :: "crash_state \<Rightarrow> crash_state \<Rightarrow> bool" where
  "same_files s s' \<longleftrightarrow> cb_names s' = cb_names s \<and> cb_inodes s' = cb_inodes s \<and>
     cb_next_inode s' = cb_next_inode s \<and> cb_hook s' = cb_hook s"

lemma same_files_keep:
  assumes "same_files s s'"
  shows "cb_inv s' = cb_inv s" and "cb_view s' = cb_view s" and "cb_settled s' = cb_settled s"
    and "cb_opened s' = cb_opened s" and "cb_synced s' = cb_synced s"
proof -
  have [simp]: "volatile s' = volatile s"
    using assms by (simp add: same_files_def volatile_def fun_eq_iff)
  show "cb_inv s' = cb_inv s"
    using assms by (simp add: same_files_def cb_inv_def hook_ok_def)
  show "cb_view s' = cb_view s" "cb_settled s' = cb_settled s" "cb_opened s' = cb_opened s"
    "cb_synced s' = cb_synced s"
    using assms
    by (intro ext, simp add: same_files_def cb_view_def cb_settled_def cb_opened_def cb_synced_def)+
qed

text \<open>Touching the inode of one name.\<close>

lemma touched_keep:
  assumes "cb_inv s" and "volatile s p = Some i" and "touched i nd s s'"
  shows "cb_inv s'" and "q \<noteq> p \<Longrightarrow> cb_view s' q = cb_view s q"
    and "cb_view s' p = Some (ino_image nd)"
    and "q \<noteq> p \<Longrightarrow> cb_settled s q c \<Longrightarrow> cb_settled s' q c"
    and "nd = from_content c \<Longrightarrow> cb_synced s' p c"
proof -
  have names: "cb_names s' = cb_names s" and inodes: "cb_inodes s' = (cb_inodes s)(i \<mapsto> nd)"
    and rest: "cb_hook s' = cb_hook s" "cb_next_inode s' = cb_next_inode s"
    using assms(3) by (simp_all add: touched_def)
  have vol: "volatile s' = volatile s"
    by (simp add: volatile_def names fun_eq_iff)
  show "cb_inv s'"
    using assms(1) by (auto simp: cb_inv_def hook_ok_def names_ok_def names inodes rest)
  show "cb_view s' p = Some (ino_image nd)"
    using assms(2) by (simp add: cb_view_def vol inodes)
  show "cb_view s' q = cb_view s q" if "q \<noteq> p"
  proof -
    have "volatile s q \<noteq> Some i"
      using volatile_inj [OF assms(1,2)] that by blast
    then show ?thesis
      by (cases "volatile s q") (auto simp: cb_view_def vol inodes)
  qed
  show "cb_settled s' q c" if ne: "q \<noteq> p" and st: "cb_settled s q c"
  proof -
    obtain n k nd' where n: "fmlookup (cb_names s) q = Some n" "nm_durable n = Some k" "nm_volatile n = Some k"
      "cb_inodes s k = Some nd'" "calm c nd'"
      using st by (auto simp: cb_settled_def)
    then have "k \<noteq> i"
      using volatile_inj [OF assms(1,2), of q] ne by (auto simp: volatile_def)
    then show ?thesis
      using n by (auto simp: cb_settled_def names inodes)
  qed
  show "cb_synced s' p c" if "nd = from_content c"
    using that assms(2) by (simp add: cb_synced_def vol inodes)
qed

lemma touched_calm:
  assumes "cb_inv s" and "volatile s p = Some i" and "cb_inodes s i = Some nd" and "touched i nd' s s'"
    and "\<And>c. calm c nd \<Longrightarrow> calm c nd'"
  shows "cb_settled s \<le> cb_settled s'"
proof (intro le_funI le_boolI)
  fix q c
  assume q: "cb_settled s q c"
  show "cb_settled s' q c"
  proof (cases "q = p")
    case True
    obtain n k nd0 where n: "fmlookup (cb_names s) p = Some n" "nm_durable n = Some k" "nm_volatile n = Some k"
      "cb_inodes s k = Some nd0" "calm c nd0"
      using q True by (auto simp: cb_settled_def)
    then have "k = i" and "nd0 = nd"
      using assms(2,3) by (auto simp: volatile_def)
    then show ?thesis
      using n assms(4,5) True by (auto simp: cb_settled_def touched_def)
  next
    case False
    then show ?thesis
      using touched_keep(4) [OF assms(1,2,4)] q by blast
  qed
qed

subsection \<open>Opening\<close>

lemma check_same: "check op s = (r, s') \<Longrightarrow> same_files s s'"
  by (cases rule: check_cases [where s = s and op = op]) (auto simp: same_files_def)

lemma check_not_absent:
  "hook_ok s \<Longrightarrow> check op s = (Inl e, s') \<Longrightarrow> e \<noteq> NotFound \<and> e \<noteq> UnexpectedEof"
  by (cases rule: check_cases [where s = s and op = op]) (auto simp: hook_ok_def)

text \<open>Opening either finds the name, or leaves the files alone, or creates an empty inode under a
  name that did not exist.\<close>

lemma cb_open_cases:
  assumes "cb_open p cr s = (r, s')" and "cb_inv s"
  obtains (found) i where "same_files s s'" and "volatile s p = Some i" and "r = Inr \<lparr>cf_path = p, cf_inode = i\<rparr>"
  | (fails) e where "same_files s s'" and "r = Inl e" and "e = NotFound \<longrightarrow> volatile s p = None"
  | (created) s1 i change where "same_files s s1" and "volatile s p = None" and "cr" and "validate p False = Inr ()"
    and "i = Suc (cb_next_inode s)" and "r = Inr \<lparr>cf_path = p, cf_inode = i\<rparr>"
    and "s' = relink p (Some i) change (s1\<lparr>cb_next_inode := i,
          cb_inodes := (cb_inodes s1)(i \<mapsto> inode_default), cb_next_change := change\<rparr>)"
proof (cases "validate p False")
  case (Inl e)
  then have "r = Inl e" and "s' = s" and "e = InvalidInput"
    using assms(1) validate_not_NotFound by (auto simp: cb_open_def)
  then show thesis
    by (intro fails [of e]) (simp_all add: same_files_def)
next
  case (Inr u)
  obtain q s1 where c: "check (FOpen p cr) s = (q, s1)"
    by (cases "check (FOpen p cr) s")
  have same: "same_files s s1"
    using c by (rule check_same)
  then have vol: "volatile s1 = volatile s" and nxt: "cb_next_inode s1 = cb_next_inode s"
    by (simp_all add: same_files_def volatile_def fun_eq_iff)
  show thesis
  proof (cases q)
    case (Inl e)
    then have "r = Inl e" and "s' = s1"
      using assms(1) c Inr by (auto simp: cb_open_def)
    then show thesis
      using same check_not_absent [of s "FOpen p cr" e s1] c Inl assms(2)
      by (intro fails [of e]) (auto simp: cb_inv_def)
  next
    case (Inr v)
    show thesis
    proof (cases "volatile s p")
      case None
      show thesis
      proof (cases cr)
        case True
        then show thesis
          using assms(1) c Inr \<open>validate p False = Inr u\<close> same vol nxt None
          by (intro created [of s1 "Suc (cb_next_inode s)" "Suc (cb_next_change s1)"])
            (auto simp: cb_open_def new_change_def Let_def)
      next
        case False
        then show thesis
          using assms(1) c Inr \<open>validate p False = Inr u\<close> same vol None
          by (intro fails [of NotFound]) (auto simp: cb_open_def)
      qed
    next
      case (Some i)
      then show thesis
        using assms(1) c Inr \<open>validate p False = Inr u\<close> same vol
        by (intro found [of i]) (auto simp: cb_open_def)
    qed
  qed
qed

lemma cb_created:
  assumes "cb_inv s" and "same_files s s1" and "volatile s p = None" and "validate p False = Inr ()"
    and "i = Suc (cb_next_inode s)"
    and s': "s' = relink p (Some i) change (s1\<lparr>cb_next_inode := i,
      cb_inodes := (cb_inodes s1)(i \<mapsto> inode_default), cb_next_change := change\<rparr>)"
  shows "cb_inv s'" and "q \<noteq> p \<Longrightarrow> cb_view s' q = cb_view s q" and "cb_settled s \<le> cb_settled s'"
    and "volatile s' p = Some i"
proof -
  define n' where "n' = (case fmlookup (cb_names s) p of Some n \<Rightarrow> n
      | None \<Rightarrow> \<lparr>nm_durable = None, nm_volatile = None, nm_change = 0\<rparr>)\<lparr>nm_volatile := Some i, nm_change := change\<rparr>"
  have names: "cb_names s' = fmupd p n' (cb_names s)"
    and inodes: "cb_inodes s' = (cb_inodes s)(i \<mapsto> inode_default)"
    and rest: "cb_hook s' = cb_hook s" "cb_next_inode s' = i"
    using assms(2) by (simp_all add: s' relink_def n'_def same_files_def Let_def)
  have old: "validate q False = Inr ()" "k \<in> entry_ids n \<Longrightarrow> k < i \<and> cb_inodes s k \<noteq> None"
    if "fmlookup (cb_names s) q = Some n" for q n k
    using assms(1,5) that by (auto simp: cb_inv_def names_ok_def less_Suc_eq_le)
  have disj: "entry_ids m \<inter> entry_ids n = {}"
    if "fmlookup (cb_names s) q = Some m" "fmlookup (cb_names s) q' = Some n" "q \<noteq> q'" for q q' m n
    using assms(1) that by (auto simp: cb_inv_def names_ok_def)
  have ids: "entry_ids n' \<subseteq> insert i (case fmlookup (cb_names s) p of Some n \<Rightarrow> entry_ids n | None \<Rightarrow> {})"
    by (auto simp: n'_def entry_ids_def split: option.splits)
  have new: "k \<in> entry_ids n' \<Longrightarrow> k = i \<or> (\<exists>n. fmlookup (cb_names s) p = Some n \<and> k \<in> entry_ids n)" for k
    using ids by (auto split: option.splits)
  have apart: "entry_ids n' \<inter> entry_ids n = {}" if "fmlookup (cb_names s) q = Some n" "q \<noteq> p" for q n
    using new old(2) [OF that(1)] disj [OF _ that(1)] that(2) by (auto; blast)
  have "names_ok (cb_names s') (cb_inodes s') i"
    unfolding names_ok_def names inodes
  proof (intro conjI allI impI)
    fix q n
    assume q: "fmlookup (fmupd p n' (cb_names s)) q = Some n"
    show "validate q False = Inr ()"
      using q assms(4) old(1) by (auto split: if_splits)
    show "\<forall>k \<in> entry_ids n. k \<le> i \<and> ((cb_inodes s)(i \<mapsto> inode_default)) k \<noteq> None"
      using q new old(2) by (auto split: if_splits dest!: new; fastforce)
  next
    fix q q' m n
    assume "fmlookup (fmupd p n' (cb_names s)) q = Some m" "fmlookup (fmupd p n' (cb_names s)) q' = Some n"
      "q \<noteq> q'"
    then show "entry_ids m \<inter> entry_ids n = {}"
      using apart disj by (auto split: if_splits; blast)
  qed
  then show "cb_inv s'"
    using assms(1) by (simp add: cb_inv_def hook_ok_def rest)
  show vp: "volatile s' p = Some i"
    by (simp add: volatile_def names n'_def)
  have vol: "volatile s' q = volatile s q" if "q \<noteq> p" for q
    using that by (simp add: volatile_def names)
  have ne: "volatile s q \<noteq> Some i" for q
    using volatile_named [OF assms(1), of q i] assms(5) by auto
  show "cb_view s' q = cb_view s q" if "q \<noteq> p"
    using vol [OF that] ne [of q] by (cases "volatile s q") (auto simp: cb_view_def inodes)
  show "cb_settled s \<le> cb_settled s'"
  proof (intro le_funI le_boolI)
    fix q c
    assume "cb_settled s q c"
    then obtain n k nd where n: "fmlookup (cb_names s) q = Some n" "nm_durable n = Some k"
      "nm_volatile n = Some k" "cb_inodes s k = Some nd" "calm c nd"
      by (auto simp: cb_settled_def)
    then have "q \<noteq> p" and "k \<noteq> i"
      using assms(3) ne [of q] by (auto simp: volatile_def)
    then show "cb_settled s' q c"
      using n by (auto simp: cb_settled_def names inodes)
  qed
qed

subsection \<open>Directory syncs\<close>

lemma lookup_committed:
  "fmlookup (committed_names d names) p =
     (case fmlookup names p of
        None \<Rightarrow> None
      | Some n \<Rightarrow>
          let n' = commit_entry d p n
          in if nm_durable n' = None \<and> nm_volatile n' = None then None else Some n')"
  by (simp add: committed_names_def Let_def fmlookup_fmmap_keys split: option.split)

lemma commit_ids: "entry_ids (commit_entry d p n) \<subseteq> entry_ids n"
  by (auto simp: commit_entry_def entry_ids_def)

lemma commit_volatile [simp]: "nm_volatile (commit_entry d p n) = nm_volatile n"
  by (simp add: commit_entry_def)

text \<open>Replacing the name table by one whose entries point to no other inodes keeps the name
  invariant.\<close>

lemma names_ok_sub:
  assumes "names_ok names inodes k"
    and "\<And>p n. fmlookup names' p = Some n \<Longrightarrow> \<exists>m. fmlookup names p = Some m \<and> entry_ids n \<subseteq> entry_ids m"
    and "\<And>p n i. fmlookup names' p = Some n \<Longrightarrow> i \<in> entry_ids n \<Longrightarrow> inodes' i \<noteq> None"
  shows "names_ok names' inodes' k"
  unfolding names_ok_def
proof (intro conjI allI impI ballI)
  fix p n i
  assume p: "fmlookup names' p = Some n"
  obtain m where m: "fmlookup names p = Some m" "entry_ids n \<subseteq> entry_ids m"
    using assms(2) [OF p] by blast
  show "validate p False = Inr ()"
    using assms(1) m(1) by (auto simp: names_ok_def)
  assume i: "i \<in> entry_ids n"
  then show "i \<le> k"
    using assms(1) m by (auto simp: names_ok_def)
  show "inodes' i \<noteq> None"
    using assms(3) [OF p i] .
next
  fix p q m n
  assume pq: "fmlookup names' p = Some m" "fmlookup names' q = Some n" "p \<noteq> q"
  obtain m' n' where "fmlookup names p = Some m'" "entry_ids m \<subseteq> entry_ids m'"
    "fmlookup names q = Some n'" "entry_ids n \<subseteq> entry_ids n'"
    using assms(2) [OF pq(1)] assms(2) [OF pq(2)] by blast
  then show "entry_ids m \<inter> entry_ids n = {}"
    using assms(1) pq(3) unfolding names_ok_def by blast
qed

lemma direct_parent:
  assumes "validate p False = Inr ()"
  shows "direct_entry (parent p) p \<noteq> None"
proof -
  have pne: "p \<noteq> []" and comps: "\<forall>c \<in> set (split_on (CHR ''/'') p). c \<noteq> []"
    using assms by (auto simp: validate_def validate_components_iff split: if_splits)
  show ?thesis
  proof (cases "CHR ''/'' \<in> set p")
    case True
    then have p: "p = parent p @ CHR ''/'' # file_name p"
      using parent_file_name(1) [of p] by simp
    have hd: "hd p \<noteq> CHR ''/''"
      using assms pne by (auto simp: validate_def split: if_splits)
    then have "parent p \<noteq> []"
      using p by (metis append_Nil list.sel(1))
    moreover have "file_name p \<noteq> []"
    proof
      assume "file_name p = []"
      then have "p = parent p @ [CHR ''/'']"
        using p by simp
      moreover have "tl (split_on c (xs @ [c])) \<noteq> [] \<and> last (split_on c (xs @ [c])) = []" for c xs
        by (induction xs) (auto split: list.splits)
      then have "[] \<in> set (split_on c (xs @ [c]))" for c xs
        by (metis last_in_set split_on_ne)
      ultimately show False
        using comps by metis
    qed
    moreover have "strip_prefix (parent p @ ''/'') p = Some (file_name p)"
      by (subst (2) p) (metis append.assoc append_Cons append_Nil strip_prefix_append)
    ultimately show ?thesis
      using parent_file_name(2) [of p] by (simp add: direct_entry_def dir_prefix_def)
  next
    case False
    then have "parent p = []"
      using rfind_None [of "CHR ''/''" p] by (simp add: parent_def)
    then show ?thesis
      using False pne by (simp add: direct_entry_def dir_prefix_def strip_prefix_def)
  qed
qed

lemma cb_sync_dir_cases:
  assumes "cb_sync_dir d s = (r, s')"
  obtains (fails) "same_files s s'" and "r \<noteq> Inr ()"
  | (ok) "cb_names s' = committed_names d (cb_names s)" and "cb_inodes s' = cb_inodes s"
    and "cb_next_inode s' = cb_next_inode s" and "cb_hook s' = cb_hook s"
proof (cases "validate d True")
  case (Inl e)
  then show thesis
    using assms by (intro fails) (auto simp: cb_sync_dir_def same_files_def)
next
  case (Inr u)
  obtain q s1 where c: "check (FSyncDir d) s = (q, s1)"
    by (cases "check (FSyncDir d) s")
  have same: "same_files s s1"
    using c by (rule check_same)
  show thesis
  proof (cases q)
    case (Inl e)
    then show thesis
      using assms c \<open>validate d True = Inr u\<close> same by (intro fails) (auto simp: cb_sync_dir_def)
  next
    case (Inr v)
    then show thesis
      using assms c \<open>validate d True = Inr u\<close> same
      by (intro ok) (auto simp: cb_sync_dir_def same_files_def Let_def)
  qed
qed

lemma cb_sync_dir_keep:
  assumes "cb_inv s" and "cb_sync_dir d s = (r, s')"
  shows "cb_inv s'" and "cb_view s' = cb_view s" and "cb_settled s \<le> cb_settled s'"
    and "r = Inr () \<Longrightarrow> cb_synced s p c \<Longrightarrow> d = parent p \<Longrightarrow> cb_settled s' p c"
proof -
  have "cb_inv s' \<and> cb_view s' = cb_view s \<and> cb_settled s \<le> cb_settled s' \<and>
      (r = Inr () \<longrightarrow> cb_synced s p c \<longrightarrow> d = parent p \<longrightarrow> cb_settled s' p c)"
    using assms(2)
  proof (cases rule: cb_sync_dir_cases)
    case fails
    then show ?thesis
      using same_files_keep [OF fails(1)] assms(1) by simp
  next
    case ok
    have look: "fmlookup (cb_names s') q = (case fmlookup (cb_names s) q of
        None \<Rightarrow> None
      | Some n \<Rightarrow> let n' = commit_entry d q n
          in if nm_durable n' = None \<and> nm_volatile n' = None then None else Some n')" for q
      by (simp add: ok(1) lookup_committed)
    have "names_ok (cb_names s') (cb_inodes s) (cb_next_inode s)"
    proof (rule names_ok_sub)
      show ok0: "names_ok (cb_names s) (cb_inodes s) (cb_next_inode s)"
        using assms(1) by (simp add: cb_inv_def)
      show sub: "\<exists>m. fmlookup (cb_names s) q = Some m \<and> entry_ids n \<subseteq> entry_ids m"
        if "fmlookup (cb_names s') q = Some n" for q n
        using that commit_ids by (auto simp: look Let_def split: option.splits if_splits)
      show "cb_inodes s i \<noteq> None" if "fmlookup (cb_names s') q = Some n" "i \<in> entry_ids n" for q n i
        using sub [OF that(1)] that(2) ok0 by (auto simp: names_ok_def)
    qed
    then have inv: "cb_inv s'"
      using assms(1) ok by (simp add: cb_inv_def hook_ok_def)
    have vol: "volatile s' q = volatile s q" for q
      by (auto simp: volatile_def look Let_def split: option.split)
    have view: "cb_view s' = cb_view s"
      using ok(2) by (simp add: cb_view_def vol fun_eq_iff)
    have "cb_settled s' q c" if st: "cb_settled s q c" for q c
    proof -
      obtain n i nd where n: "fmlookup (cb_names s) q = Some n" "nm_durable n = Some i"
        "nm_volatile n = Some i" "cb_inodes s i = Some nd" "calm c nd"
        using st by (auto simp: cb_settled_def)
      then have "commit_entry d q n = n"
        by (simp add: commit_entry_def)
      then show ?thesis
        using n ok(2) by (auto simp: cb_settled_def look Let_def)
    qed
    moreover have "cb_settled s' p c" if sy: "cb_synced s p c" and d: "d = parent p"
    proof -
      obtain i n where n: "fmlookup (cb_names s) p = Some n" "nm_volatile n = Some i"
        "cb_inodes s i = Some (from_content c)"
        using sy by (auto simp: cb_synced_def elim: volatile_SomeE)
      have "validate p False = Inr ()"
        using assms(1) n(1) by (auto simp: cb_inv_def names_ok_def)
      then have "nm_durable (commit_entry d p n) = Some i"
        using direct_parent d n(2) by (simp add: commit_entry_def)
      then show ?thesis
        using n ok(2) by (auto simp: cb_settled_def look Let_def calm_def from_content_def)
    qed
    ultimately show ?thesis
      using inv view by auto
  qed
  then show "cb_inv s'" "cb_view s' = cb_view s" "cb_settled s \<le> cb_settled s'"
    "r = Inr () \<Longrightarrow> cb_synced s p c \<Longrightarrow> d = parent p \<Longrightarrow> cb_settled s' p c"
    by blast+
qed

subsection \<open>Crashes\<close>

lemma lookup_settled:
  "fmlookup (settled_names keep names) p =
     (case fmlookup names p of
        None \<Rightarrow> None
      | Some n \<Rightarrow> let n' = settle_entry keep n in if nm_durable n' = None then None else Some n')"
  by (simp add: settled_names_def Let_def split: option.split)

lemma settle_ids: "entry_ids (settle_entry keep n) \<subseteq> entry_ids n"
  by (auto simp: settle_entry_def entry_ids_def Let_def)

lemma settle_same: "nm_durable (settle_entry keep n) = nm_volatile (settle_entry keep n)"
  by (simp add: settle_entry_def name_pending_def Let_def)

lemma live_iff:
  "i |\<in>| live_inodes names \<longleftrightarrow> (\<exists>p n. fmlookup names p = Some n \<and> nm_durable n = Some i)"
  by (force simp: live_inodes_def fmlookup_ran_iff)

lemma crash_with_keep:
  assumes "cb_inv s" and "\<And>i nd c. calm c nd \<Longrightarrow> content i nd = c"
  shows "cb_inv (crash_with dirs keep content s)"
    and "cb_settled s \<le> cb_settled (crash_with dirs keep content s)"
proof -
  let ?s' = "crash_with dirs keep content s"
  have names: "cb_names ?s' = settled_names keep (cb_names s)"
    and rest: "cb_hook ?s' = cb_hook s" "cb_next_inode ?s' = cb_next_inode s"
    and inodes: "cb_inodes ?s' i = (if i |\<in>| live_inodes (settled_names keep (cb_names s))
      then map_option (\<lambda>nd. from_content (content i nd)) (cb_inodes s i) else None)" for i
    by (simp_all add: crash_with_def Let_def)
  have look: "fmlookup (cb_names ?s') p = (case fmlookup (cb_names s) p of
        None \<Rightarrow> None
      | Some n \<Rightarrow> let n' = settle_entry keep n in if nm_durable n' = None then None else Some n')" for p
    by (simp add: names lookup_settled)
  have "names_ok (cb_names ?s') (cb_inodes ?s') (cb_next_inode s)"
  proof (rule names_ok_sub)
    show ok0: "names_ok (cb_names s) (cb_inodes s) (cb_next_inode s)"
      using assms(1) by (simp add: cb_inv_def)
    show sub: "\<exists>m. fmlookup (cb_names s) q = Some m \<and> entry_ids n \<subseteq> entry_ids m"
      if "fmlookup (cb_names ?s') q = Some n" for q n
      using that settle_ids by (auto simp: look Let_def split: option.splits if_splits)
    show "cb_inodes ?s' i \<noteq> None" if q: "fmlookup (cb_names ?s') q = Some n" and i: "i \<in> entry_ids n" for q n i
    proof -
      have "nm_durable n = nm_volatile n"
        using q settle_same by (auto simp: look Let_def split: option.splits if_splits)
      then have "i |\<in>| live_inodes (settled_names keep (cb_names s))"
        using q i unfolding live_iff names [symmetric] by (auto simp: entry_ids_def)
      moreover have "cb_inodes s i \<noteq> None"
        using sub [OF q] i ok0 by (auto simp: names_ok_def)
      ultimately show ?thesis
        by (simp add: inodes)
    qed
  qed
  then show "cb_inv ?s'"
    using assms(1) rest by (simp add: cb_inv_def hook_ok_def)
  show "cb_settled s \<le> cb_settled ?s'"
  proof (intro le_funI le_boolI)
    fix q c
    assume "cb_settled s q c"
    then obtain n i nd where n: "fmlookup (cb_names s) q = Some n" "nm_durable n = Some i"
      "nm_volatile n = Some i" "cb_inodes s i = Some nd" "calm c nd"
      by (auto simp: cb_settled_def)
    then have "settle_entry keep n = n"
      by (simp add: settle_entry_def name_pending_def)
    then have q: "fmlookup (cb_names ?s') q = Some n"
      using n(1,2) by (simp add: look Let_def)
    then have "i |\<in>| live_inodes (settled_names keep (cb_names s))"
      using n(2) unfolding live_iff names [symmetric] by blast
    then have "cb_inodes ?s' i = Some (from_content c)"
      using n(4) assms(2) [OF n(5)] by (simp add: inodes)
    then show "cb_settled ?s' q c"
      using q n(2,3) by (auto simp: cb_settled_def calm_def from_content_def)
  qed
qed

lemma cb_crash_keep:
  assumes "cb_inv s" and "cb_crash s s'"
  shows "cb_inv s'" and "cb_settled s \<le> cb_settled s'"
proof -
  have "\<exists>dirs keep content. s' = crash_with dirs keep content s \<and> (\<forall>i nd c. calm c nd \<longrightarrow> content i nd = c)"
    using assms(2) unfolding cb_crash_def
  proof (elim disjE exE)
    fix ch
    assume "s' = crash_random ch s"
    then show ?thesis
      by (auto simp: crash_random_def calm_def crash_ops_harmless
          intro!: exI [of _ "ch_dir ch"] exI [of _ "ch_name ch"]
            exI [of _ "\<lambda>i nd. crash_ops (cb_tearing s) (ch_op ch i) 0 (ino_pending nd) (ino_durable nd)"])
  next
    assume "s' = crash_all_lost s"
    then show ?thesis
      by (auto simp: crash_all_lost_def calm_def
          intro!: exI [of _ "\<lambda>_. False"] exI [of _ "\<lambda>i nd. ino_durable nd"])
  next
    fix path k
    assume "crash_keep_torn_prefix path k s = Some s'"
    then show ?thesis
      by (force simp: crash_keep_torn_prefix_def calm_def torn_prefix_harmless Let_def
          split: option.splits)
  qed
  then show "cb_inv s'" "cb_settled s \<le> cb_settled s'"
    using crash_with_keep [OF assms(1)] by (metis, metis)
qed

subsection \<open>The interpretation\<close>

lemma cb_open_spec:
  assumes "cb_inv s" and "cb_open p cr s = (r, s')"
  shows "cb_inv s'" and "q \<noteq> p \<or> \<not> cr \<or> cb_view s q \<noteq> None \<Longrightarrow> cb_view s' q = cb_view s q"
    and "cb_settled s \<le> cb_settled s'" and "r = Inr h \<Longrightarrow> cb_opened s' h p"
    and "r = Inl NotFound \<Longrightarrow> cb_view s p = None"
proof -
  have "cb_inv s' \<and> (q \<noteq> p \<or> \<not> cr \<or> cb_view s q \<noteq> None \<longrightarrow> cb_view s' q = cb_view s q) \<and>
      cb_settled s \<le> cb_settled s' \<and> (r = Inr h \<longrightarrow> cb_opened s' h p) \<and>
      (r = Inl NotFound \<longrightarrow> cb_view s p = None)"
    using assms(2,1)
  proof (cases rule: cb_open_cases)
    case (found i)
    note same = same_files_keep [OF found(1)]
    show ?thesis
      using found assms(1) unfolding same by (auto simp: cb_opened_def)
  next
    case (fails e)
    note same = same_files_keep [OF fails(1)]
    show ?thesis
      using fails assms(1) unfolding same by (auto simp: cb_view_def)
  next
    case (created s1 i change)
    note c = cb_created [OF assms(1) created(1,2,4,5,7)]
    have "cb_view s p = None"
      using created(2) by (simp add: cb_view_def)
    then show ?thesis
      using c created(3,6) by (auto simp: cb_opened_def)
  qed
  then show "cb_inv s'" "q \<noteq> p \<or> \<not> cr \<or> cb_view s q \<noteq> None \<Longrightarrow> cb_view s' q = cb_view s q"
    "cb_settled s \<le> cb_settled s'" "r = Inr h \<Longrightarrow> cb_opened s' h p"
    "r = Inl NotFound \<Longrightarrow> cb_view s p = None"
    by blast+
qed

lemma cb_opened_inode:
  assumes "cb_inv s" and "cb_opened s h p"
  obtains nd where "cb_inodes s (cf_inode h) = Some nd" and "cb_view s p = Some (ino_image nd)"
proof -
  have v: "volatile s p = Some (cf_inode h)"
    using assms(2) by (simp add: cb_opened_def)
  then obtain nd where "cb_inodes s (cf_inode h) = Some nd"
    using volatile_named [OF assms(1) v] by blast
  then show thesis
    using v that by (simp add: cb_view_def)
qed

lemma with_inode_pure:
  assumes "cb_inodes s (cf_inode h) = Some nd" and "f nd s = (r, nd, s1)" and "same_files s s1"
  shows "\<exists>s'. with_inode h f s = (r, s') \<and> same_files s s'"
  using assms by (auto simp: with_inode_def same_files_def fun_upd_idem)

interpretation crash: ab_medium crash_backing cb_inv cb_view cb_settled cb_synced cb_opened cb_crash
proof unfold_locales
  fix s p c
  assume "cb_settled s p c"
  then show "cb_view s p = Some c"
    by (auto simp: cb_settled_def cb_view_def volatile_def calm_def)
next
  fix s p cr r s' q
  assume s: "cb_inv s" "b_open crash_backing p cr s = (r, s')"
  then have "cb_open p cr s = (r, s')"
    by (simp add: crash_backing_def)
  note spec = cb_open_spec [OF s(1) this]
  show "cb_inv s'" "q \<noteq> p \<or> \<not> cr \<or> cb_view s q \<noteq> None \<Longrightarrow> cb_view s' q = cb_view s q"
    "cb_settled s \<le> cb_settled s'"
    using spec by blast+
next
  fix s p cr h s'
  assume s: "cb_inv s" "b_open crash_backing p cr s = (Inr h, s')"
  then have "cb_open p cr s = (Inr h, s')"
    by (simp add: crash_backing_def)
  then show "cb_opened s' h p"
    by (rule cb_open_spec(4) [OF s(1)]) simp
next
  fix s p s'
  assume s: "cb_inv s" "b_open crash_backing p False s = (Inl NotFound, s')"
  then have "cb_open p False s = (Inl NotFound, s')"
    by (simp add: crash_backing_def)
  then show "cb_view s p = None"
    by (rule cb_open_spec(5) [OF s(1)]) simp
next
  fix s h p r s'
  assume s: "cb_inv s" "cb_opened s h p" and run: "f_len crash_backing h s = (r, s')"
  obtain nd where nd: "cb_inodes s (cf_inode h) = Some nd" "cb_view s p = Some (ino_image nd)"
    using s by (rule cb_opened_inode)
  have "r = Inr (length (ino_image nd))" and same: "same_files s s'"
    using run nd(1) by (auto simp: crash_backing_def cf_len_def with_inode_def same_files_def)
  then show "cb_inv s' \<and> cb_view s' = cb_view s \<and> cb_settled s' = cb_settled s \<and> cb_opened s' h p \<and>
      (\<forall>n. r = Inr n \<longrightarrow> (\<exists>c. cb_view s p = Some c \<and> length c = n))"
    using s nd(2) by (simp add: same_files_keep [OF same])
next
  fix s h p c off n r s'
  assume s: "cb_inv s" "cb_opened s h p" and c: "cb_view s p = Some c"
    and run: "f_read_at crash_backing h off n s = (r, s')"
  obtain nd where nd: "cb_inodes s (cf_inode h) = Some nd" "cb_view s p = Some (ino_image nd)"
    using s by (rule cb_opened_inode)
  then have "ino_image nd = c"
    using c by simp
  then have r: "r = (if length c < off + n then Inl UnexpectedEof else Inr (take n (drop off c)))"
    and same: "same_files s s'"
    using run nd(1)
    by (auto simp: crash_backing_def cf_read_at_def with_inode_def same_files_def split: if_splits)
  show "cb_inv s' \<and> cb_view s' = cb_view s \<and> cb_settled s' = cb_settled s \<and> cb_opened s' h p \<and>
      (\<forall>bs. r = Inr bs \<longrightarrow> off + n \<le> length c \<and> bs = take n (drop off c)) \<and>
      (r = Inl UnexpectedEof \<longrightarrow> length c < off + n)"
    using s by (auto simp: same_files_keep [OF same] r split: if_splits)
next
  fix s h p c r s'
  assume s: "cb_inv s" "cb_opened s h p" and run: "write_image crash_backing h c s = (r, s')"
  have v: "volatile s p = Some (cf_inode h)"
    using s(2) by (simp add: cb_opened_def)
  obtain nd where nd: "cb_inodes s (cf_inode h) = Some nd" "cb_view s p = Some (ino_image nd)"
    using s by (rule cb_opened_inode)
  obtain nd' where t: "touched (cf_inode h) nd' s s'" and ok: "r = Inr () \<longrightarrow> nd' = from_content c"
    and img: "ino_image nd = c \<longrightarrow> ino_image nd' = c" and calm: "calm c nd \<longrightarrow> calm c nd'"
    using nd(1) run by (rule write_image_inode)
  note keep = touched_keep [OF s(1) v t]
  show "cb_inv s' \<and> (\<forall>q. q \<noteq> p \<longrightarrow> cb_view s' q = cb_view s q) \<and>
      (\<forall>q d. q \<noteq> p \<longrightarrow> cb_settled s q d \<longrightarrow> cb_settled s' q d) \<and>
      (r = Inr () \<longrightarrow> cb_synced s' p c \<and> cb_view s' p = Some c)"
    using keep ok by (auto simp: from_content_def)
  assume c: "cb_view s p = Some c"
  then have im: "ino_image nd = c"
    using nd(2) by simp
  have "cb_view s' q = cb_view s q" for q
    using keep(2,3) c img im by (cases "q = p") auto
  moreover have "calm d nd \<Longrightarrow> calm d nd'" for d
    using calm im by (auto simp: calm_def)
  then have "cb_settled s \<le> cb_settled s'"
    by (rule touched_calm [OF s(1) v nd(1) t])
  ultimately show "cb_view s' = cb_view s \<and> cb_settled s \<le> cb_settled s'"
    by auto
next
  fix s d r s'
  assume s: "cb_inv s" "b_sync_dir crash_backing d s = (r, s')"
  then have "cb_sync_dir d s = (r, s')"
    by (simp add: crash_backing_def)
  from cb_sync_dir_keep [OF s(1) this]
  show "cb_inv s' \<and> cb_view s' = cb_view s \<and> cb_settled s \<le> cb_settled s'"
    by blast
next
  fix s p c s'
  assume s: "cb_inv s" "cb_synced s p c" "b_sync_dir crash_backing (parent p) s = (Inr (), s')"
  then have "cb_sync_dir (parent p) s = (Inr (), s')"
    by (simp add: crash_backing_def)
  from cb_sync_dir_keep(4) [OF s(1) this refl s(2) refl] show "cb_settled s' p c" .
next
  fix s s'
  assume "cb_inv s" "cb_crash s s'"
  then show "cb_inv s'" "cb_settled s \<le> cb_settled s'"
    by (rule cb_crash_keep)+
qed

subsection \<open>Frames\<close>

text \<open>A name that no crash can bring back.\<close>

definition cb_absent :: "crash_state \<Rightarrow> string \<Rightarrow> bool" where
  "cb_absent s p \<longleftrightarrow> fmlookup (cb_names s) p = None"

text \<open>Files that grow. \<open>cb_linked\<close>: the name is durable. A dirty operation guards the prefix \<open>bs\<close> when it
  cannot change it whatever its fate; \<open>cb_cover\<close> compares what a data sync would persist with the page
  cache.\<close>

definition cb_linked :: "crash_state \<Rightarrow> string \<Rightarrow> nat \<Rightarrow> bool" where
  "cb_linked s p i \<longleftrightarrow> (\<exists>n. fmlookup (cb_names s) p = Some n \<and> nm_durable n = Some i \<and> nm_volatile n = Some i)"

definition guards :: "bytes \<Rightarrow> pend \<Rightarrow> bool" where
  "guards bs p =
     (case p of
        PSetLen n \<Rightarrow> length bs \<le> n
      | PWrite off src \<Rightarrow> \<forall>k < length src. off + k < length bs \<longrightarrow> src ! k = bs ! (off + k))"

definition guarded :: "bytes \<Rightarrow> inode \<Rightarrow> bool" where
  "guarded bs nd \<longleftrightarrow> prefix bs (ino_durable nd) \<and> prefix bs (ino_image nd) \<and> (\<forall>p \<in> set (ino_pending nd). guards bs p)"

definition cb_held :: "crash_state \<Rightarrow> string \<Rightarrow> bytes \<Rightarrow> bool" where
  "cb_held s p bs \<longleftrightarrow> (\<exists>i nd. cb_linked s p i \<and> cb_inodes s i = Some nd \<and> guarded bs nd)"

definition covers :: "nat \<Rightarrow> inode \<Rightarrow> bool" where
  "covers n nd \<longleftrightarrow> length (durable_after_sync nd) = length (ino_image nd) \<and>
     take n (durable_after_sync nd) = take n (ino_image nd)"

definition cb_cover :: "crash_state \<Rightarrow> string \<Rightarrow> nat \<Rightarrow> bool" where
  "cb_cover s p n \<longleftrightarrow> (\<exists>i nd. volatile s p = Some i \<and> cb_inodes s i = Some nd \<and> covers n nd)"

lemma cb_linked_volatile: "cb_linked s p i \<Longrightarrow> volatile s p = Some i"
  by (auto simp: cb_linked_def volatile_def)

lemma cb_settled_linked:
  "cb_settled s p c \<longleftrightarrow> (\<exists>i nd. cb_linked s p i \<and> cb_inodes s i = Some nd \<and> calm c nd)"
  by (auto simp: cb_settled_def cb_linked_def)

interpretation crash: ab_names crash_backing cb_inv cb_view cb_settled cb_synced cb_opened cb_crash cb_absent
  cb_held cb_cover
proof unfold_locales
  fix s s' p
  show "cb_view s p = None" if "cb_absent s p"
    using that by (simp add: cb_absent_def cb_view_def volatile_def)
  show "cb_absent s' p" if "cb_crash s s'" "cb_absent s p"
  proof -
    have "cb_absent (crash_with dirs keep content s) p" for dirs keep content
      using that(2) by (simp add: cb_absent_def crash_with_def Let_def lookup_settled)
    then show ?thesis
      using that(1)
      by (auto simp: cb_crash_def crash_random_def crash_all_lost_def crash_keep_torn_prefix_def Let_def
          split: option.splits)
  qed
qed

lemma crash_keptI:
  assumes "cb_inv s'"
    and "\<And>q. q \<notin> P \<Longrightarrow> volatile s' q = volatile s q"
    and "\<And>q i. q \<notin> P \<Longrightarrow> volatile s q = Some i \<Longrightarrow> cb_inodes s' i = cb_inodes s i"
    and "\<And>q i. q \<notin> P \<Longrightarrow> cb_linked s q i \<Longrightarrow> cb_linked s' q i"
    and "\<And>q. q \<notin> P \<Longrightarrow> cb_absent s q \<Longrightarrow> cb_absent s' q"
  shows "crash.kept P s s'"
proof -
  have "cb_view s' q = cb_view s q" and "cb_synced s q c \<Longrightarrow> cb_synced s' q c"
    and "cb_opened s h q \<Longrightarrow> cb_opened s' h q" and "cb_cover s q n \<Longrightarrow> cb_cover s' q n"
    if "q \<notin> P" for q c h n
    using assms(2,3) [OF that] by (cases "volatile s q"; auto simp: cb_view_def cb_synced_def cb_opened_def cb_cover_def)+
  moreover have "cb_settled s q c \<Longrightarrow> cb_settled s' q c" and "cb_held s q c \<Longrightarrow> cb_held s' q c" if "q \<notin> P" for q c
    using assms(3,4) [OF that] cb_linked_volatile [of s q] by (fastforce simp: cb_settled_linked cb_held_def)+
  ultimately show ?thesis
    using assms(1,5) by (simp add: crash.kept_def)
qed

lemma same_files_kept:
  assumes "same_files s s'" and "cb_inv s"
  shows "crash.kept P s s'"
proof (rule crash_keptI)
  have names: "cb_names s' = cb_names s" and "cb_inodes s' = cb_inodes s"
    using assms(1) by (simp_all add: same_files_def)
  then show "cb_inodes s' i = cb_inodes s i" for i
    by simp
  show "cb_inv s'"
    using same_files_keep(1) [OF assms(1)] assms(2) by simp
  show "volatile s' q = volatile s q" for q
    by (simp add: volatile_def names)
  show "cb_linked s q i \<Longrightarrow> cb_linked s' q i" and "cb_absent s q \<Longrightarrow> cb_absent s' q" for q i
    by (simp_all add: cb_linked_def cb_absent_def names)
qed

lemma touched_kept:
  assumes "cb_inv s" and "cb_opened s h p" and "touched (cf_inode h) nd s s'"
  shows "crash.kept {p} s s' \<and> cb_opened s' h p"
proof -
  have v: "volatile s p = Some (cf_inode h)"
    using assms(2) by (simp add: cb_opened_def)
  have vol: "volatile s' = volatile s"
    using assms(3) by (simp add: touched_def volatile_def fun_eq_iff)
  note keep = touched_keep [OF assms(1) v assms(3)]
  have "crash.kept {p} s s'"
  proof (rule crash_keptI [OF keep(1)])
    show "cb_inodes s' i = cb_inodes s i" if "q \<notin> {p}" "volatile s q = Some i" for q i
    proof -
      have "i \<noteq> cf_inode h"
        using volatile_inj [OF assms(1) v] that by blast
      then show ?thesis
        using assms(3) by (simp add: touched_def)
    qed
  qed (use vol assms(3) in \<open>auto simp: cb_absent_def cb_linked_def touched_def\<close>)
  then show ?thesis
    using v vol by (simp add: cb_opened_def)
qed

lemma cb_open_kept:
  assumes "cb_inv s" and "cb_open p cr s = (r, s')"
  shows "crash.kept {p} s s'"
  using assms(2,1)
proof (cases rule: cb_open_cases)
  case (created s1 i change)
  note c = cb_created [OF assms(1) created(1,2,4,5,7)]
  have names: "fmlookup (cb_names s') q = fmlookup (cb_names s) q" if "q \<noteq> p" for q
    using created(1) that by (simp add: created(7) relink_def same_files_def Let_def)
  have inodes: "cb_inodes s' = (cb_inodes s)(i \<mapsto> inode_default)"
    using created(1) by (simp add: created(7) relink_def same_files_def Let_def)
  show ?thesis
  proof (rule crash_keptI [OF c(1)])
    show "volatile s' q = volatile s q" if "q \<notin> {p}" for q
      using that by (simp add: volatile_def names)
    show "cb_inodes s' k = cb_inodes s k" if "volatile s q = Some k" for q k
      using volatile_named [OF assms(1) that] created(5) inodes by auto
    show "cb_linked s' q k" if "q \<notin> {p}" "cb_linked s q k" for q k
      using that by (simp add: cb_linked_def names)
    show "cb_absent s' q" if "q \<notin> {p}" "cb_absent s q" for q
      using that by (simp add: cb_absent_def names)
  qed
qed (use assms(1) in \<open>simp_all add: same_files_kept\<close>)

lemma cb_sync_dir_kept:
  assumes "cb_inv s" and "cb_sync_dir d s = (r, s')"
  shows "crash.kept {} s s'"
proof (rule crash_keptI)
  note keep = cb_sync_dir_keep [OF assms]
  show "cb_inv s'"
    by (rule keep(1))
  show "cb_linked s' q i" if "cb_linked s q i" for q i
    using assms(2) that
    by (cases rule: cb_sync_dir_cases)
      (auto simp: same_files_def cb_linked_def lookup_committed commit_entry_def Let_def)
  show "volatile s' q = volatile s q" for q
    using assms(2)
    by (cases rule: cb_sync_dir_cases)
      (auto simp: same_files_def volatile_def lookup_committed Let_def split: option.split)
  show "cb_inodes s' i = cb_inodes s i" for i
    using assms(2) by (cases rule: cb_sync_dir_cases) (auto simp: same_files_def)
  show "cb_absent s' q" if "cb_absent s q" for q
    using assms(2) that
    by (cases rule: cb_sync_dir_cases) (auto simp: same_files_def cb_absent_def lookup_committed)
qed

interpretation crash: ab_directory crash_backing cb_inv cb_view cb_settled cb_synced cb_opened cb_crash cb_absent
  cb_held cb_cover
proof unfold_locales
  fix s h p
  assume s: "cb_inv s" "cb_opened s h p"
  obtain nd where nd: "cb_inodes s (cf_inode h) = Some nd"
    using s by (rule cb_opened_inode)
  have same: "crash.kept {} s s' \<and> cb_opened s' h p" if "same_files s s'" for s'
    using that s by (simp add: same_files_kept same_files_keep)
  show "crash.kept {} s s' \<and> cb_opened s' h p" if "f_len crash_backing h s = (r, s')" for r s'
    using that nd by (intro same) (auto simp: crash_backing_def cf_len_def with_inode_def same_files_def)
  show "crash.kept {} s s' \<and> cb_opened s' h p" if "f_read_at crash_backing h off n s = (r, s')" for off n r s'
    using that nd by (intro same)
      (auto simp: crash_backing_def cf_read_at_def with_inode_def same_files_def split: if_splits)
  show "crash.kept {p} s s' \<and> cb_opened s' h p" if "f_set_len crash_backing h n s = (r, s')" for n r s'
    using that cf_set_len_spec [OF nd] by (intro touched_kept [OF s]) (simp add: crash_backing_def)
  show "crash.kept {p} s s' \<and> cb_opened s' h p" if "f_write_at crash_backing h off bs s = (r, s')" for off bs r s'
  proof -
    have "cf_write_at h off bs s = (r, s')"
      using that by (simp add: crash_backing_def)
    with nd obtain nd' where "touched (cf_inode h) nd' s s'"
      by (rule cf_write_at_spec)
    then show ?thesis
      by (rule touched_kept [OF s])
  qed
  show "crash.kept {p} s s' \<and> cb_opened s' h p" if "f_sync_data crash_backing h s = (r, s')" for r s'
  proof -
    have "cf_sync_data h s = (r, s')"
      using that by (simp add: crash_backing_def)
    with nd obtain nd' where "touched (cf_inode h) nd' s s'"
      by (rule cf_sync_data_spec)
    then show ?thesis
      by (rule touched_kept [OF s])
  qed
next
  fix s
  assume s: "cb_inv s"
  show "crash.kept {p} s s'" if "b_open crash_backing p cr s = (r, s')" for p cr r s'
    using that by (intro cb_open_kept [OF s]) (simp add: crash_backing_def)
  show "crash.kept {} s s'" if "b_sync_dir crash_backing d s = (r, s')" for d r s'
    using that by (intro cb_sync_dir_kept [OF s]) (simp add: crash_backing_def)
  show "crash.kept {} s s' \<and> (r = Inr False \<longrightarrow> cb_view s p = None)"
    if "b_exists crash_backing p s = (r, s')" for p r s'
  proof -
    have "s' = s" and "r = Inr False \<Longrightarrow> volatile s p = None"
      using that by (auto simp: crash_backing_def cb_exists_def split: sum.splits)
    then show ?thesis
      using s by (simp add: cb_view_def crash.kept_refl)
  qed
  show "crash.kept {} s s'" if "b_create_dir_all crash_backing d s = (r, s')" for d r s'
    using that by (intro same_files_kept [OF _ s])
      (auto simp: crash_backing_def cb_create_dir_all_def same_files_def split: sum.splits)
  show "crash.kept {} s s'" if "b_list crash_backing d s = (r, s')" for d r s'
    using that by (intro same_files_kept [OF _ s])
      (auto simp: crash_backing_def cb_list_def same_files_def split: sum.splits)
  show "crash.kept {p} s s'" if "b_try_lock crash_backing p s = (r, s')" for p r s'
    using that by (intro same_files_kept [OF _ s])
      (auto simp: crash_backing_def cb_try_lock_def same_files_def split: sum.splits if_splits)
  show "crash.kept {} s (b_unlock crash_backing p s)" for p
    by (rule same_files_kept [OF _ s]) (simp add: crash_backing_def cb_unlock_def same_files_def)
qed

lemma fmlookup_committed_names:
  "fmlookup (committed_names d m) p = (case fmlookup m p of None \<Rightarrow> None | Some n \<Rightarrow>
     let n = commit_entry d p n in if nm_durable n \<noteq> None \<or> nm_volatile n \<noteq> None then Some n else None)"
  by (auto simp: committed_names_def Let_def split: option.splits)

lemma crash_new_inv: "cb_inv crash_new"
  by (simp add: cb_inv_def hook_ok_def names_ok_def crash_new_def)

end
