(* ===== verification/Ab_Crash.thy ===== *)
theory Ab_Crash
  imports Ab_Store Crash_Backing Checkpoint
begin

text \<open>
  The A/B protocol of \<open>crates/maki-format/src/ab.rs\<close> put on the crash-simulating backing, for the
  checkpoint state: the pair of files the checkpoint code stores to. The generic lemmas of
  \<open>ab_protocol\<close> become statements about the code's own definitions.
\<close>

definition checkpoint_store :: ab_store where
  "checkpoint_store = ab_store_new CHECKPOINT_STATE_A CHECKPOINT_STATE_B"

lemma checkpoint_paths [simp]:
  "st_a checkpoint_store = CHECKPOINT_STATE_A" "st_b checkpoint_store = CHECKPOINT_STATE_B"
  "CHECKPOINT_STATE_A \<noteq> CHECKPOINT_STATE_B" "parent CHECKPOINT_STATE_A = ''checkpoint''"
  "parent CHECKPOINT_STATE_B = ''checkpoint''"
  by (simp_all add: checkpoint_store_def ab_store_new_def CHECKPOINT_STATE_A_def CHECKPOINT_STATE_B_def parent_def)

lemma checkpoint_bound [simp]: "ab_bound (checkpoint_ab crc) checkpoint_store = 32"
  by (simp add: ab_bound_def checkpoint_store_def ab_store_new_def checkpoint_ab_def)

lemma checkpoint_ab_simps [simp]:
  "ab_encode (checkpoint_ab crc) c = Inr (checkpoint_encode crc c)"
  "ab_decode (checkpoint_ab crc) = checkpoint_decode crc"
  "ab_generation (checkpoint_ab crc) = ck_generation"
  "ab_set_generation (checkpoint_ab crc) g c = c\<lparr>ck_generation := g\<rparr>"
  by (simp_all add: checkpoint_ab_def)

text \<open>The definitions a concrete run on the crash backing evaluates.\<close>

lemmas crash_eval =
  store_def store_prepare_def ab_generations_def raw_generation_def read_bounded_def crash_backing_def
  cb_open_def crash_new_def validate_def io_match_def check_def volatile_def io_bind_def io_fmt_def
  read_copy_def target_for_def store_preserve_def max_existing_def checked_add_def store_write_def
  write_image_def cf_set_len_def cf_write_at_def cf_sync_data_def with_inode_def new_change_def relink_def
  push_pend_def Let_def inode_default_def ok_or_def cb_exists_def cb_create_dir_all_def dir_prefixes_def
  cb_sync_dir_def cf_len_def cf_read_at_def apply_pend_def durable_after_sync_def commit_entry_def
  direct_entry_def dir_prefix_def strip_prefix_def fmlookup_committed_names

interpretation crash_checkpoint:
  ab_protocol crash_backing cb_inv cb_view cb_settled cb_synced cb_opened cb_crash crc "checkpoint_ab crc"
    "\<lambda>_. True" checkpoint_store
  for crc
  by unfold_locales auto

section \<open>A concrete history\<close>

lemma checkpoint_image:
  "checkpoint_encode crc c \<noteq> []"
  "raw_generation_decode crc (checkpoint_encode crc c) = Inr (ck_generation c)"
  "overwrite 0 (checkpoint_encode crc c) (resize 32 d) = checkpoint_encode crc c"
proof -
  show "checkpoint_encode crc c \<noteq> []"
    by (metis length_checkpoint_encode list.size(3) zero_neq_numeral)
qed (use checkpoint_decode_raw [OF checkpoint_decode_encode, of crc c]
    overwrite_resize_all [of "checkpoint_encode crc c" d] in auto)

lemma checkpoint_stored:
  "\<exists>c s s' x t. store crash_backing (\<lambda>_. 0) (checkpoint_ab (\<lambda>_. 0)) checkpoint_store
      \<lparr>ck_generation = 0, checkpoint_sequence = 7\<rparr> crash_new = (Inr (), c, s) \<and> ck_generation c = 1 \<and>
    b_sync_dir crash_backing ''checkpoint'' s = (Inr (), s') \<and>
    ab_load crash_backing (checkpoint_ab (\<lambda>_. 0)) checkpoint_store s' = (Inr x, t)"
  by (simp add: crash_eval checkpoint_image checkpoint_decode_encode CHECKPOINT_STATE_A_def CHECKPOINT_STATE_B_def
      ab_load_def read_side_def newest_of_def)

section \<open>Properties\<close>

text \<open>C3: The A/B protocol loses no acknowledged generation. In every history of checkpoint stores that
  succeed or fail anywhere, directory syncs, loads and crashes on the crash-simulating backing, any
  later load that succeeds finds a valid record, of a generation no older than the last one whose
  store and directory sync both succeeded.\<close>

theorem ab_store_acknowledged:
  assumes "cb_inv s0"
    and "ab_run crash_backing cb_crash crc (checkpoint_ab crc) (\<lambda>_. True) checkpoint_store s0 s (Some g)"
    and "ab_load crash_backing (checkpoint_ab crc) checkpoint_store s = (Inr x, s')"
  shows "\<exists>c. x = Some c \<and> g \<le> ck_generation c"
  using crash_checkpoint.load_acked [OF crash_checkpoint.run_safe [OF assms(2,1)] assms(3)] by simp

theorem ab_store_acknowledged_witness:
  "\<exists>s x s'. ab_run crash_backing cb_crash (\<lambda>_. 0) (checkpoint_ab (\<lambda>_. 0)) (\<lambda>_. True) checkpoint_store crash_new s (Some 1) \<and>
     ab_load crash_backing (checkpoint_ab (\<lambda>_. 0)) checkpoint_store s = (Inr x, s') \<and>
     (\<exists>c. x = Some c \<and> 1 \<le> ck_generation c)"
proof -
  obtain c s s' x t where st: "store crash_backing (\<lambda>_. 0) (checkpoint_ab (\<lambda>_. 0)) checkpoint_store
      \<lparr>ck_generation = 0, checkpoint_sequence = 7\<rparr> crash_new = (Inr (), c, s)" and c: "ck_generation c = 1"
    and sy: "b_sync_dir crash_backing ''checkpoint'' s = (Inr (), s')"
    and ld: "ab_load crash_backing (checkpoint_ab (\<lambda>_. 0)) checkpoint_store s' = (Inr x, t)"
    using checkpoint_stored by blast
  have run: "ab_run crash_backing cb_crash (\<lambda>_. 0) (checkpoint_ab (\<lambda>_. 0)) (\<lambda>_. True) checkpoint_store
      crash_new s' (Some (ab_generation (checkpoint_ab (\<lambda>_. 0)) c))"
    by (rule ab_run.run_ack [OF ab_run.run_start _ st]) (simp_all add: sy)
  then have run1: "ab_run crash_backing cb_crash (\<lambda>_. 0) (checkpoint_ab (\<lambda>_. 0)) (\<lambda>_. True) checkpoint_store crash_new s' (Some 1)"
    by (simp add: c)
  show ?thesis
    by (intro exI [of _ s'] exI [of _ x] exI [of _ t] conjI run1 ld ab_store_acknowledged [OF crash_new_inv run1 ld])
qed

end
