(* ===== verification/Superblock_Load.thy ===== *)
theory Superblock_Load
  imports Superblock Layout Ab_Crash
begin

text \<open>
  Loading the superblock of a volume, \<open>load_volume_superblock\<close> of
  \<open>crates/maki-format/src/superblock.rs\<close>: both copies are read, an unknown envelope or a mixture of
  envelopes is refused, and otherwise the copy of the higher generation is selected.
\<close>

text \<open>The end of \<open>read_volume_copy\<close>: what becomes of a full-size image.\<close>

definition volume_accept :: "(bytes \<Rightarrow> u32) \<Rightarrow> bytes \<Rightarrow> format_error + (volume_superblock \<times> bytes) option" where
  "volume_accept crc bytes =
     (case volume_superblock_decode crc bytes of
        Inr v \<Rightarrow> Inr (Some (v, bytes))
      | Inl (Unsupported what) \<Rightarrow> Inl (Unsupported what)
      | Inl _ \<Rightarrow> Inr None)"

definition read_volume_copy ::
  "('s, 'h) backing \<Rightarrow> (bytes \<Rightarrow> u32) \<Rightarrow> string \<Rightarrow> ('s, format_error, (volume_superblock \<times> bytes) option) io" where
  "read_volume_copy B crc path =
     read_fixed B path SUPERBLOCK_SIZE
       (\<lambda>header. take 8 header = SUPERBLOCK_MAGIC \<and> \<not> supported_envelope (from_le32 (take 4 (drop 8 header))))
       ''superblock version'' (volume_accept crc)"

definition volume_select ::
  "(volume_superblock \<times> bytes) option \<Rightarrow> (volume_superblock \<times> bytes) option \<Rightarrow> format_error + volume_superblock" where
  "volume_select a b =
     (case (a, b) of
        (Some (a, a_bytes), Some (b, b_bytes)) \<Rightarrow>
          if vs_metadata_version a \<noteq> vs_metadata_version b
          then Inl (Invalid ''mixed superblock metadata versions; refusing an interrupted format change'')
          else if sb_generation (vs_superblock a) = sb_generation (vs_superblock b) \<and> a_bytes \<noteq> b_bytes
          then Inl (Invalid ''conflicting superblocks at the same generation'')
          else Inr (if sb_generation (vs_superblock b) \<le> sb_generation (vs_superblock a) then a else b)
      | (Some (r, _), None) \<Rightarrow> Inr r
      | (None, Some (r, _)) \<Rightarrow> Inr r
      | (None, None) \<Rightarrow> Inl (Invalid ''no valid superblock''))"

definition load_volume_superblock ::
  "('s, 'h) backing \<Rightarrow> (bytes \<Rightarrow> u32) \<Rightarrow> ('s, format_error, volume_superblock) io" where
  "load_volume_superblock B crc =
     io_bind (read_volume_copy B crc SUPERBLOCK_A) (\<lambda>a.
     io_bind (read_volume_copy B crc SUPERBLOCK_B) (\<lambda>b.
     io_pure (volume_select a b)))"

definition load_superblock :: "('s, 'h) backing \<Rightarrow> (bytes \<Rightarrow> u32) \<Rightarrow> ('s, format_error, superblock) io" where
  "load_superblock B crc = io_bind (load_volume_superblock B crc) (\<lambda>v. io_return (vs_superblock v))"

section \<open>What a load returns\<close>

text \<open>The superblock a content holds: only an image of exactly the fixed size counts.\<close>

definition volume_of :: "(bytes \<Rightarrow> u32) \<Rightarrow> bytes option \<Rightarrow> volume_superblock option" where
  "volume_of crc c =
     Option.bind c (\<lambda>b. if length b = SUPERBLOCK_SIZE then res_ok (volume_superblock_decode crc b) else None)"

context ab_medium
begin

lemma quiet_read_volume_copy:
  "quiet v (read_volume_copy B crc p) (\<lambda>x. x = map_option (\<lambda>r. (r, the (v p))) (volume_of crc (v p)))"
  unfolding read_volume_copy_def
  by (rule quiet_weaken [OF quiet_read_fixed])
    (auto simp: fixed_result_def volume_of_def volume_accept_def
      split: option.splits if_splits sum.splits format_error.splits)

lemma quiet_load_volume_superblock:
  "quiet v (load_volume_superblock B crc) (\<lambda>x.
     volume_select (map_option (\<lambda>r. (r, the (v SUPERBLOCK_A))) (volume_of crc (v SUPERBLOCK_A)))
       (map_option (\<lambda>r. (r, the (v SUPERBLOCK_B))) (volume_of crc (v SUPERBLOCK_B))) = Inr x)"
  unfolding load_volume_superblock_def
  by (rule quiet_bind [OF quiet_read_volume_copy], rule quiet_bind [OF quiet_read_volume_copy]) auto

end

lemma volume_select_InrD:
  assumes "volume_select (map_option (\<lambda>r. (r, ba)) a) (map_option (\<lambda>r. (r, bb)) b) = Inr v"
  shows "a = Some v \<or> b = Some v"
    and "a = Some w \<or> b = Some w \<Longrightarrow> vs_metadata_version w = vs_metadata_version v \<and>
      sb_generation (vs_superblock w) \<le> sb_generation (vs_superblock v)"
    and "a = Some x \<Longrightarrow> b = Some y \<Longrightarrow> sb_generation (vs_superblock x) = sb_generation (vs_superblock y) \<Longrightarrow> ba = bb"
  using assms by (auto simp: volume_select_def split: option.splits if_splits)

section \<open>Properties\<close>

text \<open>C15: Loading a superblock selects soundly and fails closed. What it returns is the decoding of one
  of the two copies; no valid copy has a higher generation or another envelope version; and two
  valid copies of the same generation are byte for byte the same.\<close>

theorem load_volume_superblock_sound:
  assumes "cb_inv s" and "load_volume_superblock crash_backing crc s = (Inr v, s')"
  shows "(volume_of crc (cb_view s SUPERBLOCK_A) = Some v \<or> volume_of crc (cb_view s SUPERBLOCK_B) = Some v) \<and>
    (\<forall>path \<in> {SUPERBLOCK_A, SUPERBLOCK_B}. \<forall>w. volume_of crc (cb_view s path) = Some w \<longrightarrow>
      vs_metadata_version w = vs_metadata_version v \<and>
      sb_generation (vs_superblock w) \<le> sb_generation (vs_superblock v)) \<and>
    (\<forall>x y. volume_of crc (cb_view s SUPERBLOCK_A) = Some x \<longrightarrow> volume_of crc (cb_view s SUPERBLOCK_B) = Some y \<longrightarrow>
      sb_generation (vs_superblock x) = sb_generation (vs_superblock y) \<longrightarrow>
      cb_view s SUPERBLOCK_A = cb_view s SUPERBLOCK_B)"
proof -
  note sel = crash.quietD [OF crash.quiet_load_volume_superblock assms, THEN conjunct2, THEN conjunct2, THEN conjunct2,
      rule_format, OF refl]
  note d = volume_select_InrD [OF sel]
  have "cb_view s SUPERBLOCK_A = cb_view s SUPERBLOCK_B"
    if "volume_of crc (cb_view s SUPERBLOCK_A) = Some x" "volume_of crc (cb_view s SUPERBLOCK_B) = Some y"
      "sb_generation (vs_superblock x) = sb_generation (vs_superblock y)" for x y
    using d(3) [OF that] that by (auto simp: volume_of_def bind_eq_Some_conv)
  then show ?thesis
    using d(1,2) by blast
qed

text \<open>A volume of one megabyte whose first superblock copy alone is on disk.\<close>

definition sample_geometry :: geometry where
  "sample_geometry = (case geometry_compute 4096 4096 512 4136 1048576 1048576 of Inr g \<Rightarrow> g)"

definition sample_superblock :: superblock where
  "sample_superblock = \<lparr>sb_generation = 5, sb_volume_uuid = replicate 16 0, sb_provider_type = [],
     sb_crypto_compatibility_id = [], sb_key_identity = [], sb_geometry = sample_geometry,
     sb_format_version = CRYPTO_FORMAT_VERSION, sb_created_unix = 0\<rparr>"

definition sample_volume :: volume_superblock where
  "sample_volume = \<lparr>vs_superblock = sample_superblock, vs_metadata_version = SUPERBLOCK_VERSION_V3\<rparr>"

lemma sample_geometry: "geometry_compute 4096 4096 512 4136 1048576 1048576 = Inr sample_geometry"
  by (simp add: sample_geometry_def geometry_compute_def is_pow2_def is_multiple_of_def align_up_def
      SLOT_HEADER_SIZE_def MAX_PAYLOAD_def ok_or_def checked_add_def checked_mul_def compute_capacity_plan_def
      num_shards_def num_units_def units_per_shard_def div_ceil_def Let_def MAX_SHARDS_def
      ALLOCATION_FIXED_BYTES_def CATALOG_FIXED_BYTES_def)

lemma sample_volume_wf: "volume_superblock_wf sample_volume"
  using geometry_compute_valid [OF sample_geometry]
  by (simp add: sample_volume_def sample_superblock_def volume_superblock_wf_def superblock_wf_def str_ok_def
      supported_envelope_def)

definition crash_holding :: "string \<Rightarrow> bytes \<Rightarrow> crash_state" where
  "crash_holding p b = crash_new\<lparr>cb_inodes := [1 \<mapsto> from_content b], cb_next_inode := 1,
     cb_names := fmupd p \<lparr>nm_durable = Some 1, nm_volatile = Some 1, nm_change = 0\<rparr> fmempty\<rparr>"

lemma crash_holding_inv: "validate p False = Inr () \<Longrightarrow> cb_inv (crash_holding p b)"
  by (auto simp: crash_holding_def crash_new_def cb_inv_def hook_ok_def names_ok_def entry_ids_def)

theorem load_volume_superblock_sound_witness:
  "\<exists>s s'. cb_inv s \<and> load_volume_superblock crash_backing (\<lambda>_. 0) s = (Inr sample_volume, s') \<and>
     (volume_of (\<lambda>_. 0) (cb_view s SUPERBLOCK_A) = Some sample_volume \<or>
      volume_of (\<lambda>_. 0) (cb_view s SUPERBLOCK_B) = Some sample_volume)"
proof -
  obtain b where len: "length b = 4096" and dec: "volume_superblock_decode (\<lambda>_. 0) b = Inr sample_volume"
    using sample_volume_wf by (rule volume_superblock_image)
  let ?s = "crash_holding SUPERBLOCK_A b"
  have inv: "cb_inv ?s"
    by (rule crash_holding_inv) (simp add: SUPERBLOCK_A_def validate_def)
  have "\<exists>s'. load_volume_superblock crash_backing (\<lambda>_. 0) ?s = (Inr sample_volume, s')"
    by (simp add: load_volume_superblock_def read_volume_copy_def read_fixed_def volume_accept_def volume_select_def
        SUPERBLOCK_A_def SUPERBLOCK_B_def SUPERBLOCK_SIZE_def crash_holding_def from_content_def len dec crash_eval
        io_return_def io_pure_def)
  then obtain s' where "load_volume_superblock crash_backing (\<lambda>_. 0) ?s = (Inr sample_volume, s')"
    by blast
  then show ?thesis
    using inv load_volume_superblock_sound [OF inv] by blast
qed

end
