(* ===== verification/Durable_Proof.thy ===== *)
theory Durable_Proof
  imports Ab_Crash Journal_Format
begin

text \<open>
  The acknowledgement horizon of \<open>crates/maki-format/src/durable_proof.rs\<close>: the record with its
  fixed 64-byte encoding, its validation and succession rule, and the store that mirrors every
  horizon on both sides of an A/B pair. \<open>advance\<close> takes its proof by mutable reference and leaves
  it alone on every error; the model returns the new value on success.

  The theory shows that an acknowledged horizon never regresses: whatever fails in later advances
  and whatever later crashes keep, lose or tear, a load that succeeds returns a horizon that
  follows it.
\<close>

definition DURABLE_PROOF_A :: string where "DURABLE_PROOF_A = ''journal/durable-proof.a''"
definition DURABLE_PROOF_B :: string where "DURABLE_PROOF_B = ''journal/durable-proof.b''"

definition DURABLE_PROOF_MAGIC :: bytes where
  "DURABLE_PROOF_MAGIC = map (of_nat \<circ> of_char) ''MAKIJDP1''"

definition DURABLE_PROOF_VERSION :: u32 where "DURABLE_PROOF_VERSION = 1"
definition DURABLE_PROOF_SIZE :: nat where "DURABLE_PROOF_SIZE = 64"

record durable_proof =
  dp_generation :: u64
  dp_volume_uuid :: uuid
  dp_durable_sequence :: u64
  dp_segment_index :: u64
  dp_durable_size :: u64

definition proof_initial :: "uuid \<Rightarrow> durable_proof" where
  "proof_initial u =
     \<lparr>dp_generation = 0, dp_volume_uuid = u, dp_durable_sequence = 0, dp_segment_index = 0,
      dp_durable_size = 0\<rparr>"

definition proof_encode :: "(bytes \<Rightarrow> u32) \<Rightarrow> durable_proof \<Rightarrow> bytes" where
  "proof_encode crc p =
     finish_with_crc crc (write_all
       [w_bytes DURABLE_PROOF_MAGIC, w_u32 DURABLE_PROOF_VERSION, w_u64 (dp_generation p),
        w_uuid (dp_volume_uuid p), w_u64 (dp_durable_sequence p), w_u64 (dp_segment_index p),
        w_u64 (dp_durable_size p)])"

definition proof_validate :: "durable_proof \<Rightarrow> format_error + unit" where
  "proof_validate p =
     (if dp_durable_sequence p = 0 then
        (if dp_segment_index p \<noteq> 0 \<or> dp_durable_size p \<noteq> 0
         then Inl (Invalid ''empty durable proof has a segment location'') else Inr ())
      else if dp_durable_sequence p = - 1 \<or> dp_segment_index p = - 1 \<or>
         unat (dp_durable_size p) < SEGMENT_HEADER_SIZE + RECORD_HEADER_SIZE \<or>
         2 ^ 63 \<le> unat (dp_durable_size p)
      then Inl (Invalid ''durable proof horizon is outside supported bounds'')
      else Inr ())"

definition proof_decode :: "(bytes \<Rightarrow> u32) \<Rightarrow> bytes \<Rightarrow> format_error + durable_proof" where
  "proof_decode crc data =
     (if length data < DURABLE_PROOF_SIZE then Inl (Truncated ''durable proof'')
      else if length data \<noteq> DURABLE_PROOF_SIZE then Inl (Invalid ''durable proof has trailing bytes'')
      else res_bind (strip_verify_crc crc data ''durable proof'') (rd_run (
        rd_bind (rd_take 8) (\<lambda>magic.
        if magic \<noteq> DURABLE_PROOF_MAGIC then rd_fail (BadMagic ''durable proof'')
        else rd_bind rd_u32 (\<lambda>version.
        if version \<noteq> DURABLE_PROOF_VERSION then rd_fail (Unsupported ''durable proof version'')
        else rd_bind rd_u64 (\<lambda>generation.
        rd_bind rd_uuid (\<lambda>volume_uuid.
        rd_bind rd_u64 (\<lambda>durable_sequence.
        rd_bind rd_u64 (\<lambda>segment_index.
        rd_bind rd_u64 (\<lambda>durable_size.
        let p = \<lparr>dp_generation = generation, dp_volume_uuid = volume_uuid,
                 dp_durable_sequence = durable_sequence, dp_segment_index = segment_index,
                 dp_durable_size = durable_size\<rparr> in
        (case proof_validate p of Inl e \<Rightarrow> rd_fail e | Inr _ \<Rightarrow> rd_return p)))))))))))"

definition proof_follows :: "durable_proof \<Rightarrow> durable_proof \<Rightarrow> format_error + unit" where
  "proof_follows p previous =
     (if dp_volume_uuid p \<noteq> dp_volume_uuid previous
      then Inl (Invalid ''durable proof volume UUID changed'')
      else if dp_durable_sequence p < dp_durable_sequence previous
      then Inl (Invalid ''durable proof sequence regressed'')
      else if dp_durable_sequence p = dp_durable_sequence previous then
        (if dp_segment_index p \<noteq> dp_segment_index previous \<or> dp_durable_size p \<noteq> dp_durable_size previous
         then Inl (Invalid ''unchanged durable sequence has a different record end'') else Inr ())
      else if dp_segment_index p < dp_segment_index previous \<or>
        (dp_segment_index p = dp_segment_index previous \<and> dp_durable_size p \<le> dp_durable_size previous)
      then Inl (Invalid ''advancing durable sequence regressed its segment location'')
      else Inr ())"

definition proof_ab :: "(bytes \<Rightarrow> u32) \<Rightarrow> durable_proof ab_record" where
  "proof_ab crc =
     \<lparr>ab_max_encoded_len = DURABLE_PROOF_SIZE, ab_generation = dp_generation,
      ab_set_generation = (\<lambda>g p. p\<lparr>dp_generation := g\<rparr>),
      ab_encode = (\<lambda>p. Inr (proof_encode crc p)), ab_decode = proof_decode crc\<rparr>"

text \<open>\<open>DurableProofStore\<close>.\<close>

definition proof_store :: ab_store where
  "proof_store = ab_store_new DURABLE_PROOF_A DURABLE_PROOF_B"

text \<open>The end of \<open>read_copy\<close>: what becomes of a full-size image.\<close>

definition proof_accept :: "uuid \<Rightarrow> format_error + durable_proof \<Rightarrow> format_error + durable_proof option" where
  "proof_accept volume_uuid r =
     (case r of
        Inr proof \<Rightarrow>
          if dp_volume_uuid proof = volume_uuid then Inr (Some proof)
          else Inl (Invalid ''durable proof belongs to a different volume'')
      | Inl (Unsupported what) \<Rightarrow> Inl (Unsupported what)
      | Inl _ \<Rightarrow> Inr None)"

definition proof_read_copy ::
  "('s, 'h) backing \<Rightarrow> (bytes \<Rightarrow> u32) \<Rightarrow> string \<Rightarrow> uuid \<Rightarrow> ('s, format_error, durable_proof option) io" where
  "proof_read_copy B crc path volume_uuid =
     read_fixed B path DURABLE_PROOF_SIZE
       (\<lambda>header. take 8 header = DURABLE_PROOF_MAGIC \<and>
          from_le32 (take 4 (drop 8 header)) \<noteq> DURABLE_PROOF_VERSION)
       ''durable proof version''
       (\<lambda>bytes. proof_accept volume_uuid (proof_decode crc bytes))"

definition proof_select :: "durable_proof option \<Rightarrow> durable_proof option \<Rightarrow> format_error + durable_proof" where
  "proof_select a b =
     (case (a, b) of
        (Some a, Some b) \<Rightarrow>
          if dp_generation a = dp_generation b \<and> a \<noteq> b
          then Inl (Invalid ''durable proof copies disagree at the same generation'')
          else
            let (older, newer) = (if dp_generation a \<le> dp_generation b then (a, b) else (b, a))
            in res_bind (proof_follows newer older) (\<lambda>_. Inr newer)
      | (Some p, None) \<Rightarrow> Inr p
      | (None, Some p) \<Rightarrow> Inr p
      | (None, None) \<Rightarrow> Inl (Invalid ''required durable proof has no valid copy''))"

definition proof_load ::
  "('s, 'h) backing \<Rightarrow> (bytes \<Rightarrow> u32) \<Rightarrow> uuid \<Rightarrow> ('s, format_error, durable_proof) io" where
  "proof_load B crc volume_uuid =
     io_bind (proof_read_copy B crc DURABLE_PROOF_A volume_uuid) (\<lambda>a.
     io_bind (proof_read_copy B crc DURABLE_PROOF_B volume_uuid) (\<lambda>b.
     io_pure (proof_select a b)))"

definition proof_put ::
  "('s, 'h) backing \<Rightarrow> (bytes \<Rightarrow> u32) \<Rightarrow> durable_proof \<Rightarrow> ('s, format_error, durable_proof) io" where
  "proof_put B crc = ab_put B crc (proof_ab crc) proof_store"

definition proof_initialize ::
  "('s, 'h) backing \<Rightarrow> (bytes \<Rightarrow> u32) \<Rightarrow> uuid \<Rightarrow> ('s, format_error, durable_proof) io" where
  "proof_initialize B crc volume_uuid =
     (let absent = (\<lambda>path.
        io_bind (proof_read_copy B crc path volume_uuid) (\<lambda>_.
        io_bind (io_fmt (b_exists B path)) (\<lambda>there.
        if there then io_fail (AlreadyExists ''durable proof already exists; initialization cannot reset history'')
        else io_return ())))
      in
      io_bind (absent DURABLE_PROOF_A) (\<lambda>_.
      io_bind (absent DURABLE_PROOF_B) (\<lambda>_.
      io_bind (io_fmt (b_create_dir_all B JOURNAL_DIR)) (\<lambda>_.
      io_bind (proof_put B crc (proof_initial volume_uuid)) (\<lambda>proof.
      io_bind (io_fmt (b_sync_dir B JOURNAL_DIR)) (\<lambda>_.
      io_bind (proof_put B crc proof) (\<lambda>proof.
      io_bind (io_fmt (b_sync_dir B JOURNAL_DIR)) (\<lambda>_.
      io_bind (io_fmt (b_sync_dir B [])) (\<lambda>_.
      io_return proof)))))))))"

definition proof_advance ::
  "('s, 'h) backing \<Rightarrow> (bytes \<Rightarrow> u32) \<Rightarrow> durable_proof \<Rightarrow> ('s, format_error, durable_proof) io" where
  "proof_advance B crc p =
     io_bind (io_pure (proof_validate p)) (\<lambda>_.
     io_bind (proof_load B crc (dp_volume_uuid p)) (\<lambda>current.
     io_bind (io_pure (proof_follows p current)) (\<lambda>_.
     if dp_generation current < dp_generation p
     then io_fail (Invalid ''candidate proof generation is ahead of stored metadata'')
     else
       io_bind (io_pure (ok_or (checked_add (dp_generation current) 2)
         (Overflow ''durable proof generation exhausted''))) (\<lambda>_.
       io_bind (proof_put B crc p) (\<lambda>candidate.
       io_bind (io_fmt (b_sync_dir B JOURNAL_DIR)) (\<lambda>_.
       io_bind (proof_load B crc (dp_volume_uuid p)) (\<lambda>_.
       io_bind (proof_put B crc candidate) (\<lambda>candidate.
       io_bind (io_fmt (b_sync_dir B JOURNAL_DIR)) (\<lambda>_.
       io_return candidate)))))))))"

section \<open>The record\<close>

definition proof_wf :: "durable_proof \<Rightarrow> bool" where
  "proof_wf p \<longleftrightarrow> length (dp_volume_uuid p) = 16 \<and> proof_validate p = Inr ()"

lemma length_DURABLE_PROOF_MAGIC [simp]: "length DURABLE_PROOF_MAGIC = 8"
  by (simp add: DURABLE_PROOF_MAGIC_def)

lemma length_proof_encode: "proof_wf p \<Longrightarrow> length (proof_encode crc p) = DURABLE_PROOF_SIZE"
  by (simp add: proof_encode_def proof_wf_def DURABLE_PROOF_SIZE_def codec_simps)

lemma proof_validate_gen [simp]: "proof_validate (p\<lparr>dp_generation := g\<rparr>) = proof_validate p"
  by (simp add: proof_validate_def)

lemma proof_decode_encode:
  assumes "proof_wf p"
  shows "proof_decode crc (proof_encode crc p) = Inr p"
proof -
  have "length (proof_encode crc p) = DURABLE_PROOF_SIZE" "length (dp_volume_uuid p) = 16"
    "proof_validate p = Inr ()"
    using assms by (simp_all add: length_proof_encode proof_wf_def)
  then show ?thesis
    by (cases p) (simp add: proof_decode_def proof_encode_def rd_run_def rd_uuid_def codec_simps Let_def)
qed

lemma proof_decode_raw:
  "proof_decode crc b = Inr p \<Longrightarrow> raw_generation_decode crc b = Inr (dp_generation p)"
  unfolding proof_decode_def
  by (simp split: if_split_asm, erule raw_generation_of_decode)
    (auto simp: Let_def elim!: rd_bind_InrE split: if_splits sum.splits)

lemma proof_decode_wf: "proof_decode crc b = Inr p \<Longrightarrow> proof_wf p \<and> length b = DURABLE_PROOF_SIZE"
  by (auto simp: proof_decode_def proof_wf_def Let_def rd_uuid_def elim!: res_bind_InrE rd_run_InrE rd_bind_InrE
      split: if_splits sum.splits) (erule rd_take_length)

interpretation dproof: ab_codec crc "proof_ab crc" proof_wf for crc
  by unfold_locales
    (auto simp: proof_ab_def proof_decode_encode proof_decode_raw length_proof_encode DURABLE_PROOF_SIZE_def
      proof_wf_def)


section \<open>Succession\<close>

text \<open>\<open>reaches p q\<close>: the horizon of \<open>p\<close> follows that of \<open>q\<close>. Generations play no part in it.\<close>

definition reaches :: "durable_proof \<Rightarrow> durable_proof \<Rightarrow> bool" where
  "reaches p q \<longleftrightarrow> proof_follows p q = Inr ()"

definition same_horizon :: "durable_proof \<Rightarrow> durable_proof \<Rightarrow> bool" where
  "same_horizon p q \<longleftrightarrow> p\<lparr>dp_generation := 0\<rparr> = q\<lparr>dp_generation := 0\<rparr>"

lemma reaches_iff:
  "reaches p q \<longleftrightarrow> dp_volume_uuid p = dp_volume_uuid q \<and>
     (dp_durable_sequence p = dp_durable_sequence q \<and> dp_segment_index p = dp_segment_index q \<and>
        dp_durable_size p = dp_durable_size q \<or>
      dp_durable_sequence q < dp_durable_sequence p \<and>
        (dp_segment_index q < dp_segment_index p \<or>
         dp_segment_index p = dp_segment_index q \<and> dp_durable_size q < dp_durable_size p))"
  by (auto simp: reaches_def proof_follows_def)

lemma reaches_refl: "same_horizon p q \<Longrightarrow> reaches p q"
  by (cases p, cases q) (simp add: reaches_iff same_horizon_def)

lemma reaches_trans: "reaches p q \<Longrightarrow> reaches q r \<Longrightarrow> reaches p r"
  unfolding reaches_iff by (auto dest: less_trans)

lemma same_horizon_gen [simp]: "same_horizon (p\<lparr>dp_generation := g\<rparr>) q = same_horizon p q"
  by (simp add: same_horizon_def)

lemma proof_follows_InrD: "proof_follows p q = Inr u \<Longrightarrow> reaches p q"
  by (simp add: reaches_def)

lemma proof_select_InrD:
  assumes "proof_select a b = Inr p"
  shows "a = Some p \<or> b = Some p" and "a = Some q \<or> b = Some q \<Longrightarrow> reaches p q"
    and "a = Some q \<Longrightarrow> b = Some r \<Longrightarrow> dp_generation q \<le> dp_generation r \<Longrightarrow> reaches r q"
    and "a = Some q \<Longrightarrow> b = Some r \<Longrightarrow> dp_generation r \<le> dp_generation q \<Longrightarrow> reaches q r"
  using assms
  by (auto simp: proof_select_def reaches_refl same_horizon_def dest!: proof_follows_InrD
      elim!: res_bind_InrE split: option.splits if_splits)

text \<open>The proof a content holds, if it holds one.\<close>

definition proof_of :: "(bytes \<Rightarrow> u32) \<Rightarrow> bytes option \<Rightarrow> durable_proof option" where
  "proof_of crc c = Option.bind c (\<lambda>b. res_ok (proof_decode crc b))"

lemma proof_bound [simp]: "ab_bound (proof_ab crc) proof_store = DURABLE_PROOF_SIZE"
  by (simp add: ab_bound_def proof_store_def ab_store_new_def proof_ab_def)

lemma proof_paths [simp]:
  "st_a proof_store = DURABLE_PROOF_A" "st_b proof_store = DURABLE_PROOF_B" "DURABLE_PROOF_A \<noteq> DURABLE_PROOF_B"
  "parent DURABLE_PROOF_A = JOURNAL_DIR" "parent DURABLE_PROOF_B = JOURNAL_DIR"
  by (simp_all add: proof_store_def ab_store_new_def DURABLE_PROOF_A_def DURABLE_PROOF_B_def parent_def
      JOURNAL_DIR_def)

lemma proof_ab_simps [simp]:
  "ab_encode (proof_ab crc) p = Inr (proof_encode crc p)" "ab_generation (proof_ab crc) = dp_generation"
  "ab_set_generation (proof_ab crc) g p = p\<lparr>dp_generation := g\<rparr>"
  by (simp_all add: proof_ab_def)

lemma proof_ab_decode [simp]: "ab_decode (proof_ab crc) = proof_decode crc"
  by (simp add: proof_ab_def)

lemma copy_of_proof:
  "map_option fst (copy_of (proof_ab crc) proof_store c) = proof_of crc c"
  "copy_of (proof_ab crc) proof_store c = Some (p, b) \<longleftrightarrow> c = Some b \<and> proof_decode crc b = Inr p"
proof -
  have nonempty: "proof_decode crc [] = Inl (Truncated ''durable proof'')"
    by (simp add: proof_decode_def DURABLE_PROOF_SIZE_def)
  have long: "DURABLE_PROOF_SIZE < length b \<Longrightarrow> proof_decode crc b = Inl (Invalid ''durable proof has trailing bytes'')"
    for b
    by (simp add: proof_decode_def)
  show "map_option fst (copy_of (proof_ab crc) proof_store c) = proof_of crc c"
    using nonempty long
    by (cases c) (auto simp: copy_of_def bounded_content_def proof_of_def option.map_comp comp_def
        option.map_ident)
  show "copy_of (proof_ab crc) proof_store c = Some (p, b) \<longleftrightarrow> c = Some b \<and> proof_decode crc b = Inr p"
    using nonempty long
    by (cases c) (auto simp: copy_of_def bounded_content_def)
qed

section \<open>The mirrored store\<close>

context ab_medium
begin

lemma quiet_proof_read_copy:
  "quiet v (proof_read_copy B crc p u) (\<lambda>x. x = proof_of crc (v p) \<and> (\<forall>q. x = Some q \<longrightarrow> dp_volume_uuid q = u))"
  unfolding proof_read_copy_def
  by (rule quiet_weaken [OF quiet_read_fixed])
    (auto simp: fixed_result_def proof_of_def proof_decode_def proof_accept_def split: option.splits if_splits sum.splits format_error.splits)

lemma quiet_proof_load:
  "quiet v (proof_load B crc u) (\<lambda>p.
     proof_select (proof_of crc (v DURABLE_PROOF_A)) (proof_of crc (v DURABLE_PROOF_B)) = Inr p \<and>
     dp_volume_uuid p = u)"
  unfolding proof_load_def
  by (rule quiet_bind [OF quiet_proof_read_copy], rule quiet_bind [OF quiet_proof_read_copy])
    (auto dest: proof_select_InrD(1))

end

locale proof_protocol = ab_directory B inv view settled synced opened crash absent held cover
  for B :: "('s, 'h) backing" and inv and view and settled and synced and opened and crash and absent and held and cover +
  fixes crc :: "bytes \<Rightarrow> u32"
begin

text \<open>The proof the two sides select, and the invariant: some side holds, safe from crashes, a proof
  that reaches the acknowledged one.\<close>

definition selected :: "'s \<Rightarrow> format_error + durable_proof" where
  "selected s = proof_select (proof_of crc (view s DURABLE_PROOF_A)) (proof_of crc (view s DURABLE_PROOF_B))"

definition attests :: "'s \<Rightarrow> string \<Rightarrow> durable_proof \<Rightarrow> bool" where
  "attests s path h \<longleftrightarrow> (\<exists>c q. settled s path c \<and> proof_decode crc c = Inr q \<and> reaches q h)"

definition covered :: "durable_proof option \<Rightarrow> 's \<Rightarrow> bool" where
  "covered acked s \<longleftrightarrow> inv s \<and>
     (\<forall>h. acked = Some h \<longrightarrow> attests s DURABLE_PROOF_A h \<or> attests s DURABLE_PROOF_B h)"

definition mirrored :: "'s \<Rightarrow> durable_proof \<Rightarrow> bool" where
  "mirrored s p \<longleftrightarrow> (\<forall>path \<in> {DURABLE_PROOF_A, DURABLE_PROOF_B}.
     \<exists>q. settled s path (proof_encode crc q) \<and> proof_wf q \<and> same_horizon q p)"

lemma attests_mono: "attests s path h \<Longrightarrow> settled s \<le> settled s' \<Longrightarrow> attests s' path h"
  unfolding attests_def by blast

lemma covered_mono: "covered h s \<Longrightarrow> inv s' \<Longrightarrow> settled s \<le> settled s' \<Longrightarrow> covered h s'"
  using attests_mono unfolding covered_def by blast

lemma mirrored_covered: "inv s \<Longrightarrow> mirrored s p \<Longrightarrow> covered (Some p) s"
  using proof_decode_encode [of _ crc] reaches_refl
  by (fastforce simp: covered_def attests_def mirrored_def)

lemma covered_load:
  assumes "covered (Some h) s" and "proof_load B crc u s = (Inr p, s')"
  shows "reaches p h"
proof -
  have inv: "inv s" and "attests s DURABLE_PROOF_A h \<or> attests s DURABLE_PROOF_B h"
    using assms(1) by (simp_all add: covered_def)
  then obtain q where "proof_of crc (view s DURABLE_PROOF_A) = Some q \<or> proof_of crc (view s DURABLE_PROOF_B) = Some q"
    and q: "reaches q h"
    using settled_view [OF inv] by (fastforce simp: attests_def proof_of_def)
  moreover have "proof_select (proof_of crc (view s DURABLE_PROOF_A)) (proof_of crc (view s DURABLE_PROOF_B)) = Inr p"
    using quietD [OF quiet_proof_load inv assms(2)] by simp
  ultimately show ?thesis
    using proof_select_InrD(2) reaches_trans by blast
qed

end

sublocale proof_protocol \<subseteq> ab: ab_protocol B inv view settled synced opened crash crc "proof_ab crc" proof_wf proof_store
  by unfold_locales (auto simp: length_proof_encode)

context proof_protocol
begin

lemma side_generation_proof:
  "ab.side_generation s p = map_option dp_generation (proof_of crc (view s p))"
  by (simp add: ab.side_generation_def option.map_comp flip: copy_of_proof(1))

lemma preserved_proof:
  assumes "proof_of crc (view s (ab.other (ab.target s))) = Some q"
  obtains c where "ab.preserved s = Some (ab.other (ab.target s), c)" and "proof_decode crc c = Inr q"
proof -
  obtain c where c: "view s (ab.other (ab.target s)) = Some c" "proof_decode crc c = Inr q"
    using assms by (auto simp: proof_of_def bind_eq_Some_conv)
  then have "copy_of (proof_ab crc) proof_store (view s (ab.other (ab.target s))) = Some (q, c)"
    by (simp add: copy_of_proof(2))
  then show thesis
    using c(2) that [of c] by (simp add: ab.preserved_def)
qed

lemma store_covered:
  assumes "covered acked s" and "acked = None \<or> selected s = Inr cur"
    and "store B crc (proof_ab crc) proof_store p s = (r, p', s')"
  shows "covered acked s'"
proof (cases acked)
  case None
  then show ?thesis
    using assms(1) ab.store_effect(1) [OF _ assms(3)] by (simp add: covered_def)
next
  case (Some h)
  let ?t = "ab.target s" and ?o = "ab.other (ab.target s)"
  have inv: "inv s" and h: "attests s DURABLE_PROOF_A h \<or> attests s DURABLE_PROOF_B h"
    and sel: "selected s = Inr cur"
    using assms(1,2) Some by (simp_all add: covered_def)
  note eff = ab.store_effect [OF inv assms(3)]
  have sides: "?t = DURABLE_PROOF_A \<and> ?o = DURABLE_PROOF_B \<or> ?t = DURABLE_PROOF_B \<and> ?o = DURABLE_PROOF_A"
    using ab.target_other [of s] by (auto simp: ab.other_def)
  have "attests s' ?o h" if t: "attests s ?t h" and pre: "\<forall>p c. ab.preserved s = Some (p, c) \<longrightarrow> settled s' p c"
  proof -
    obtain c q where c: "settled s ?t c" "proof_decode crc c = Inr q" "reaches q h"
      using t by (auto simp: attests_def)
    then have q: "proof_of crc (view s ?t) = Some q"
      using settled_view [OF inv c(1)] by (simp add: proof_of_def)
    then obtain x where x: "proof_of crc (view s ?o) = Some x" "dp_generation q \<le> dp_generation x"
      using ab.other_newer [of s "dp_generation q"] by (auto simp: side_generation_proof)
    then have "reaches x q"
      using proof_select_InrD(3,4) [OF sel [unfolded selected_def]] q sides by auto
    moreover obtain d where "ab.preserved s = Some (?o, d)" "proof_decode crc d = Inr x"
      using x(1) by (rule preserved_proof)
    ultimately show ?thesis
      using pre c(3) reaches_trans by (auto simp: attests_def)
  qed
  moreover have "attests s' ?o h" if "attests s ?o h"
    using that eff(2) unfolding attests_def by blast
  ultimately show ?thesis
    using h eff(1,3) sides attests_mono [of s _ h s'] Some by (auto simp: covered_def)
qed

text \<open>The stages of publishing \<open>p\<close> twice. After the first put one side carries the candidate, newer
  than whatever the other side holds; the directory sync settles it; the second put then goes to
  the other side.\<close>

definition fresh :: "('s \<Rightarrow> string \<Rightarrow> bytes \<Rightarrow> bool) \<Rightarrow> durable_proof option \<Rightarrow> durable_proof \<Rightarrow> durable_proof \<Rightarrow> 's \<Rightarrow> bool" where
  "fresh holds acked p cand s \<longleftrightarrow> covered acked s \<and> same_horizon cand p \<and>
     (\<exists>t. ab.newest_at s t cand (proof_encode crc cand) \<and> holds s t (proof_encode crc cand))"

definition doubled :: "durable_proof option \<Rightarrow> durable_proof \<Rightarrow> durable_proof \<Rightarrow> 's \<Rightarrow> bool" where
  "doubled acked p cand s \<longleftrightarrow> covered acked s \<and> proof_wf cand \<and> same_horizon cand p \<and>
     (\<exists>t \<in> {DURABLE_PROOF_A, DURABLE_PROOF_B}. synced s (ab.other t) (proof_encode crc cand) \<and>
        (\<exists>q. settled s t (proof_encode crc q) \<and> proof_wf q \<and> same_horizon q p))"

lemma other_sides: "t \<in> {DURABLE_PROOF_A, DURABLE_PROOF_B} \<Longrightarrow>
    ab.other t \<in> {DURABLE_PROOF_A, DURABLE_PROOF_B} \<and> parent t = JOURNAL_DIR"
  by (auto simp: ab.other_def)

lemma same_horizon_set: "q = p\<lparr>dp_generation := g\<rparr> \<Longrightarrow> same_horizon q p"
  by (simp add: same_horizon_def)

lemma put_triple:
  assumes "proof_wf p"
  shows "triple (\<lambda>s. covered acked s \<and> (acked = None \<or> selected s = Inr cur)) (proof_put B crc p)
    (fresh synced acked p) (covered acked)"
proof (rule tripleI)
  fix s e s'
  assume s: "covered acked s \<and> (acked = None \<or> selected s = Inr cur)" and "proof_put B crc p s = (Inl e, s')"
  then obtain p' where "store B crc (proof_ab crc) proof_store p s = (Inl e, p', s')"
    by (auto simp: proof_put_def elim: ab_putE)
  then show "covered acked s'"
    using s store_covered by blast
next
  fix s p' s'
  assume s: "covered acked s \<and> (acked = None \<or> selected s = Inr cur)" and "proof_put B crc p s = (Inr p', s')"
  then have put: "ab_put B crc (proof_ab crc) proof_store p s = (Inr p', s')"
    by (simp add: proof_put_def)
  then have "store B crc (proof_ab crc) proof_store p s = (Inr (), p', s')"
    by (cases rule: ab_putE) auto
  then have "covered acked s'"
    using s store_covered by blast
  moreover have "inv s"
    using s by (simp add: covered_def)
  then obtain t b where "ab.newest_at s' t p' b" "synced s' t b"
    "p' = ab_set_generation (proof_ab crc) (ab_generation (proof_ab crc) p') p"
    using assms put by (rule ab.put_newest)
  ultimately show "fresh synced acked p p' s'"
    using same_horizon_set [of p' "dp_generation p'" p] by (auto simp: fresh_def ab.newest_at_def)
qed

lemma sync_fresh:
  "triple (fresh synced acked p cand) (io_fmt (b_sync_dir B JOURNAL_DIR)) (\<lambda>_. fresh settled acked p cand) (covered acked)"
proof (rule triple_fmt, rule tripleI)
  fix s e s'
  assume s: "fresh synced acked p cand s" and run: "b_sync_dir B JOURNAL_DIR s = (Inl e, s')"
  then have "covered acked s" "inv s"
    by (simp_all add: fresh_def covered_def)
  then show "covered acked s'"
    using sync_dir_keep [OF _ run] covered_mono by blast
next
  fix s x s'
  assume s: "fresh synced acked p cand s" and run: "b_sync_dir B JOURNAL_DIR s = (Inr x, s')"
  then obtain t where t: "ab.newest_at s t cand (proof_encode crc cand)" "synced s t (proof_encode crc cand)"
    and inv: "inv s" and cov: "covered acked s" "same_horizon cand p"
    by (auto simp: fresh_def covered_def)
  note k = sync_dir_keep [OF inv run]
  have "t \<in> {DURABLE_PROOF_A, DURABLE_PROOF_B}"
    using t(1) by (simp add: ab.newest_at_def)
  then have "settled s' t (proof_encode crc cand)"
    using sync_dir_settles [OF inv t(2)] run other_sides by simp
  moreover have "ab.newest_at s' t cand (proof_encode crc cand)"
    using ab.newest_at_view k t(1) by blast
  moreover have "covered acked s'"
    using k cov(1) covered_mono by blast
  ultimately show "fresh settled acked p cand s'"
    using cov(2) unfolding fresh_def by blast
qed

lemma put_again_triple:
  assumes "proof_wf cand"
  shows "triple (\<lambda>s. fresh settled acked p cand s \<and> (acked = None \<or> selected s = Inr cur)) (proof_put B crc cand)
    (doubled acked p) (covered acked)"
proof (rule tripleI)
  fix s e s'
  assume "fresh settled acked p cand s \<and> (acked = None \<or> selected s = Inr cur)" and run: "proof_put B crc cand s = (Inl e, s')"
  then have "covered acked s \<and> (acked = None \<or> selected s = Inr cur)"
    by (simp add: fresh_def)
  from tripleD(1) [OF put_triple [OF assms] this run refl] show "covered acked s'" .
next
  fix s p' s'
  assume s: "fresh settled acked p cand s \<and> (acked = None \<or> selected s = Inr cur)" and put: "proof_put B crc cand s = (Inr p', s')"
  then obtain t where t: "ab.newest_at s t cand (proof_encode crc cand)"
    and cov: "covered acked s \<and> (acked = None \<or> selected s = Inr cur)" and same: "same_horizon cand p"
    by (auto simp: fresh_def)
  have "inv s"
    using cov by (simp add: covered_def)
  then obtain b where "settled s' t (proof_encode crc cand)" "synced s' (ab.other t) b"
    "ab_encode (proof_ab crc) p' = Inr b" "proof_wf p'"
    "p' = ab_set_generation (proof_ab crc) (ab_generation (proof_ab crc) p') cand"
    using t put [unfolded proof_put_def] by (rule ab.put_again)
  moreover have "covered acked s'"
    using tripleD(2) [OF put_triple [OF assms] cov put refl] by (simp add: fresh_def)
  ultimately show "doubled acked p p' s'"
    using t assms same same_horizon_set [of p' "dp_generation p'" cand]
    by (auto simp: doubled_def ab.newest_at_def same_horizon_def)
qed

lemma sync_doubled:
  "triple (doubled acked p cand) (io_fmt (b_sync_dir B JOURNAL_DIR))
    (\<lambda>_ s. covered acked s \<and> mirrored s cand \<and> same_horizon cand p) (covered acked)"
proof (rule triple_fmt, rule tripleI)
  fix s e s'
  assume s: "doubled acked p cand s" and run: "b_sync_dir B JOURNAL_DIR s = (Inl e, s')"
  then have "covered acked s" "inv s"
    by (simp_all add: doubled_def covered_def)
  then show "covered acked s'"
    using sync_dir_keep [OF _ run] covered_mono by blast
next
  fix s x s'
  assume s: "doubled acked p cand s" and run: "b_sync_dir B JOURNAL_DIR s = (Inr x, s')"
  then obtain t q where t: "t \<in> {DURABLE_PROOF_A, DURABLE_PROOF_B}"
    and c: "synced s (ab.other t) (proof_encode crc cand)" "proof_wf cand" "same_horizon cand p"
    and q: "settled s t (proof_encode crc q)" "proof_wf q" "same_horizon q p"
    by (auto simp: doubled_def)
  have inv: "inv s" and cov: "covered acked s"
    using s by (simp_all add: doubled_def covered_def)
  note k = sync_dir_keep [OF inv run]
  have o: "ab.other t \<in> {DURABLE_PROOF_A, DURABLE_PROOF_B}" "t \<noteq> ab.other t"
    using t by (auto simp: ab.other_def)
  have "settled s' (ab.other t) (proof_encode crc cand)"
    using sync_dir_settles [OF inv c(1)] run other_sides [OF o(1)] by simp
  moreover have "settled s' t (proof_encode crc q)"
    using q(1) k by blast
  ultimately have "mirrored s' cand"
    using t o c q(2,3) by (auto simp: mirrored_def same_horizon_def)
  moreover have "covered acked s'"
    using k cov covered_mono by blast
  ultimately show "covered acked s' \<and> mirrored s' cand \<and> same_horizon cand p"
    using c(3) by simp
qed

lemma covered_steady: "steady (covered acked)"
  unfolding steady_def using covered_mono by (auto simp: covered_def)

lemma load_triple:
  assumes "steady F"
  shows "triple F (proof_load B crc u) (\<lambda>p s. F s \<and> selected s = Inr p) F"
  by (rule triple_weaken [OF quiet_triple [OF quiet_proof_load assms]]) (simp_all add: selected_def)

lemma fresh_steady: "steady (fresh settled acked p cand)"
  unfolding steady_def
proof (intro conjI allI impI)
  fix s s'
  assume s: "fresh settled acked p cand s" "inv s'" "view s' = view s" "settled s \<le> settled s'"
  then obtain t where "ab.newest_at s' t cand (proof_encode crc cand)" "settled s' t (proof_encode crc cand)"
    unfolding fresh_def using ab.newest_at_view [OF s(3)] by blast
  moreover have "covered acked s'"
    using s covered_mono [of acked s s'] by (simp add: fresh_def)
  ultimately show "fresh settled acked p cand s'"
    using s(1) unfolding fresh_def by blast
qed (simp add: fresh_def covered_def)

text \<open>The second half of \<open>advance\<close> and of \<open>initialize\<close>.\<close>

lemma second_half:
  "triple (\<lambda>s. fresh settled acked p cand s \<and> (acked = None \<or> selected s = Inr cur))
    (io_bind (proof_put B crc cand) (\<lambda>c. io_bind (io_fmt (b_sync_dir B JOURNAL_DIR)) (\<lambda>_. k c)))
    Q (covered acked)"
  if "\<And>c. triple (\<lambda>s. covered acked s \<and> mirrored s c \<and> same_horizon c p) (k c) Q (covered acked)"
proof (rule triple_fact)
  assume wf: "proof_wf cand"
  show ?thesis
    by (rule triple_bind [OF put_again_triple [OF wf]], rule triple_bind [OF sync_doubled], rule that)
qed (auto simp: fresh_def ab.newest_at_def)

lemma advance_triple:
  assumes "length (dp_volume_uuid p) = 16"
  shows "triple (covered acked) (proof_advance B crc p)
    (\<lambda>p' s. covered acked s \<and> mirrored s p' \<and> same_horizon p' p) (covered acked)"
    (is "triple _ _ ?Q _")
proof (cases "proof_validate p")
  case (Inl e)
  then show ?thesis
    unfolding proof_advance_def by (auto simp: triple_def io_bind_def)
next
  case (Inr u)
  then have wf: "proof_wf p"
    using assms by (simp add: proof_wf_def)
  let ?sync = "io_fmt (b_sync_dir B JOURNAL_DIR)"
  let ?F = "\<lambda>cur s. covered acked s \<and> selected s = Inr cur"
  have again: "triple (fresh settled acked p c)
      (io_bind (proof_load B crc v) (\<lambda>_. io_bind (proof_put B crc c) (\<lambda>c. io_bind ?sync (\<lambda>_. io_return c))))
      ?Q (covered acked)" for c v
  proof (rule triple_bind [OF triple_error [OF load_triple [OF fresh_steady]]])
    show "triple (\<lambda>s. fresh settled acked p c s \<and> selected s = Inr cur)
        (io_bind (proof_put B crc c) (\<lambda>c. io_bind ?sync (\<lambda>_. io_return c))) ?Q (covered acked)" for cur
      by (rule triple_pre [OF second_half [of acked p io_return ?Q c cur]]) (simp_all add: triple_return)
  qed (simp add: fresh_def)
  have publish: "triple (?F cur) (io_bind (proof_put B crc p) (\<lambda>c. io_bind ?sync (\<lambda>_.
      io_bind (proof_load B crc v) (\<lambda>_. io_bind (proof_put B crc c) (\<lambda>c. io_bind ?sync (\<lambda>_. io_return c))))))
      ?Q (covered acked)" for cur v
    by (rule triple_bind [OF triple_pre [OF put_triple [OF wf, of acked cur]]], simp,
        rule triple_bind [OF sync_fresh], rule again)
  show ?thesis
    unfolding proof_advance_def Inr
  proof (rule triple_bind [OF triple_pure [where Q = "\<lambda>_. covered acked"]],
      assumption, assumption, rule triple_bind [OF load_triple [OF covered_steady]])
    fix cur
    show "triple (?F cur) (io_bind (io_pure (proof_follows p cur)) (\<lambda>_.
      if dp_generation cur < dp_generation p
      then io_fail (Invalid ''candidate proof generation is ahead of stored metadata'')
      else io_bind (io_pure (ok_or (checked_add (dp_generation cur) 2)
         (Overflow ''durable proof generation exhausted''))) (\<lambda>_.
       io_bind (proof_put B crc p) (\<lambda>candidate. io_bind ?sync (\<lambda>_.
       io_bind (proof_load B crc (dp_volume_uuid p)) (\<lambda>_.
       io_bind (proof_put B crc candidate) (\<lambda>candidate. io_bind ?sync (\<lambda>_.
       io_return candidate)))))))) ?Q (covered acked)"
      by (rule triple_bind [OF triple_pure [where Q = "\<lambda>_. ?F cur"]], simp, assumption,
          rule triple_if, rule triple_fail, simp,
          rule triple_bind [OF triple_pure [where Q = "\<lambda>_. ?F cur"]], simp, assumption, rule publish)
  qed
qed

text \<open>Initialization goes ahead only where no copy is there at all, so it resets no history.\<close>

lemma absent_triple:
  assumes "steady F"
  shows "triple F (io_bind (proof_read_copy B crc path u) (\<lambda>_.
      io_bind (io_fmt (b_exists B path)) (\<lambda>there. if there then io_fail e else io_return ())))
    (\<lambda>_ s. F s \<and> view s path = None) F"
proof (rule triple_bind)
  show "triple F (proof_read_copy B crc path u) (\<lambda>_. F) F"
    by (rule triple_weaken [OF quiet_triple [OF quiet_proof_read_copy assms]]) auto
  have "triple (\<lambda>s. F s \<and> (\<not> there \<longrightarrow> view s path = None)) (if there then io_fail e else io_return ())
      (\<lambda>_ s. F s \<and> view s path = None) F" for there
    by (rule triple_if) (rule triple_fail triple_return, simp)+
  then show "triple F (io_bind (io_fmt (b_exists B path)) (\<lambda>there. if there then io_fail e else io_return ()))
      (\<lambda>_ s. F s \<and> view s path = None) F"
    by (rule triple_bind [OF triple_fmt [OF exists_triple [OF framed_steady [OF assms]]]])
qed

lemma initialize_triple:
  assumes "length u = 16"
  shows "triple (covered acked) (proof_initialize B crc u)
    (\<lambda>p s. covered acked s \<and> mirrored s p \<and> same_horizon p (proof_initial u)) (covered acked)"
    (is "triple _ _ ?Q _")
proof -
  have wf: "proof_wf (proof_initial u)"
    using assms by (simp add: proof_wf_def proof_initial_def proof_validate_def)
  let ?none = "\<lambda>s. (covered acked s \<and> view s DURABLE_PROOF_A = None) \<and> view s DURABLE_PROOF_B = None"
  have none: "acked = None" if s: "?none s" for s
  proof (cases acked)
    case (Some h)
    then obtain path c where "path \<in> {DURABLE_PROOF_A, DURABLE_PROOF_B}" and "settled s path c"
      using s by (auto simp: covered_def attests_def)
    then show ?thesis
      using s settled_view [of s path c] by (auto simp: covered_def)
  qed
  have steadyA: "steady (\<lambda>s. covered acked s \<and> view s DURABLE_PROOF_A = None)"
    by (rule steady_view [OF covered_steady])
  have steadyQ: "steady (\<lambda>s. covered acked s \<and> mirrored s p \<and> same_horizon p q)" for p q
    unfolding steady_def
  proof (intro conjI allI impI)
    fix s s'
    assume s: "covered acked s \<and> mirrored s p \<and> same_horizon p q" "inv s'" "settled s \<le> settled s'"
    then show "covered acked s'" "same_horizon p q"
      using covered_mono [of acked s s'] by simp_all
    show "mirrored s' p"
      using s unfolding mirrored_def by blast
  qed (simp add: covered_def)
  have finish: "triple (\<lambda>s. covered acked s \<and> mirrored s c \<and> same_horizon c (proof_initial u))
      (io_bind (io_fmt (b_sync_dir B [])) (\<lambda>_. io_return c)) ?Q (covered acked)" for c
    by (rule triple_bind [OF triple_error [OF triple_fmt [OF sync_dir_triple [OF steadyQ]]]], simp)
      (rule triple_return, assumption)
  have publish: "triple ?none
      (io_bind (io_fmt (b_create_dir_all B JOURNAL_DIR)) (\<lambda>_.
      io_bind (proof_put B crc (proof_initial u)) (\<lambda>proof.
      io_bind (io_fmt (b_sync_dir B JOURNAL_DIR)) (\<lambda>_.
      io_bind (proof_put B crc proof) (\<lambda>proof.
      io_bind (io_fmt (b_sync_dir B JOURNAL_DIR)) (\<lambda>_.
      io_bind (io_fmt (b_sync_dir B [])) (\<lambda>_. io_return proof)))))))
      ?Q (covered acked)"
  proof (rule triple_fact [OF none], assumption)
    fix cur
    assume acked: "acked = None"
    show ?thesis
      by (rule triple_bind [OF triple_fmt [OF triple_pre [OF modifies_triple [OF modifies_ops(2) framed_steady [OF covered_steady]]]]], blast,
          rule triple_bind [OF triple_pre [OF put_triple [OF wf, of acked cur]]], simp only: acked simp_thms,
          rule triple_bind [OF sync_fresh], rule triple_pre [OF second_half [OF finish, of _ cur]],
          simp only: acked simp_thms)
  qed
  show ?thesis
    unfolding proof_initialize_def Let_def
    by (rule triple_bind [OF absent_triple [OF covered_steady]],
        rule triple_bind [OF triple_error [OF absent_triple [OF steadyA]]], simp, rule publish)
qed

end

section \<open>Histories\<close>

text \<open>Every history of the proof of one volume, from an initial state: advances and initializations
  that succeed or fail anywhere, loads and crashes. The last argument is the proof acknowledged
  last.\<close>

inductive proof_run ::
  "('s, 'h) backing \<Rightarrow> ('s \<Rightarrow> 's \<Rightarrow> bool) \<Rightarrow> (bytes \<Rightarrow> u32) \<Rightarrow> 's \<Rightarrow> 's \<Rightarrow> durable_proof option \<Rightarrow> bool"
  for B crash crc s0 where
  start: "proof_run B crash crc s0 s0 None"
| init_ok: "proof_run B crash crc s0 s h \<Longrightarrow> length u = 16 \<Longrightarrow> proof_initialize B crc u s = (Inr p, s') \<Longrightarrow>
    proof_run B crash crc s0 s' (Some p)"
| init_err: "proof_run B crash crc s0 s h \<Longrightarrow> length u = 16 \<Longrightarrow> proof_initialize B crc u s = (Inl e, s') \<Longrightarrow>
    proof_run B crash crc s0 s' h"
| advance_ok: "proof_run B crash crc s0 s h \<Longrightarrow> length (dp_volume_uuid p) = 16 \<Longrightarrow>
    proof_advance B crc p s = (Inr p', s') \<Longrightarrow> proof_run B crash crc s0 s' (Some p')"
| advance_err: "proof_run B crash crc s0 s h \<Longrightarrow> length (dp_volume_uuid p) = 16 \<Longrightarrow>
    proof_advance B crc p s = (Inl e, s') \<Longrightarrow> proof_run B crash crc s0 s' h"
| load: "proof_run B crash crc s0 s h \<Longrightarrow> proof_load B crc u s = (r, s') \<Longrightarrow> proof_run B crash crc s0 s' h"
| crash: "proof_run B crash crc s0 s h \<Longrightarrow> crash s s' \<Longrightarrow> proof_run B crash crc s0 s' h"

context proof_protocol
begin

lemma run_covered:
  assumes "proof_run B crash crc s0 s h" and "inv s0"
  shows "covered h s"
  using assms
proof (induction rule: proof_run.induct)
  case start
  then show ?case by (simp add: covered_def)
next
  case (init_ok s h u p s')
  from tripleD(2) [OF initialize_triple [OF init_ok(2)] init_ok.IH [OF init_ok.prems] init_ok(3) refl]
  show ?case using mirrored_covered [of s' p] by (simp add: covered_def)
next
  case (init_err s h u e s')
  from tripleD(1) [OF initialize_triple [OF init_err(2)] init_err.IH [OF init_err.prems] init_err(3) refl]
  show ?case .
next
  case (advance_ok s h p p' s')
  from tripleD(2) [OF advance_triple [OF advance_ok(2)] advance_ok.IH [OF advance_ok.prems] advance_ok(3) refl]
  show ?case using mirrored_covered [of s' p'] by (simp add: covered_def)
next
  case (advance_err s h p e s')
  from tripleD(1) [OF advance_triple [OF advance_err(2)] advance_err.IH [OF advance_err.prems] advance_err(3) refl]
  show ?case .
next
  case (load s h u r s')
  then have s: "covered h s" "inv s"
    by (auto simp: covered_def)
  from quietD [OF quiet_proof_load s(2) load(2)] show ?case
    using covered_mono [OF s(1)] by simp
next
  case (crash s h s')
  then have s: "covered h s" "inv s"
    by (auto simp: covered_def)
  show ?case
    using covered_mono [OF s(1)] crash_inv [OF s(2) crash(2)] crash_settled [OF s(2) crash(2)] by simp
qed

end

interpretation crash_proof: proof_protocol crash_backing cb_inv cb_view cb_settled cb_synced cb_opened cb_crash
  cb_absent cb_held cb_cover crc
  for crc
  by unfold_locales

section \<open>A concrete history\<close>

text \<open>Evaluation of the operations on the empty crash backing: the first proof of a volume with the
  nil UUID.\<close>

definition nil_proof :: durable_proof where
  "nil_proof = proof_initial (replicate 16 0)"

lemma nil_proof_simps:
  fixes g :: u64
  defines "p \<equiv> nil_proof\<lparr>dp_generation := g\<rparr>"
  shows "length (proof_encode crc p) = 64" and "proof_encode crc p \<noteq> []"
    and "raw_generation_decode crc (proof_encode crc p) = Inr g"
    and "proof_decode crc (proof_encode crc p) = Inr p"
    and "overwrite 0 (proof_encode crc p) (resize 64 d) = proof_encode crc p"
proof -
  have wf: "proof_wf p"
    by (simp add: p_def nil_proof_def proof_wf_def proof_initial_def proof_validate_def)
  then show "proof_decode crc (proof_encode crc p) = Inr p"
    by (rule proof_decode_encode)
  then show "raw_generation_decode crc (proof_encode crc p) = Inr g"
    using proof_decode_raw by (fastforce simp: p_def)
  show len: "length (proof_encode crc p) = 64"
    using length_proof_encode [OF wf] by (simp add: DURABLE_PROOF_SIZE_def)
  then show "proof_encode crc p \<noteq> []"
    by auto
  show "overwrite 0 (proof_encode crc p) (resize 64 d) = proof_encode crc p"
    using overwrite_resize_all [of "proof_encode crc p" d] unfolding len .
qed

lemma nil_proof_fields:
  "dp_generation nil_proof = 0" "dp_volume_uuid nil_proof = replicate 16 0"
  "proof_initial (replicate 16 0) = nil_proof" "ab_max_encoded_len (proof_ab crc) = 64"
  by (simp_all add: nil_proof_def proof_initial_def proof_ab_def DURABLE_PROOF_SIZE_def)

lemma nil_proof_valid: "proof_validate nil_proof = Inr ()"
  by (simp add: nil_proof_def proof_initial_def proof_validate_def)

lemma initialize_empty:
  "\<exists>p s q s'. proof_initialize crash_backing (\<lambda>_. 0) (replicate 16 0) crash_new = (Inr p, s) \<and>
     proof_load crash_backing (\<lambda>_. 0) (replicate 16 0) s = (Inr q, s')"
  by (simp add: crash_eval parent_def ab_bound_def ab_store_new_def nil_proof_simps nil_proof_fields proof_initialize_def
      proof_read_copy_def read_fixed_def JOURNAL_DIR_def proof_put_def ab_put_def DURABLE_PROOF_SIZE_def proof_load_def proof_accept_def
      proof_select_def proof_follows_def DURABLE_PROOF_A_def DURABLE_PROOF_B_def proof_store_def)

lemma advance_initialized:
  "\<exists>p s q s'. proof_initialize crash_backing (\<lambda>_. 0) (replicate 16 0) crash_new = (Inr p, s) \<and>
     proof_advance crash_backing (\<lambda>_. 0) p s = (Inr q, s') \<and> dp_volume_uuid p = replicate 16 0"
  by (simp add: crash_eval parent_def ab_bound_def ab_store_new_def nil_proof_simps nil_proof_fields proof_initialize_def
      proof_read_copy_def read_fixed_def JOURNAL_DIR_def proof_put_def ab_put_def DURABLE_PROOF_SIZE_def proof_load_def proof_accept_def
      proof_select_def proof_follows_def DURABLE_PROOF_A_def DURABLE_PROOF_B_def proof_store_def
      proof_advance_def nil_proof_valid)

section \<open>Properties\<close>

text \<open>C13: An acknowledged horizon never regresses. In every history of initializations and advances
  that succeed or fail anywhere, of loads, and of crashes that keep, lose or tear what was not
  synced, any later load that succeeds returns a proof of the same volume whose horizon follows the
  one acknowledged last.\<close>

theorem proof_horizon_never_regresses:
  assumes "cb_inv s0" and "proof_run crash_backing cb_crash crc s0 s (Some h)"
    and "proof_load crash_backing crc u s = (Inr p, s')"
  shows "proof_follows p h = Inr () \<and> dp_durable_sequence h \<le> dp_durable_sequence p"
proof -
  have "reaches p h"
    using crash_proof.covered_load [OF crash_proof.run_covered [OF assms(2,1)] assms(3)] .
  then show ?thesis
    by (auto simp: reaches_iff simp flip: reaches_def)
qed

theorem proof_horizon_never_regresses_witness:
  "\<exists>s h p s'. proof_run crash_backing cb_crash (\<lambda>_. 0) crash_new s (Some h) \<and>
     proof_load crash_backing (\<lambda>_. 0) (replicate 16 0) s = (Inr p, s') \<and> proof_follows p h = Inr ()"
proof -
  obtain h s p s' where i: "proof_initialize crash_backing (\<lambda>_. 0) (replicate 16 0) crash_new = (Inr h, s)"
    and l: "proof_load crash_backing (\<lambda>_. 0) (replicate 16 0) s = (Inr p, s')"
    using initialize_empty by blast
  have "proof_run crash_backing cb_crash (\<lambda>_. 0) crash_new s (Some h)"
    by (rule proof_run.init_ok [OF proof_run.start _ i]) simp
  then show ?thesis
    using proof_horizon_never_regresses [OF crash_new_inv _ l] l by blast
qed

text \<open>C14: A successful advance mirrors its horizon. When \<open>advance\<close> returns success, whatever happened on
  the medium before, both copies hold, safe from any crash, a valid proof of exactly the horizon
  that was to be published, so either copy alone attests it.\<close>

theorem proof_advance_mirrors:
  assumes "cb_inv s" and "length (dp_volume_uuid p) = 16"
    and "proof_advance crash_backing crc p s = (Inr p', s')"
  shows "\<forall>path \<in> {DURABLE_PROOF_A, DURABLE_PROOF_B}. \<exists>c q. cb_settled s' path c \<and>
    proof_decode crc c = Inr q \<and> q\<lparr>dp_generation := 0\<rparr> = p\<lparr>dp_generation := 0\<rparr>"
proof
  fix path
  assume path: "path \<in> {DURABLE_PROOF_A, DURABLE_PROOF_B}"
  have "crash_proof.covered crc None s"
    using assms(1) by (simp add: crash_proof.covered_def)
  from tripleD(2) [OF crash_proof.advance_triple [OF assms(2)] this assms(3) refl]
  obtain q where "cb_settled s' path (proof_encode crc q)" "proof_wf q" "same_horizon q p'" "same_horizon p' p"
    using path by (auto simp: crash_proof.mirrored_def)
  then show "\<exists>c q. cb_settled s' path c \<and> proof_decode crc c = Inr q \<and>
      q\<lparr>dp_generation := 0\<rparr> = p\<lparr>dp_generation := 0\<rparr>"
    using proof_decode_encode [of q crc] by (auto simp: same_horizon_def)
qed

theorem proof_advance_mirrors_witness:
  "\<exists>p s p' s'. proof_advance crash_backing (\<lambda>_. 0) p s = (Inr p', s') \<and>
     (\<forall>path \<in> {DURABLE_PROOF_A, DURABLE_PROOF_B}. \<exists>c q. cb_settled s' path c \<and>
       proof_decode (\<lambda>_. 0) c = Inr q \<and> q\<lparr>dp_generation := 0\<rparr> = p\<lparr>dp_generation := 0\<rparr>)"
proof -
  obtain p s q s' where i: "proof_initialize crash_backing (\<lambda>_. 0) (replicate 16 0) crash_new = (Inr p, s)"
    and a: "proof_advance crash_backing (\<lambda>_. 0) p s = (Inr q, s')" and u: "dp_volume_uuid p = replicate 16 0"
    using advance_initialized by blast
  have "proof_run crash_backing cb_crash (\<lambda>_. 0) crash_new s (Some p)"
    by (rule proof_run.init_ok [OF proof_run.start _ i]) simp
  then have "cb_inv s"
    using crash_proof.run_covered [OF _ crash_new_inv] by (simp add: crash_proof.covered_def)
  moreover have "length (dp_volume_uuid p) = 16"
    using u by simp
  ultimately show ?thesis
    using proof_advance_mirrors [OF _ _ a] a by blast
qed

end
