(* ===== verification/Load_Faults.thy ===== *)
theory Load_Faults
  imports Superblock_Load Durable_Proof
begin

text \<open>
  When the loads of recovery may fail. A missing or a damaged record is not an I/O error: it is
  reported as no record or as an invalid one. \<open>answers\<close> says that a program leaves everything alone and
  either answers as described or reports an I/O error; on the crash-simulating backing such an error
  has to be injected (\<open>silent\<close> states inject none), so both together say that a load succeeds.
\<close>

section \<open>Answers\<close>

lemma io_fmt_error: "io_fmt m s = (Inl e, s') \<Longrightarrow> \<exists>io. e = FormatIo io"
  by (auto simp: io_fmt_def map_sum_def split: prod.splits sum.splits)

context ab_medium
begin

definition answers :: "(string \<Rightarrow> bytes option) \<Rightarrow> ('s, format_error, 'a) io \<Rightarrow> ('a \<Rightarrow> bool) \<Rightarrow> bool" where
  "answers v m P \<longleftrightarrow> quiet v m P \<and>
     (\<forall>s e s'. inv s \<longrightarrow> view s = v \<longrightarrow> m s = (Inl e, s') \<longrightarrow> (\<exists>io. e = FormatIo io))"

lemma answersD:
  assumes "answers (view s) m P" and "inv s" and "m s = (r, s')"
  shows "(\<exists>x. r = Inr x \<and> P x) \<or> (\<exists>io. r = Inl (FormatIo io))"
  using assms quietD [of s m P r s'] unfolding answers_def by (cases r) blast+

lemma answers_bind:
  assumes "answers v m P" and "\<And>x. P x \<Longrightarrow> answers v (f x) Q"
  shows "answers v (io_bind m f) Q"
  unfolding answers_def
proof (intro conjI allI impI)
  show "quiet v (io_bind m f) Q"
    using assms unfolding answers_def by (blast intro: quiet_bind)
  fix s e s'
  assume s: "inv s" "view s = v" and run: "io_bind m f s = (Inl e, s')"
  from run show "\<exists>io. e = FormatIo io"
  proof (cases rule: io_bindE)
    case (err e')
    then show ?thesis
      using assms(1) s unfolding answers_def by blast
  next
    case (ok x s1)
    have "inv s1" "view s1 = v" "P x"
      using assms(1) s ok(1) unfolding answers_def quiet_def by blast+
    then show ?thesis
      using assms(2) ok(2) unfolding answers_def by blast
  qed
qed

lemma answers_pure: "P x \<Longrightarrow> answers v (io_pure (Inr x)) P"
  by (simp add: answers_def quiet_def)

lemma answers_read_fixed:
  assumes c: "v p = Some c" "length c = sz" "accept c = Inr x"
  shows "answers v (read_fixed B p sz foreign what accept) (\<lambda>y. y = x)"
  unfolding answers_def
proof (intro conjI allI impI)
  show "quiet v (read_fixed B p sz foreign what accept) (\<lambda>y. y = x)"
    by (rule quiet_weaken [OF quiet_read_fixed]) (simp add: fixed_result_def c)
  fix s e s'
  assume s: "inv s" "view s = v" and run: "read_fixed B p sz foreign what accept s = (Inl e, s')"
  from run show "\<exists>io. e = FormatIo io"
    unfolding read_fixed_def
  proof (cases rule: io_matchE)
    case (err e' s1)
    then show ?thesis
      by (auto split: if_splits)
  next
    case (ok h s1)
    have s1: "inv s1" "opened s1 h p" "view s1 p = Some c"
      using open_inv [OF s(1) ok(1)] open_opened [OF s(1) ok(1)] open_keep [OF s(1) ok(1), of p] s(2) c(1) by auto
    from ok(2) show ?thesis
    proof (cases rule: io_bindE)
      case (err e')
      then show ?thesis
        using io_fmt_error by auto
    next
      case (ok n s2)
      then have "f_len B h s1 = (Inr n, s2)"
        by (auto simp: io_fmt_def map_sum_def split: prod.splits sum.splits)
      note l = len_keep [OF s1(1,2) this]
      have n: "n = sz" and s2: "inv s2" "opened s2 h p" "view s2 p = Some c"
        using l s1(3) c(2) by auto
      from ok(2) have "io_match (f_read_at B h 0 sz)
          (\<lambda>e. if e = UnexpectedEof then io_return None else io_fail (FormatIo e)) (\<lambda>bytes. io_pure (accept bytes)) s2 = (Inl e, s')"
        by (simp add: n)
      then show ?thesis
      proof (cases rule: io_matchE)
        case (err e' s3)
        then show ?thesis
          by (auto split: if_splits)
      next
        case (ok bs s3)
        have "bs = c"
          using read_keep [OF s2 ok(1)] c(2) by simp
        then show ?thesis
          using ok(2) c(3) by simp
      qed
    qed
  qed
qed

text \<open>A read of an A/B copy reports every damage as an absent copy.\<close>

lemma read_bounded_error: "read_bounded B p bound s = (Inl e, s') \<Longrightarrow> \<exists>io. e = FormatIo io"
  unfolding read_bounded_def by (auto elim!: io_matchE io_bindE dest: io_fmt_error split: if_splits)

lemma ab_load_error: "ab_load B R st s = (Inl e, s') \<Longrightarrow> \<exists>io. e = FormatIo io"
  unfolding ab_load_def read_side_def read_copy_def
  by (auto elim!: io_bindE dest: read_bounded_error)

end

section \<open>Loads\<close>

text \<open>Two valid copies of one horizon are accepted.\<close>

lemma proof_select_same:
  assumes "same_horizon p h" and "same_horizon q h"
  shows "\<exists>x. proof_select (Some p) (Some q) = Inr x \<and> same_horizon x h"
proof -
  have "p = q" if "dp_generation p = dp_generation q"
    using assms that by (cases p; cases q; cases h) (simp add: same_horizon_def)
  moreover have "same_horizon p q" "same_horizon q p"
    using assms by (simp_all add: same_horizon_def)
  then have "proof_follows p q = Inr ()" "proof_follows q p = Inr ()"
    using reaches_refl unfolding reaches_def by blast+
  ultimately show ?thesis
    using assms by (auto simp: proof_select_def)
qed

context ab_medium
begin

lemma answers_proof_read_copy:
  assumes "v p = Some (proof_encode crc q)" and "proof_wf q" and "dp_volume_uuid q = u"
  shows "answers v (proof_read_copy B crc p u) (\<lambda>x. x = Some q)"
  unfolding proof_read_copy_def
  by (rule answers_read_fixed [where v = v and p = p, OF assms(1)]) (use assms in \<open>simp_all add: length_proof_encode proof_decode_encode proof_accept_def\<close>)

lemma answers_proof_load:
  assumes "v DURABLE_PROOF_A = Some (proof_encode crc a)" and "v DURABLE_PROOF_B = Some (proof_encode crc b)"
    and "proof_wf a" and "proof_wf b" and "same_horizon a h" and "same_horizon b h"
  shows "answers v (proof_load B crc (dp_volume_uuid h)) (\<lambda>p. same_horizon p h)"
proof -
  have u: "dp_volume_uuid a = dp_volume_uuid h" "dp_volume_uuid b = dp_volume_uuid h"
    using assms(5,6) by (cases a; cases b; cases h; simp add: same_horizon_def)+
  obtain x where "proof_select (Some a) (Some b) = Inr x" "same_horizon x h"
    using proof_select_same [OF assms(5,6)] by blast
  then show ?thesis
    unfolding proof_load_def
    by (intro answers_bind [OF answers_proof_read_copy [where v = v and p = DURABLE_PROOF_A, OF assms(1,3) u(1)]]
        answers_bind [OF answers_proof_read_copy [where v = v and p = DURABLE_PROOF_B, OF assms(2,4) u(2)]]) (simp add: answers_pure)
qed

lemma answers_read_volume_copy:
  assumes "v p = Some b" and "length b = SUPERBLOCK_SIZE" and "volume_superblock_decode crc b = Inr r"
  shows "answers v (read_volume_copy B crc p) (\<lambda>x. x = Some (r, b))"
  unfolding read_volume_copy_def
  by (rule answers_read_fixed [where v = v and p = p, OF assms(1,2)]) (simp add: volume_accept_def assms(3))

lemma answers_load_volume_superblock:
  assumes "v SUPERBLOCK_A = Some ba" and "length ba = SUPERBLOCK_SIZE" and "volume_superblock_decode crc ba = Inr ra"
    and "v SUPERBLOCK_B = Some bb" and "length bb = SUPERBLOCK_SIZE" and "volume_superblock_decode crc bb = Inr rb"
    and "volume_select (Some (ra, ba)) (Some (rb, bb)) = Inr r"
  shows "answers v (load_volume_superblock B crc) (\<lambda>x. x = r)"
  unfolding load_volume_superblock_def
  by (intro answers_bind [OF answers_read_volume_copy [where v = v and p = SUPERBLOCK_A, OF assms(1-3)]]
      answers_bind [OF answers_read_volume_copy [where v = v and p = SUPERBLOCK_B, OF assms(4-6)]]) (simp add: assms(7) answers_pure)

end

section \<open>Silent states\<close>

definition silent :: "crash_state \<Rightarrow> bool" where
  "silent s \<longleftrightarrow> cb_hook s = (\<lambda>_ _. None)"

definition succeeds :: "(crash_state, format_error, 'a) io \<Rightarrow> bool" where
  "succeeds m \<longleftrightarrow> (\<forall>s r s'. cb_inv s \<longrightarrow> silent s \<longrightarrow> m s = (r, s') \<longrightarrow> silent s' \<and> cb_inv s' \<and> (\<forall>io. r \<noteq> Inl (FormatIo io)))"

lemma succeeds_bind:
  assumes "succeeds m" and "\<And>x. succeeds (f x)"
  shows "succeeds (io_bind m f)"
  unfolding succeeds_def
proof (intro allI impI)
  fix s r s'
  assume s: "cb_inv s" "silent s" and run: "io_bind m f s = (r, s')"
  from run show "silent s' \<and> cb_inv s' \<and> (\<forall>io. r \<noteq> Inl (FormatIo io))"
  proof (cases rule: io_bindE)
    case (err e)
    then show ?thesis
      using assms(1) s unfolding succeeds_def by blast
  next
    case (ok x s1)
    have "cb_inv s1" "silent s1"
      using assms(1) s ok(1) unfolding succeeds_def by blast+
    then show ?thesis
      using assms(2) ok(2) unfolding succeeds_def by blast
  qed
qed

lemma succeeds_pure: "(\<And>io. r \<noteq> Inl (FormatIo io)) \<Longrightarrow> succeeds (io_pure r)"
  by (simp add: succeeds_def)

lemma silent_open:
  assumes "cb_inv s" and "silent s" and "validate p False = Inr ()" and "b_open crash_backing p False s = (r, s')"
  shows "silent s'" and "cb_inv s'"
    and "r = Inl NotFound \<or> (\<exists>h. r = Inr h \<and> cb_inodes s' (cf_inode h) \<noteq> None)"
proof -
  show "cb_inv s'"
    using crash.open_inv [OF assms(1,4)] .
  show "silent s'"
    using assms(2-4) by (auto simp: crash_backing_def cb_open_def check_def silent_def split: option.splits)
  have "cb_inodes s i \<noteq> None" if "volatile s p = Some i" for i
    using assms(1) that unfolding cb_inv_def names_ok_def volatile_def entry_ids_def
    by (fastforce simp: bind_eq_Some_conv)
  then show "r = Inl NotFound \<or> (\<exists>h. r = Inr h \<and> cb_inodes s' (cf_inode h) \<noteq> None)"
    using assms(2-4) by (auto simp: crash_backing_def cb_open_def check_def silent_def volatile_def split: option.splits)
qed

text \<open>On a file that exists, the only error of a read is that it is too short.\<close>

lemma silent_len:
  assumes "cb_inodes s (cf_inode h) \<noteq> None" and "f_len crash_backing h s = (r, s')"
  shows "silent s' = silent s" and "cb_inodes s' (cf_inode h) \<noteq> None" and "\<exists>n. r = Inr n"
  using assms by (auto simp: crash_backing_def cf_len_def with_inode_def silent_def)

lemma silent_read:
  assumes "cb_inodes s (cf_inode h) \<noteq> None" and "f_read_at crash_backing h off n s = (r, s')"
  shows "silent s' = silent s" and "r = Inl e \<Longrightarrow> e = UnexpectedEof"
  using assms by (auto simp: crash_backing_def cf_read_at_def with_inode_def silent_def split: if_splits)

lemma succeeds_opened:
  assumes "validate p False = Inr ()"
    and "\<And>h s r s'. cb_inv s \<Longrightarrow> silent s \<Longrightarrow> cb_opened s h p \<Longrightarrow> cb_inodes s (cf_inode h) \<noteq> None \<Longrightarrow>
      k h s = (r, s') \<Longrightarrow> silent s' \<and> cb_inv s' \<and> (\<forall>io. r \<noteq> Inl (FormatIo io))"
  shows "succeeds (io_match (b_open crash_backing p False)
    (\<lambda>e. if e = NotFound then io_return z else io_fail (FormatIo e)) k)"
  unfolding succeeds_def
proof (intro allI impI)
  fix s r s'
  assume s: "cb_inv s" "silent s" and run: "io_match (b_open crash_backing p False)
    (\<lambda>e. if e = NotFound then io_return z else io_fail (FormatIo e)) k s = (r, s')"
  from run show "silent s' \<and> cb_inv s' \<and> (\<forall>io. r \<noteq> Inl (FormatIo io))"
  proof (cases rule: io_matchE)
    case (err e s1)
    note o = silent_open [OF s assms(1) err(1)]
    then show ?thesis
      using err(2) by auto
  next
    case (ok h s1)
    note o = silent_open [OF s assms(1) ok(1)]
    show ?thesis
      using assms(2) [OF o(2,1) crash.open_opened [OF s(1) ok(1)] _ ok(2)] o(3) by simp
  qed
qed

lemma succeeds_len:
  assumes "cb_inv s" and "silent s" and "cb_opened s h p" and "cb_inodes s (cf_inode h) \<noteq> None"
    and "io_bind (io_fmt (f_len crash_backing h)) k s = (r, s')"
    and "\<And>n s r s'. cb_inv s \<Longrightarrow> silent s \<Longrightarrow> cb_opened s h p \<Longrightarrow> cb_inodes s (cf_inode h) \<noteq> None \<Longrightarrow>
      k n s = (r, s') \<Longrightarrow> silent s' \<and> cb_inv s' \<and> (\<forall>io. r \<noteq> Inl (FormatIo io))"
  shows "silent s' \<and> cb_inv s' \<and> (\<forall>io. r \<noteq> Inl (FormatIo io))"
proof -
  obtain n s1 where l: "f_len crash_backing h s = (Inr n, s1)"
    using silent_len(3) [OF assms(4)] by (metis prod.exhaust)
  then have "k n s1 = (r, s')"
    using assms(5) by (simp add: io_bind_def io_fmt_def)
  then show ?thesis
    using assms(2,6) silent_len [OF assms(4) l] crash.len_keep [OF assms(1,3) l] by blast
qed

lemma succeeds_read:
  assumes "cb_inv s" and "silent s" and "cb_opened s h p" and "cb_inodes s (cf_inode h) \<noteq> None"
    and "io_match (f_read_at crash_backing h 0 n)
      (\<lambda>e. if e = UnexpectedEof then io_return z else io_fail (FormatIo e)) (\<lambda>bytes. io_pure (k bytes)) s = (r, s')"
    and "\<And>b io. k b \<noteq> Inl (FormatIo io)"
  shows "silent s' \<and> cb_inv s' \<and> (\<forall>io. r \<noteq> Inl (FormatIo io))"
proof -
  obtain c where c: "cb_view s p = Some c"
    using assms(3,4) by (auto simp: cb_opened_def cb_view_def)
  from assms(5) show ?thesis
  proof (cases rule: io_matchE)
    case (err e s1)
    then show ?thesis
      using silent_read [OF assms(4) err(1)] crash.read_keep [OF assms(1,3) c err(1)] assms(2) by auto
  next
    case (ok b s1)
    then show ?thesis
      using silent_read [OF assms(4) ok(1)] crash.read_keep [OF assms(1,3) c ok(1)] assms(2,6) by auto
  qed
qed

lemma succeeds_read_fixed:
  assumes "validate p False = Inr ()" and "\<And>b io. accept b \<noteq> Inl (FormatIo io)"
  shows "succeeds (read_fixed crash_backing p sz foreign what accept)"
  unfolding read_fixed_def
proof (rule succeeds_opened [OF assms(1)], erule succeeds_len, assumption+)
  fix h n s r and s' :: crash_state
  assume s: "cb_inv s" "silent s" "cb_opened s h p" "cb_inodes s (cf_inode h) \<noteq> None"
    and run: "(if n \<noteq> sz then
       (if 12 \<le> n then
          io_match (f_read_at crash_backing h 0 12)
            (\<lambda>e. if e = UnexpectedEof then io_return None else io_fail (FormatIo e))
            (\<lambda>header. if foreign header then io_fail (Unsupported what) else io_return None)
        else io_return None)
     else
       io_match (f_read_at crash_backing h 0 sz)
         (\<lambda>e. if e = UnexpectedEof then io_return None else io_fail (FormatIo e))
         (\<lambda>bytes. io_pure (accept bytes))) s = (r, s')"
  have header: "(\<lambda>header. if foreign header then io_fail (Unsupported what) else io_return None) =
      (\<lambda>header. io_pure (if foreign header then Inl (Unsupported what) else Inr None))"
    by (auto simp: fun_eq_iff)
  consider "n = sz" | "n \<noteq> sz" "12 \<le> n" | "n \<noteq> sz" "\<not> 12 \<le> n"
    by blast
  then show "silent s' \<and> cb_inv s' \<and> (\<forall>io. r \<noteq> Inl (FormatIo io))"
  proof cases
    case 1
    then show ?thesis
      using run by (intro succeeds_read [OF s, of sz None accept]) (simp_all add: assms(2))
  next
    case 2
    then show ?thesis
      using run unfolding header
      by (intro succeeds_read [OF s, of 12 None "\<lambda>header. if foreign header then Inl (Unsupported what) else Inr None"]) simp_all
  qed (use run s in auto)
qed

lemma succeeds_read_bounded:
  assumes "validate p False = Inr ()"
  shows "succeeds (read_bounded crash_backing p bound)"
  unfolding read_bounded_def
proof (rule succeeds_opened [OF assms], erule succeeds_len, assumption+)
  fix h n s r and s' :: crash_state
  assume s: "cb_inv s" "silent s" "cb_opened s h p" "cb_inodes s (cf_inode h) \<noteq> None"
    and run: "(if n = 0 \<or> bound < n then io_return None
     else io_match (f_read_at crash_backing h 0 n)
       (\<lambda>e. if e = UnexpectedEof then io_return None else io_fail (FormatIo e))
       (\<lambda>buf. io_return (Some buf))) s = (r, s')"
  have body: "(\<lambda>buf. io_return (Some buf)) = (\<lambda>buf. io_pure (Inr (Some buf)))"
    by (auto simp: fun_eq_iff)
  show "silent s' \<and> cb_inv s' \<and> (\<forall>io. r \<noteq> Inl (FormatIo io))"
    using run s succeeds_read [OF s, of n None "\<lambda>buf. Inr (Some buf)"] unfolding body by (auto split: if_splits)
qed

lemma succeeds_return: "succeeds (io_return x)"
  by (simp add: succeeds_def)

lemma succeeds_ab_load:
  assumes "validate (st_a st) False = Inr ()" and "validate (st_b st) False = Inr ()"
  shows "succeeds (ab_load crash_backing R st)"
  unfolding ab_load_def read_side_def read_copy_def
  by (intro succeeds_bind succeeds_read_bounded succeeds_return assms)

lemma decode_not_io: "proof_accept u r \<noteq> Inl (FormatIo io)" "volume_accept crc b \<noteq> Inl (FormatIo io)"
  by (auto simp: proof_accept_def volume_accept_def split: sum.splits format_error.splits)

lemma succeeds_proof_load: "succeeds (proof_load crash_backing crc u)"
proof -
  have path: "validate DURABLE_PROOF_A False = Inr ()" "validate DURABLE_PROOF_B False = Inr ()"
    by (simp_all add: DURABLE_PROOF_A_def DURABLE_PROOF_B_def validate_def)
  have "proof_select a b \<noteq> Inl (FormatIo io)" for a b io
    by (auto simp: proof_select_def proof_follows_def split: option.splits)
  then show ?thesis
    unfolding proof_load_def proof_read_copy_def
    by (intro succeeds_bind succeeds_read_fixed succeeds_pure path decode_not_io)
qed

lemma succeeds_load_volume_superblock: "succeeds (load_volume_superblock crash_backing crc)"
proof -
  have path: "validate SUPERBLOCK_A False = Inr ()" "validate SUPERBLOCK_B False = Inr ()"
    by (simp_all add: SUPERBLOCK_A_def SUPERBLOCK_B_def validate_def)
  have "volume_select a b \<noteq> Inl (FormatIo io)" for a b io
    by (auto simp: volume_select_def split: option.splits)
  then show ?thesis
    unfolding load_volume_superblock_def read_volume_copy_def
    by (intro succeeds_bind succeeds_read_fixed succeeds_pure path decode_not_io)
qed

lemma succeedsD: "succeeds m \<Longrightarrow> cb_inv s \<Longrightarrow> m s = (Inl (FormatIo io), s') \<Longrightarrow> \<not> silent s"
  unfolding succeeds_def by blast

text \<open>A program finds what \<open>P\<close> describes: it returns it, or an injected I/O error stopped it.\<close>

definition found :: "(crash_state, format_error, 'a) io \<Rightarrow> crash_state \<Rightarrow> ('a \<Rightarrow> bool) \<Rightarrow> bool" where
  "found m s P \<longleftrightarrow>
     (case fst (m s) of Inr x \<Rightarrow> P x | Inl e \<Rightarrow> \<not> silent s \<and> (\<exists>io. e = FormatIo io))"

lemma foundI:
  assumes "succeeds m" and "cb_inv s" and "\<And>x s'. m s = (Inr x, s') \<Longrightarrow> P x"
    and "\<And>e s'. m s = (Inl e, s') \<Longrightarrow> \<exists>io. e = FormatIo io"
  shows "found m s P"
proof (cases "m s")
  case (Pair r s')
  then show ?thesis
    using assms(3,4) succeedsD [OF assms(1,2)] by (cases r) (auto simp: found_def)
qed

lemma answers_found:
  assumes "crash.answers (cb_view s) m P" and "succeeds m" and "cb_inv s"
  shows "found m s P"
  using crash.answersD [OF assms(1,3)] by (intro foundI [OF assms(2,3)]) blast+

lemma found_silent: "found m s P \<Longrightarrow> silent s \<Longrightarrow> \<exists>x s'. m s = (Inr x, s') \<and> P x"
  by (cases "m s"; cases "fst (m s)") (auto simp: found_def)

end
