(* ===== verification/Init.thy ===== *)
theory Init
  imports Load_Faults
begin

text \<open>
  Volume initialization, \<open>crates/maki-format/src/init.rs\<close>. The whole of
  \<open>create_volume_with_metadata_version\<close> is one program over the backing; the guard of the volume lock
  is dropped on every way out. The lemmas show that the superblock is the commit point: until one
  of its copies exists, nothing claims to be a volume, and once one exists, all the metadata that
  recovery requires is settled.
\<close>

definition locked :: "('s, 'h) backing \<Rightarrow> string \<Rightarrow> ('s, format_error, 'a) io \<Rightarrow> ('s, format_error, 'a) io" where
  "locked B path body =
     io_bind (io_fmt (b_try_lock B path)) (\<lambda>_ s. case body s of (r, s') \<Rightarrow> (r, b_unlock B path s'))"

definition superblock_present :: "('s, 'h) backing \<Rightarrow> ('s, format_error, bool) io" where
  "superblock_present B =
     io_bind (io_fmt (b_exists B SUPERBLOCK_A)) (\<lambda>a.
     if a then io_return True else io_fmt (b_exists B SUPERBLOCK_B))"

fun require_empty :: "('s, 'h) backing \<Rightarrow> string list \<Rightarrow> ('s, format_error, unit) io" where
  "require_empty B [] = io_return ()"
| "require_empty B (dir # dirs) =
     io_match (b_list B dir)
       (\<lambda>e. if e = NotFound then require_empty B dirs else io_fail (FormatIo e))
       (\<lambda>entries. case entries of
          entry # _ \<Rightarrow> io_fail (AlreadyExists (''backing root is not empty: '' @ dir @ ''/'' @ entry @
            '' belongs to an earlier volume; use an empty root''))
        | [] \<Rightarrow> require_empty B dirs)"

fun create_dirs :: "('s, 'h) backing \<Rightarrow> string list \<Rightarrow> ('s, format_error, unit) io" where
  "create_dirs B [] = io_return ()"
| "create_dirs B (dir # dirs) = io_bind (io_fmt (b_create_dir_all B dir)) (\<lambda>_. create_dirs B dirs)"

definition touch_lock :: "('s, 'h) backing \<Rightarrow> ('s, format_error, unit) io" where
  "touch_lock B = io_bind (io_fmt (b_open B VOLUME_LOCK True)) (\<lambda>lock_file. io_fmt (f_sync_data B lock_file))"

definition create_mark :: "('s, 'h) backing \<Rightarrow> ('s, format_error, unit) io" where
  "create_mark B =
     io_bind (io_fmt (b_open B JOURNAL_DURABLE_MARK True)) (\<lambda>mark.
     io_bind (io_fmt (f_set_len B mark 0)) (\<lambda>_.
     io_fmt (f_sync_data B mark)))"

definition catalog_store :: ab_store where
  "catalog_store = ab_store_new SHARD_CATALOG_A SHARD_CATALOG_B"

definition superblock_store :: ab_store where
  "superblock_store = ab_store_new SUPERBLOCK_A SUPERBLOCK_B"

definition checkpoint_default :: checkpoint_state where
  "checkpoint_default = \<lparr>ck_generation = 0, checkpoint_sequence = 0\<rparr>"

definition create_volume_with_metadata_version ::
  "('s, 'h) backing \<Rightarrow> (bytes \<Rightarrow> u32) \<Rightarrow> superblock \<Rightarrow> u32 \<Rightarrow> ('s, format_error, superblock) io" where
  "create_volume_with_metadata_version B crc superblock metadata_version =
     locked B VOLUME_LOCK (
     io_bind (superblock_present B) (\<lambda>present.
     if present then io_fail (AlreadyExists ''volume superblock already present'')
     else
     io_bind (require_empty B [DATA_DIR, JOURNAL_DIR, CHECKPOINT_DIR]) (\<lambda>_.
     io_bind (create_dirs B [DATA_DIR, JOURNAL_DIR, CHECKPOINT_DIR]) (\<lambda>_.
     io_bind (touch_lock B) (\<lambda>_.
     io_bind (proof_initialize B crc (sb_volume_uuid superblock)) (\<lambda>_.
     io_bind (ab_put B crc (catalog_ab crc) catalog_store catalog_new) (\<lambda>_.
     io_bind (ab_put B crc (checkpoint_ab crc) checkpoint_store checkpoint_default) (\<lambda>state.
     io_bind (ab_put B crc (checkpoint_ab crc) checkpoint_store state) (\<lambda>_.
     io_bind (create_mark B) (\<lambda>_.
     io_bind (io_fmt (b_sync_dir B DATA_DIR)) (\<lambda>_.
     io_bind (io_fmt (b_sync_dir B JOURNAL_DIR)) (\<lambda>_.
     io_bind (io_fmt (b_sync_dir B CHECKPOINT_DIR)) (\<lambda>_.
     io_bind (io_fmt (b_sync_dir B [])) (\<lambda>_.
     let envelope = \<lparr>vs_superblock = superblock\<lparr>sb_generation := 0\<rparr>, vs_metadata_version = metadata_version\<rparr> in
     io_bind (ab_put B crc (volume_superblock_ab crc) superblock_store envelope) (\<lambda>envelope.
     io_bind (ab_put B crc (volume_superblock_ab crc) superblock_store envelope) (\<lambda>envelope.
     io_bind (io_fmt (b_sync_dir B [])) (\<lambda>_.
     io_return (vs_superblock envelope))))))))))))))))))"

definition create_volume ::
  "('s, 'h) backing \<Rightarrow> (bytes \<Rightarrow> u32) \<Rightarrow> superblock \<Rightarrow> ('s, format_error, superblock) io" where
  "create_volume B crc superblock = create_volume_with_metadata_version B crc superblock SUPERBLOCK_VERSION_V2"

definition create_volume_with_discard ::
  "('s, 'h) backing \<Rightarrow> (bytes \<Rightarrow> u32) \<Rightarrow> superblock \<Rightarrow> ('s, format_error, superblock) io" where
  "create_volume_with_discard B crc superblock =
     create_volume_with_metadata_version B crc superblock SUPERBLOCK_VERSION_V3"

section \<open>The three stores of a volume\<close>

lemma catalog_store_simps [simp]:
  "st_a catalog_store = SHARD_CATALOG_A" "st_b catalog_store = SHARD_CATALOG_B"
  "ab_bound (catalog_ab crc) catalog_store = ab_max_encoded_len (catalog_ab crc)"
  by (simp_all add: catalog_store_def ab_store_new_def ab_bound_def)

lemma superblock_store_simps [simp]:
  "st_a superblock_store = SUPERBLOCK_A" "st_b superblock_store = SUPERBLOCK_B"
  "ab_bound (volume_superblock_ab crc) superblock_store = ab_max_encoded_len (volume_superblock_ab crc)"
  by (simp_all add: superblock_store_def ab_store_new_def ab_bound_def)

lemma volume_superblock_ab_simps [simp]:
  "ab_encode (volume_superblock_ab crc) = volume_superblock_encode crc"
  "ab_decode (volume_superblock_ab crc) = volume_superblock_decode crc"
  "ab_generation (volume_superblock_ab crc) v = sb_generation (vs_superblock v)"
  "ab_set_generation (volume_superblock_ab crc) g v = v\<lparr>vs_superblock := (vs_superblock v)\<lparr>sb_generation := g\<rparr>\<rparr>"
  by (simp_all add: volume_superblock_ab_def)

lemmas volume_paths = SUPERBLOCK_A_def SUPERBLOCK_B_def SHARD_CATALOG_A_def SHARD_CATALOG_B_def
  CHECKPOINT_STATE_A_def CHECKPOINT_STATE_B_def DURABLE_PROOF_A_def DURABLE_PROOF_B_def
  VOLUME_LOCK_def JOURNAL_DURABLE_MARK_def

lemma volume_parents:
  "parent SUPERBLOCK_A = []" "parent SUPERBLOCK_B = []" "parent SHARD_CATALOG_A = []" "parent SHARD_CATALOG_B = []"
  by (simp_all add: volume_paths parent_def)

sublocale proof_protocol \<subseteq> cat: ab_protocol B inv view settled synced opened crash crc "catalog_ab crc" catalog_wf catalog_store
proof unfold_locales
  show "length b \<le> ab_bound (catalog_ab crc) catalog_store" if "catalog_wf r" "ab_encode (catalog_ab crc) r = Inr b" for r b
    using catalog.encode_size [OF that] by simp
qed (simp_all add: volume_parents, simp add: volume_paths)

sublocale proof_protocol \<subseteq> ckp: ab_protocol B inv view settled synced opened crash crc "checkpoint_ab crc" "\<lambda>_. True" checkpoint_store
  by unfold_locales auto

sublocale proof_protocol \<subseteq> sbk: ab_protocol B inv view settled synced opened crash crc "volume_superblock_ab crc"
  volume_superblock_wf superblock_store
proof unfold_locales
  show "length b \<le> ab_bound (volume_superblock_ab crc) superblock_store"
    if "volume_superblock_wf r" "ab_encode (volume_superblock_ab crc) r = Inr b" for r b
    using volume_superblock.encode_size [OF that] by simp
qed (simp_all add: volume_parents, simp add: volume_paths)

context proof_protocol
begin

section \<open>What initialization touches\<close>

lemma modifies_read_fixed: "modifies {p} (read_fixed B p sz foreign what accept)"
  unfolding read_fixed_def
  by (intro modifies_open_then uses_bind uses_fmt uses_ops uses_if uses_match uses_basic modifies_if modifies_basic)

lemma modifies_initialize: "modifies {DURABLE_PROOF_A, DURABLE_PROOF_B} (proof_initialize B crc u)"
proof -
  have read: "modifies {DURABLE_PROOF_A, DURABLE_PROOF_B} (proof_read_copy B crc p u)"
    if "p = DURABLE_PROOF_A \<or> p = DURABLE_PROOF_B" for p
    unfolding proof_read_copy_def by (rule modifies_mono [OF modifies_read_fixed]) (use that in auto)
  have put: "modifies {DURABLE_PROOF_A, DURABLE_PROOF_B} (proof_put B crc p)" for p
    unfolding proof_put_def by (rule modifies_mono [OF put_modifies]) auto
  show ?thesis
    unfolding proof_initialize_def Let_def
    by (intro modifies_bind modifies_fmt modifies_ops modifies_if modifies_basic read put) simp_all
qed

lemma modifies_superblock_present: "modifies P (superblock_present B)"
  unfolding superblock_present_def
  by (intro modifies_bind modifies_fmt modifies_ops modifies_if modifies_basic)

lemma modifies_require_empty: "modifies P (require_empty B dirs)"
proof (induction dirs)
  case (Cons dir dirs)
  have "modifies P (case entries of entry # _ \<Rightarrow> io_fail (e entry) | [] \<Rightarrow> require_empty B dirs)" for entries e
    by (cases entries) (use Cons modifies_basic(2) in simp_all)
  then show ?case
    unfolding require_empty.simps
    by (intro modifies_match modifies_ops(3) modifies_if Cons modifies_basic(2))
qed (unfold require_empty.simps, rule modifies_basic)

lemma modifies_create_dirs: "modifies P (create_dirs B dirs)"
proof (induction dirs)
  case (Cons dir dirs)
  then show ?case
    unfolding create_dirs.simps by (intro modifies_bind modifies_fmt modifies_ops)
qed (unfold create_dirs.simps, rule modifies_basic)

lemma modifies_touch_lock: "modifies {VOLUME_LOCK} (touch_lock B)"
  unfolding touch_lock_def by (intro modifies_open uses_fmt uses_ops)

lemma modifies_create_mark: "modifies {JOURNAL_DURABLE_MARK} (create_mark B)"
  unfolding create_mark_def by (intro modifies_open uses_bind uses_fmt uses_ops)

section \<open>The stages of initialization\<close>

definition unpublished :: "'s \<Rightarrow> bool" where
  "unpublished s \<longleftrightarrow> absent s SUPERBLOCK_A \<and> absent s SUPERBLOCK_B"

definition proofs_ready :: "uuid \<Rightarrow> 's \<Rightarrow> bool" where
  "proofs_ready u s \<longleftrightarrow> (\<exists>p. same_horizon p (proof_initial u) \<and> mirrored s p)"

definition catalog_ready :: "('s \<Rightarrow> string \<Rightarrow> bytes \<Rightarrow> bool) \<Rightarrow> 's \<Rightarrow> bool" where
  "catalog_ready holds s \<longleftrightarrow> (\<exists>t c b. (t = SHARD_CATALOG_A \<or> t = SHARD_CATALOG_B) \<and> catalog_wf c \<and>
     cat_shards c = [] \<and> ab_encode (catalog_ab crc) c = Inr b \<and> holds s t b)"

definition checkpoint_ready :: "('s \<Rightarrow> string \<Rightarrow> bytes \<Rightarrow> bool) \<Rightarrow> 's \<Rightarrow> bool" where
  "checkpoint_ready holds s \<longleftrightarrow> (\<exists>r r'. checkpoint_sequence r' = 0 \<and> ckp.pair holds s r r')"

definition required :: "uuid \<Rightarrow> 's \<Rightarrow> bool" where
  "required u s \<longleftrightarrow> proofs_ready u s \<and> catalog_ready settled s \<and> checkpoint_ready settled s"

lemma keeps_unpublished: "SUPERBLOCK_A \<notin> P \<Longrightarrow> SUPERBLOCK_B \<notin> P \<Longrightarrow> keeps P unpublished"
  unfolding unpublished_def by (intro keeps_intros)

lemma keeps_proofs: "DURABLE_PROOF_A \<notin> P \<Longrightarrow> DURABLE_PROOF_B \<notin> P \<Longrightarrow> keeps P (proofs_ready u)"
  unfolding proofs_ready_def mirrored_def by (intro keeps_intros keeps_ball) blast

lemma keeps_catalog:
  assumes "SHARD_CATALOG_A \<notin> P" and "SHARD_CATALOG_B \<notin> P"
  shows "keeps P (catalog_ready settled)" and "keeps P (catalog_ready synced)"
  unfolding catalog_ready_def by (intro keeps_intros(7) keeps_fact keeps_intros(1,2); use assms in blast)+

lemma keeps_checkpoint:
  assumes "CHECKPOINT_STATE_A \<notin> P" and "CHECKPOINT_STATE_B \<notin> P"
  shows "keeps P (checkpoint_ready settled)" and "keeps P (checkpoint_ready synced)" and "keeps P (\<lambda>s. ckp.placed s r)"
proof -
  have other: "ckp.other t \<notin> P" for t
    using assms by (simp add: ckp.other_def)
  show "keeps P (checkpoint_ready settled)" "keeps P (checkpoint_ready synced)"
    unfolding checkpoint_ready_def ckp.pair_def
    by (intro keeps_intros(7) keeps_fact keeps_intros(1,2,6); use assms other in auto)+
  show "keeps P (\<lambda>s. ckp.placed s r)"
    unfolding ckp.placed_def ckp.newest_at_def ckp.side_generation_def conj_assoc
    by (intro keeps_intros(7) keeps_fact keeps_intros(2,4,6); use assms other in auto)
qed

lemmas keeps_ready = keeps_unpublished keeps_proofs keeps_catalog keeps_checkpoint

lemma keeps_required:
  assumes "P \<inter> {DURABLE_PROOF_A, DURABLE_PROOF_B, SHARD_CATALOG_A, SHARD_CATALOG_B,
    CHECKPOINT_STATE_A, CHECKPOINT_STATE_B} = {}"
  shows "keeps P (required u)"
  unfolding required_def by (intro keeps_intros(6) keeps_ready; use assms in blast)

text \<open>The directory syncs that settle what a put left synced.\<close>

lemma settle_catalog:
  "triple (\<lambda>s. inv s \<and> catalog_ready synced s) (io_fmt (b_sync_dir B [])) (\<lambda>_ s. inv s \<and> catalog_ready settled s) inv"
proof (rule triple_fmt, rule tripleI)
  fix s x s'
  assume s: "inv s \<and> catalog_ready synced s" and run: "b_sync_dir B [] s = (Inr x, s')"
  then obtain t c b where t: "t = SHARD_CATALOG_A \<or> t = SHARD_CATALOG_B" "synced s t b"
    and c: "catalog_wf c" "cat_shards c = []" "ab_encode (catalog_ab crc) c = Inr b"
    by (auto simp: catalog_ready_def)
  have "parent t = []"
    using t(1) by (auto simp: volume_parents)
  then have "settled s' t b"
    using sync_dir_settles [OF conjunct1 [OF s] t(2), of s'] run by simp
  then have "catalog_ready settled s'"
    using t(1) c unfolding catalog_ready_def by blast
  then show "inv s' \<and> catalog_ready settled s'"
    using sync_dir_keep [OF conjunct1 [OF s] run] by blast
next
  fix s e s'
  assume s: "inv s \<and> catalog_ready synced s" and run: "b_sync_dir B [] s = (Inl e, s')"
  show "inv s'"
    using sync_dir_keep [OF conjunct1 [OF s] run] by blast
qed

lemma settle_checkpoint:
  "triple (\<lambda>s. inv s \<and> checkpoint_ready synced s) (io_fmt (b_sync_dir B CHECKPOINT_DIR))
     (\<lambda>_ s. inv s \<and> checkpoint_ready settled s) inv"
proof (rule triple_fmt, rule tripleI)
  fix s x s'
  assume s: "inv s \<and> checkpoint_ready synced s" and run: "b_sync_dir B CHECKPOINT_DIR s = (Inr x, s')"
  then obtain r r' where r: "checkpoint_sequence r' = 0" "ckp.pair synced s r r'"
    by (auto simp: checkpoint_ready_def)
  have "parent (st_a checkpoint_store) = CHECKPOINT_DIR"
    by (simp add: CHECKPOINT_DIR_def)
  then have "ckp.pair settled s' r r'"
    using ckp.pair_settles [OF conjunct1 [OF s] r(2)] run by simp
  then show "inv s' \<and> checkpoint_ready settled s'"
    using r(1) sync_dir_keep [OF conjunct1 [OF s] run] unfolding checkpoint_ready_def by blast
next
  fix s e s'
  assume s: "inv s \<and> checkpoint_ready synced s" and run: "b_sync_dir B CHECKPOINT_DIR s = (Inl e, s')"
  show "inv s'"
    using sync_dir_keep [OF conjunct1 [OF s] run] by blast
qed

lemma settle_superblocks:
  "triple (\<lambda>s. inv s \<and> sbk.pair synced s r r') (io_fmt (b_sync_dir B [])) (\<lambda>_ s. inv s \<and> sbk.pair settled s r r') inv"
proof (rule triple_fmt, rule tripleI)
  fix s x s'
  assume s: "inv s \<and> sbk.pair synced s r r'" and run: "b_sync_dir B [] s = (Inr x, s')"
  then show "inv s' \<and> sbk.pair settled s' r r'"
    using sbk.pair_settles [of s r r' s'] sync_dir_keep [OF conjunct1 [OF s] run] by (simp add: volume_parents)
next
  fix s e s'
  assume s: "inv s \<and> sbk.pair synced s r r'" and run: "b_sync_dir B [] s = (Inl e, s')"
  show "inv s'"
    using sync_dir_keep [OF conjunct1 [OF s] run] by blast
qed

text \<open>Publication: from here on the required metadata is settled whatever happens.\<close>

definition published :: "volume_superblock \<Rightarrow> superblock \<Rightarrow> 's \<Rightarrow> bool" where
  "published envelope out s \<longleftrightarrow> (\<exists>r r'. sbk.pair settled s r r' \<and> vs_superblock r' = out \<and>
     r' = ab_set_generation (volume_superblock_ab crc) (sb_generation out) envelope)"

lemma publish_triple:
  assumes "volume_superblock_wf envelope"
  shows "triple (\<lambda>s. inv s \<and> required u s)
    (io_bind (ab_put B crc (volume_superblock_ab crc) superblock_store envelope) (\<lambda>envelope.
     io_bind (ab_put B crc (volume_superblock_ab crc) superblock_store envelope) (\<lambda>envelope.
     io_bind (io_fmt (b_sync_dir B [])) (\<lambda>_. io_return (vs_superblock envelope)))))
    (\<lambda>out s. inv s \<and> required u s \<and> published envelope out s) (\<lambda>s. inv s \<and> required u s)"
    (is "triple _ _ ?Q ?E")
proof -
  let ?put = "ab_put B crc (volume_superblock_ab crc) superblock_store"
  have keep: "keeps {SUPERBLOCK_A, SUPERBLOCK_B} (required u)" "keeps {} (required u)"
    by (rule keeps_required; simp add: volume_paths)+
  have mod: "modifies {SUPERBLOCK_A, SUPERBLOCK_B} (?put e)" for e
    using put_modifies [of superblock_store] by simp
  have setset: "ab_set_generation (volume_superblock_ab crc) g (ab_set_generation (volume_superblock_ab crc) h e) =
      ab_set_generation (volume_superblock_ab crc) g e"
    "ab_generation (volume_superblock_ab crc) e = sb_generation (vs_superblock e)" for g h e
    by (simp_all add: volume_superblock_ab_def)
  have finish: "triple (\<lambda>s. inv s \<and> required u s \<and> sbk.pair synced s r r')
      (io_bind (io_fmt (b_sync_dir B [])) (\<lambda>_. io_return (vs_superblock r'))) ?Q ?E"
    if r: "r = ab_set_generation (volume_superblock_ab crc) g envelope" for r r' g
  proof (rule triple_stage [OF settle_superblocks modifies_fmt [OF modifies_ops(4)] keep(2)])
    have "published envelope (vs_superblock r') s" if p: "sbk.pair settled s r r'" for s
    proof -
      have "r' = ab_set_generation (volume_superblock_ab crc) (sb_generation (vs_superblock r')) r"
        using p by (auto simp: sbk.pair_def setset(2))
      then show ?thesis
        using p unfolding published_def r setset(1) by blast
    qed
    then show "triple (\<lambda>s. inv s \<and> required u s \<and> sbk.pair settled s r r') (io_return (vs_superblock r')) ?Q ?E" for x
      by (intro triple_return) blast
  qed blast
  have again: "triple (\<lambda>s. inv s \<and> required u s \<and> sbk.placed s r)
      (io_bind (?put r) (\<lambda>e. io_bind (io_fmt (b_sync_dir B [])) (\<lambda>_. io_return (vs_superblock e)))) ?Q ?E"
    if r: "r = ab_set_generation (volume_superblock_ab crc) g envelope" for r g
    by (rule triple_stage [OF sbk.put_pair mod keep(1)], blast, rule finish [OF r])
  have "triple (\<lambda>s. inv s \<and> required u s \<and> True) (io_bind (?put envelope) (\<lambda>e. io_bind (?put e) (\<lambda>e.
      io_bind (io_fmt (b_sync_dir B [])) (\<lambda>_. io_return (vs_superblock e))))) ?Q ?E"
    by (rule triple_stage [OF triple_pre [OF sbk.put_placed [OF assms]] mod keep(1)], blast, blast,
        rule triple_fact, erule conjE, erule conjE, erule conjE, assumption, rule triple_pre [OF again], assumption, blast)
  then show ?thesis
    by (rule triple_pre) blast
qed

lemma keeps_disj: "keeps P G \<Longrightarrow> keeps P H \<Longrightarrow> keeps P (\<lambda>s. G s \<or> H s)"
  unfolding keeps_def by blast

lemma keeps_published: "keeps {} (published envelope out)"
  unfolding published_def sbk.pair_def by (intro keeps_intros) simp_all

lemma locked_triple:
  assumes "framed {path} P" and "triple P body Q E" and "\<And>x. framed {} (Q x)" and "framed {} E" and "\<And>s. P s \<Longrightarrow> E s"
  shows "triple P (locked B path body) Q E"
proof -
  have run: "triple P (\<lambda>s. case body s of (r, s') \<Rightarrow> (r, b_unlock B path s')) Q E"
  proof (rule tripleI)
    fix s e s'
    assume s: "P s" and "(case body s of (r, s') \<Rightarrow> (r, b_unlock B path s')) = (Inl e, s')"
    then obtain s1 where s1: "body s = (Inl e, s1)" "s' = b_unlock B path s1"
      by (auto split: prod.splits)
    have "E s1"
      using tripleD(1) [OF assms(2) s s1(1) refl] .
    then show "E s'"
      using assms(4) unlock_kept unfolding s1(2) framed_def by blast
  next
    fix s x s'
    assume s: "P s" and "(case body s of (r, s') \<Rightarrow> (r, b_unlock B path s')) = (Inr x, s')"
    then obtain s1 where s1: "body s = (Inr x, s1)" "s' = b_unlock B path s1"
      by (auto split: prod.splits)
    have "Q x s1"
      using tripleD(2) [OF assms(2) s s1(1) refl] .
    then show "Q x s'"
      using assms(3) [of x] unlock_kept unfolding s1(2) framed_def by blast
  qed
  show ?thesis
    unfolding locked_def
    by (rule triple_bind [OF triple_error [OF triple_fmt [OF modifies_triple [OF modifies_lock assms(1)]] assms(5)] run])
qed

text \<open>The stages from the empty root to the point where the superblock may be written.\<close>

lemma prepare_triple:
  assumes "length u = 16" and next_step: "triple (\<lambda>s. inv s \<and> required u s) k Q E"
    and E: "\<And>s. inv s \<Longrightarrow> unpublished s \<Longrightarrow> E s"
  shows "triple (\<lambda>s. inv s \<and> unpublished s)
    (io_bind (proof_initialize B crc u) (\<lambda>_.
     io_bind (ab_put B crc (catalog_ab crc) catalog_store catalog_new) (\<lambda>_.
     io_bind (ab_put B crc (checkpoint_ab crc) checkpoint_store checkpoint_default) (\<lambda>state.
     io_bind (ab_put B crc (checkpoint_ab crc) checkpoint_store state) (\<lambda>_.
     io_bind (create_mark B) (\<lambda>_.
     io_bind (io_fmt (b_sync_dir B DATA_DIR)) (\<lambda>_.
     io_bind (io_fmt (b_sync_dir B JOURNAL_DIR)) (\<lambda>_.
     io_bind (io_fmt (b_sync_dir B CHECKPOINT_DIR)) (\<lambda>_.
     io_bind (io_fmt (b_sync_dir B [])) (\<lambda>_. k)))))))))) Q E"
proof -
  let ?cat = "ab_put B crc (catalog_ab crc) catalog_store catalog_new"
  let ?ck = "ab_put B crc (checkpoint_ab crc) checkpoint_store"
  have mod: "modifies {SHARD_CATALOG_A, SHARD_CATALOG_B} ?cat" "modifies {CHECKPOINT_STATE_A, CHECKPOINT_STATE_B} (?ck c)" for c
    using put_modifies [of catalog_store] put_modifies [of checkpoint_store] by simp_all
  define G2 where "G2 = (\<lambda>s. unpublished s \<and> proofs_ready u s)"
  define G3 where "G3 = (\<lambda>s. G2 s \<and> catalog_ready synced s)"
  define G5 where "G5 = (\<lambda>s. G3 s \<and> checkpoint_ready synced s)"
  have G: "keeps {SHARD_CATALOG_A, SHARD_CATALOG_B} G2" "keeps {DURABLE_PROOF_A, DURABLE_PROOF_B} unpublished"
    "keeps {CHECKPOINT_STATE_A, CHECKPOINT_STATE_B} G3" "keeps {JOURNAL_DURABLE_MARK} G5" "keeps {} G5" "keeps {} G3"
    "keeps {} (\<lambda>s. G2 s \<and> checkpoint_ready settled s)"
    unfolding G5_def G3_def G2_def by (intro keeps_intros(6) keeps_ready; simp add: volume_paths)+
  have EG: "inv s \<Longrightarrow> G2 s \<Longrightarrow> E s" "inv s \<Longrightarrow> G3 s \<Longrightarrow> E s" "inv s \<Longrightarrow> G5 s \<Longrightarrow> E s" for s
    using E by (simp_all add: G5_def G3_def G2_def)
  have sync_root: "triple (\<lambda>s. inv s \<and> (G2 s \<and> checkpoint_ready settled s) \<and> catalog_ready synced s)
      (io_bind (io_fmt (b_sync_dir B [])) (\<lambda>_. k)) Q E"
    by (rule triple_stage [OF settle_catalog modifies_fmt [OF modifies_ops(4)] G(7)], use EG in blast,
        rule triple_pre [OF next_step]) (simp add: required_def G2_def)
  have sync_ck: "triple (\<lambda>s. inv s \<and> G3 s \<and> checkpoint_ready synced s)
      (io_bind (io_fmt (b_sync_dir B CHECKPOINT_DIR)) (\<lambda>_. io_bind (io_fmt (b_sync_dir B [])) (\<lambda>_. k))) Q E"
    by (rule triple_stage [OF settle_checkpoint modifies_fmt [OF modifies_ops(4)] G(6) EG(2)], assumption, assumption,
        rule triple_pre [OF sync_root]) (simp add: G3_def)
  have syncs: "triple (\<lambda>s. inv s \<and> G5 s)
      (io_bind (create_mark B) (\<lambda>_.
       io_bind (io_fmt (b_sync_dir B DATA_DIR)) (\<lambda>_.
       io_bind (io_fmt (b_sync_dir B JOURNAL_DIR)) (\<lambda>_.
       io_bind (io_fmt (b_sync_dir B CHECKPOINT_DIR)) (\<lambda>_. io_bind (io_fmt (b_sync_dir B [])) (\<lambda>_. k)))))) Q E"
    by (rule triple_leave [OF modifies_create_mark G(4) EG(3)], assumption, assumption,
        rule triple_leave [OF modifies_fmt [OF modifies_ops(4)] G(5) EG(3)], assumption, assumption,
        rule triple_leave [OF modifies_fmt [OF modifies_ops(4)] G(5) EG(3)], assumption, assumption,
        rule triple_pre [OF sync_ck]) (simp add: G5_def)
  let ?rest = "io_bind (create_mark B) (\<lambda>_.
       io_bind (io_fmt (b_sync_dir B DATA_DIR)) (\<lambda>_.
       io_bind (io_fmt (b_sync_dir B JOURNAL_DIR)) (\<lambda>_.
       io_bind (io_fmt (b_sync_dir B CHECKPOINT_DIR)) (\<lambda>_. io_bind (io_fmt (b_sync_dir B [])) (\<lambda>_. k)))))"
  have ck2: "triple (\<lambda>s. inv s \<and> G3 s \<and> ckp.placed s c) (io_bind (?ck c) (\<lambda>_. ?rest)) Q E"
    if "checkpoint_sequence c = 0" for c
  proof (rule triple_stage [OF ckp.put_pair mod(2) G(3) EG(2)])
    show "triple (\<lambda>s. inv s \<and> G3 s \<and> ckp.pair synced s c r') ?rest Q E" for r'
    proof (rule triple_pre [OF syncs])
      fix s
      assume s: "inv s \<and> G3 s \<and> ckp.pair synced s c r'"
      then have "r' = ab_set_generation (checkpoint_ab crc) (ab_generation (checkpoint_ab crc) r') c"
        unfolding ckp.pair_def by blast
      then have "checkpoint_sequence r' = 0"
        by (rule ssubst) (simp add: checkpoint_ab_def that)
      then show "inv s \<and> G5 s"
        using s unfolding G5_def checkpoint_ready_def by blast
    qed
  qed
  have ck1: "triple (\<lambda>s. inv s \<and> G3 s \<and> True)
      (io_bind (?ck checkpoint_default) (\<lambda>state. io_bind (?ck state) (\<lambda>_. ?rest))) Q E"
  proof (rule triple_stage [OF triple_pre [OF ckp.put_placed] mod(2) G(3) EG(2)])
    show "triple (\<lambda>s. inv s \<and> G3 s \<and> ckp.placed s c \<and>
        c = ab_set_generation (checkpoint_ab crc) (ab_generation (checkpoint_ab crc) c) checkpoint_default)
      (io_bind (?ck c) (\<lambda>_. ?rest)) Q E" for c
    proof (rule triple_fact)
      assume "checkpoint_sequence c = 0"
      then show ?thesis
        by (rule triple_pre [OF ck2]) simp
    qed (erule conjE, erule conjE, erule conjE, erule ssubst, simp add: checkpoint_default_def checkpoint_ab_def)
  qed simp_all
  have cat: "triple (\<lambda>s. inv s \<and> G2 s \<and> True) (io_bind ?cat (\<lambda>_.
      io_bind (?ck checkpoint_default) (\<lambda>state. io_bind (?ck state) (\<lambda>_. ?rest)))) Q E"
  proof (rule triple_stage [OF triple_pre [OF cat.put_placed] mod(1) G(1) EG(1)])
    show "catalog_wf catalog_new"
      by (simp add: catalog_wf_def catalog_new_def)
    show "triple (\<lambda>s. inv s \<and> G2 s \<and> cat.placed s c \<and>
        c = ab_set_generation (catalog_ab crc) (ab_generation (catalog_ab crc) c) catalog_new)
      (io_bind (?ck checkpoint_default) (\<lambda>state. io_bind (?ck state) (\<lambda>_. ?rest))) Q E" for c
    proof (rule triple_pre [OF ck1])
      fix s
      assume s: "inv s \<and> G2 s \<and> cat.placed s c \<and>
        c = ab_set_generation (catalog_ab crc) (ab_generation (catalog_ab crc) c) catalog_new"
      then have "c = ab_set_generation (catalog_ab crc) (ab_generation (catalog_ab crc) c) catalog_new"
        by simp
      then have "cat_shards c = []"
        by (rule ssubst) (simp add: catalog_new_def catalog_ab_def)
      then have "catalog_ready synced s"
        using s by (auto simp: cat.placed_def cat.newest_at_def catalog_ready_def)
      then show "inv s \<and> G3 s \<and> True"
        using s by (simp add: G3_def)
    qed
  qed simp_all
  have init: "triple (\<lambda>s. inv s \<and> True) (proof_initialize B crc u) (\<lambda>_ s. inv s \<and> proofs_ready u s) inv"
    by (rule triple_weaken [OF initialize_triple [OF assms(1), of None]])
      (auto simp: covered_def proofs_ready_def)
  have "triple (\<lambda>s. inv s \<and> unpublished s \<and> True) (io_bind (proof_initialize B crc u) (\<lambda>_. io_bind ?cat (\<lambda>_.
      io_bind (?ck checkpoint_default) (\<lambda>state. io_bind (?ck state) (\<lambda>_. ?rest))))) Q E"
    by (rule triple_stage [OF init modifies_initialize G(2) E], assumption, assumption, rule triple_pre [OF cat])
      (simp add: G2_def)
  then show ?thesis
    by (rule triple_pre) simp
qed

lemma create_triple:
  assumes "superblock_wf sb" and "supported_envelope mv"
  defines "u \<equiv> sb_volume_uuid sb" and "envelope \<equiv> \<lparr>vs_superblock = sb\<lparr>sb_generation := 0\<rparr>, vs_metadata_version = mv\<rparr>"
  shows "triple (\<lambda>s. inv s \<and> unpublished s) (create_volume_with_metadata_version B crc sb mv)
    (\<lambda>out s. inv s \<and> required u s \<and> published envelope out s) (\<lambda>s. inv s \<and> (unpublished s \<or> required u s))"
proof -
  have wf: "volume_superblock_wf envelope" and len: "length u = 16"
    using assms(1,2) by (simp_all add: envelope_def u_def volume_superblock_wf_def superblock_wf_def)
  note unp = keeps_unpublished [of "{}"] keeps_unpublished [of "{VOLUME_LOCK}"]
  have K: "keeps {} unpublished" "keeps {VOLUME_LOCK} unpublished" "keeps {} (required u)"
    using unp keeps_required [of "{}" u] by (simp_all add: volume_paths)
  note leave = triple_leave [where G = unpublished and E = "\<lambda>s. inv s \<and> (unpublished s \<or> required u s)"]
  show ?thesis
    unfolding create_volume_with_metadata_version_def Let_def u_def [symmetric] envelope_def [symmetric]
    by (rule locked_triple [OF framed_keeps [OF K(2)] _ framed_keeps framed_keeps],
        rule leave [OF modifies_superblock_present K(1)], simp,
        rule triple_if, rule triple_fail, simp,
        rule leave [OF modifies_require_empty K(1)], simp,
        rule leave [OF modifies_create_dirs K(1)], simp,
        rule leave [OF modifies_touch_lock K(2)], simp,
        rule prepare_triple [OF len triple_error [OF publish_triple [OF wf]]])
      (auto intro: keeps_intros(6) keeps_disj K keeps_published)
qed

text \<open>Crashes keep every stage.\<close>

lemma settled_crashes:
  assumes "crash\<^sup>*\<^sup>* s s'" and "inv s"
  shows "inv s' \<and> settled s \<le> settled s' \<and> (\<forall>p. absent s p \<longrightarrow> absent s' p)"
  using assms
proof (induction rule: rtranclp_induct)
  case (step y z)
  then show ?case
    using crash_inv [of y z] crash_settled [of y z] crash_absent [of y z] order_trans by blast
qed simp

lemma required_mono: "required u s \<Longrightarrow> settled s \<le> settled s' \<Longrightarrow> required u s'"
  unfolding required_def proofs_ready_def mirrored_def catalog_ready_def checkpoint_ready_def ckp.pair_def
  by blast

lemma published_mono: "published e out s \<Longrightarrow> settled s \<le> settled s' \<Longrightarrow> published e out s'"
  unfolding published_def sbk.pair_def by blast

text \<open>What the loads of recovery find where the required metadata is settled.\<close>

lemma required_loads:
  assumes "inv s" and "required u s"
  shows "answers (view s) (proof_load B crc u) (\<lambda>p. same_horizon p (proof_initial u))"
    and "ab_load B (catalog_ab crc) catalog_store s = (Inr c, s2) \<Longrightarrow> c \<noteq> None"
    and "ab_load B (checkpoint_ab crc) checkpoint_store s = (Inr k, s3) \<Longrightarrow>
      \<exists>k'. k = Some k' \<and> checkpoint_sequence k' = 0"
proof -
  obtain q where q: "same_horizon q (proof_initial u)" "mirrored s q"
    using assms(2) by (auto simp: required_def proofs_ready_def)
  have copy: "\<exists>x. view s path = Some (proof_encode crc x) \<and> proof_wf x \<and> same_horizon x (proof_initial u)"
    if "path = DURABLE_PROOF_A \<or> path = DURABLE_PROOF_B" for path
    using q that settled_view [OF assms(1)] by (fastforce simp: mirrored_def same_horizon_def)
  then obtain a b where "view s DURABLE_PROOF_A = Some (proof_encode crc a)" "view s DURABLE_PROOF_B = Some (proof_encode crc b)"
    "proof_wf a" "proof_wf b" "same_horizon a (proof_initial u)" "same_horizon b (proof_initial u)"
    by metis
  from answers_proof_load [where v = "view s", OF this]
  show "answers (view s) (proof_load B crc u) (\<lambda>p. same_horizon p (proof_initial u))"
    by (simp add: proof_initial_def)
  show "c \<noteq> None" if "ab_load B (catalog_ab crc) catalog_store s = (Inr c, s2)"
  proof -
    obtain t c' b where t: "t = SHARD_CATALOG_A \<or> t = SHARD_CATALOG_B" "settled s t b"
      "catalog_wf c'" "ab_encode (catalog_ab crc) c' = Inr b"
      using assms(2) by (auto simp: required_def catalog_ready_def)
    have "copy_of (catalog_ab crc) catalog_store (view s t) = Some (c', b)"
      using cat.copy_of_encoded [OF t(3,4)] settled_view [OF assms(1) t(2)] by simp
    moreover have "c = newest_of (catalog_ab crc)
        (map_option fst (copy_of (catalog_ab crc) catalog_store (view s SHARD_CATALOG_A)))
        (map_option fst (copy_of (catalog_ab crc) catalog_store (view s SHARD_CATALOG_B)))"
      using quietD [OF quiet_load assms(1) that] by simp
    ultimately show ?thesis
      using t(1) by (auto simp: newest_of_def split: option.splits)
  qed
  show "\<exists>k'. k = Some k' \<and> checkpoint_sequence k' = 0"
    if "ab_load B (checkpoint_ab crc) checkpoint_store s = (Inr k, s3)"
    using ckp.pair_load [OF assms(1) _ that] assms(2) by (auto simp: required_def checkpoint_ready_def)
qed

lemma published_load:
  assumes "inv s" and "published e out s"
  shows "answers (view s) (load_volume_superblock B crc) (\<lambda>v. v = e\<lparr>vs_superblock := out\<rparr>)"
proof -
  obtain r r' where pair: "sbk.pair settled s r r'" and out: "vs_superblock r' = out"
    "r' = ab_set_generation (volume_superblock_ab crc) (sb_generation out) e"
    using assms(2) unfolding published_def by blast
  obtain t b b' where t: "t = SUPERBLOCK_A \<or> t = SUPERBLOCK_B" "settled s t b" "settled s (sbk.other t) b'"
    and r: "volume_superblock_wf r" "volume_superblock_wf r'" "volume_superblock_encode crc r = Inr b"
      "volume_superblock_encode crc r' = Inr b'"
      "sb_generation (vs_superblock r) < sb_generation (vs_superblock r')"
    using pair unfolding sbk.pair_def volume_superblock_ab_simps superblock_store_simps by blast
  have dec: "length c = SUPERBLOCK_SIZE \<and> volume_superblock_decode crc c = Inr x"
    if wf: "volume_superblock_wf x" and enc: "volume_superblock_encode crc x = Inr c" for x c
  proof -
    obtain d where "volume_superblock_encode crc x = Inr d" "length d = 4096" "volume_superblock_decode crc d = Inr x"
      using wf by (rule volume_superblock_image)
    then show ?thesis
      using enc by (simp add: SUPERBLOCK_SIZE_def)
  qed
  note img = dec [OF r(1,3)] dec [OF r(2,4)]
  have view: "view s t = Some b" "view s (sbk.other t) = Some b'"
    using settled_view [OF assms(1)] t(2,3) by blast+
  have version: "vs_metadata_version r = vs_metadata_version r'"
    using pair unfolding sbk.pair_def volume_superblock_ab_simps by (metis volume_superblock.select_convs(2) volume_superblock.update_convs(1) volume_superblock.surjective)
  have sel: "volume_select (Some (r, b)) (Some (r', b')) = Inr r'" "volume_select (Some (r', b')) (Some (r, b)) = Inr r'"
    using version r(5) by (auto simp: volume_select_def)
  have "r' = e\<lparr>vs_superblock := out\<rparr>"
    using out unfolding volume_superblock_ab_simps by (metis volume_superblock.surjective volume_superblock.update_convs(1))
  moreover have "answers (view s) (load_volume_superblock B crc) (\<lambda>v. v = r')"
  proof (cases "t = SUPERBLOCK_A")
    case True
    then show ?thesis
      using answers_load_volume_superblock [where v = "view s" and ba = b and bb = b'] view img sel(1)
      by (simp add: sbk.other_def)
  next
    case False
    then show ?thesis
      using answers_load_volume_superblock [where v = "view s" and ba = b' and bb = b] view img sel(2) t(1)
      by (auto simp: sbk.other_def)
  qed
  ultimately show ?thesis
    by simp
qed

end

section \<open>A concrete creation\<close>

definition sample_image :: "u64 \<Rightarrow> bytes" where
  "sample_image g = projr (volume_superblock_encode (\<lambda>_. 0) (sample_volume\<lparr>vs_superblock := sample_superblock\<lparr>sb_generation := g\<rparr>\<rparr>))"

lemma sample_image:
  "volume_superblock_encode (\<lambda>_. 0) (sample_volume\<lparr>vs_superblock := sample_superblock\<lparr>sb_generation := g\<rparr>\<rparr>) = Inr (sample_image g)"
  "length (sample_image g) = 4096" "sample_image g \<noteq> []"
  "volume_superblock_decode (\<lambda>_. 0) (sample_image g) = Inr (sample_volume\<lparr>vs_superblock := sample_superblock\<lparr>sb_generation := g\<rparr>\<rparr>)"
  "raw_generation_decode (\<lambda>_. 0) (sample_image g) = Inr g"
  "overwrite 0 (sample_image g) (resize 4096 d) = sample_image g"
proof -
  let ?v = "sample_volume\<lparr>vs_superblock := sample_superblock\<lparr>sb_generation := g\<rparr>\<rparr>"
  have wf: "volume_superblock_wf ?v"
    using sample_volume_wf
    by (simp add: volume_superblock_wf_def superblock_wf_def sample_volume_def sample_superblock_def)
  obtain b where b: "volume_superblock_encode (\<lambda>_. 0) ?v = Inr b" "length b = 4096" "volume_superblock_decode (\<lambda>_. 0) b = Inr ?v"
    using wf by (rule volume_superblock_image)
  then show enc: "volume_superblock_encode (\<lambda>_. 0) ?v = Inr (sample_image g)" and len: "length (sample_image g) = 4096"
    and dec: "volume_superblock_decode (\<lambda>_. 0) (sample_image g) = Inr ?v"
    by (simp_all add: sample_image_def)
  show "sample_image g \<noteq> []"
    using len by auto
  show "raw_generation_decode (\<lambda>_. 0) (sample_image g) = Inr g"
    using volume_superblock.decode_raw [of "\<lambda>_. 0" "sample_image g" ?v] dec len
    by (simp add: volume_superblock_ab_def SUPERBLOCK_SIZE_def)
  show "overwrite 0 (sample_image g) (resize 4096 d) = sample_image g"
    using overwrite_resize_all [of "sample_image g" d] unfolding len .
qed

lemma catalog_image:
  fixes g :: u64
  defines "c \<equiv> \<lparr>cat_generation = g, cat_shards = []\<rparr>"
  shows "length (catalog_encode crc c) = 28" and "catalog_encode crc c \<noteq> []"
    and "raw_generation_decode crc (catalog_encode crc c) = Inr g"
    and "overwrite 0 (catalog_encode crc c) (resize 28 d) = catalog_encode crc c"
    and "catalog_decode crc (catalog_encode crc c) = Inr c"
proof -
  have wf: "catalog_wf c"
    by (simp add: c_def catalog_wf_def)
  show dec: "catalog_decode crc (catalog_encode crc c) = Inr c"
    by (rule catalog_decode_encode [OF wf])
  show "raw_generation_decode crc (catalog_encode crc c) = Inr g"
    using catalog_decode_raw [OF dec] by (simp add: c_def)
  show len: "length (catalog_encode crc c) = 28"
    by (simp add: length_catalog_encode c_def)
  then show "catalog_encode crc c \<noteq> []"
    by auto
  show "overwrite 0 (catalog_encode crc c) (resize 28 d) = catalog_encode crc c"
    using overwrite_resize_all [of "catalog_encode crc c" d] unfolding len .
qed

lemma sample_simps:
  "sb_volume_uuid sample_superblock = replicate 16 0"
  "\<lparr>vs_superblock = sample_superblock\<lparr>sb_generation := g\<rparr>, vs_metadata_version = SUPERBLOCK_VERSION_V3\<rparr> =
     sample_volume\<lparr>vs_superblock := sample_superblock\<lparr>sb_generation := g\<rparr>\<rparr>"
  "ab_max_encoded_len (volume_superblock_ab crc) = 4096"
  "ab_max_encoded_len (checkpoint_ab crc) = 32"
  "ab_max_encoded_len (catalog_ab crc) = MAX_RECORD_SIZE"
  "ab_encode (catalog_ab crc) c = Inr (catalog_encode crc c)"
  "ab_decode (catalog_ab crc) = catalog_decode crc" "ab_generation (catalog_ab crc) = cat_generation"
  "ab_set_generation (catalog_ab crc) k c = c\<lparr>cat_generation := k\<rparr>"
  "list_entries d {||} = []"
  by (simp_all add: sample_superblock_def sample_volume_def volume_superblock_ab_def SUPERBLOCK_SIZE_def
      checkpoint_ab_def catalog_ab_def list_entries_def sorted_list_of_fset.rep_eq map_filter_simps)

lemma create_empty:
  "\<exists>out s. create_volume_with_discard crash_backing (\<lambda>_. 0) sample_superblock crash_new = (Inr out, s) \<and> silent s"
  by (simp add: silent_def crash_eval parent_def ab_bound_def ab_store_new_def nil_proof_simps nil_proof_fields proof_initialize_def
      proof_read_copy_def read_fixed_def JOURNAL_DIR_def proof_put_def ab_put_def DURABLE_PROOF_SIZE_def proof_load_def
      proof_accept_def proof_select_def proof_follows_def proof_store_def create_volume_with_discard_def
      create_volume_with_metadata_version_def locked_def superblock_present_def touch_lock_def create_mark_def
      cb_try_lock_def cb_unlock_def cb_list_def volume_paths DATA_DIR_def CHECKPOINT_DIR_def catalog_new_def
      catalog_image checkpoint_default_def checkpoint_image checkpoint_store_def catalog_store_def
      superblock_store_def sample_image sample_simps SUPERBLOCK_SIZE_def catalog_decode_encode
      checkpoint_decode_encode load_volume_superblock_def read_volume_copy_def volume_accept_def volume_select_def)

section \<open>Properties\<close>



text \<open>C2: A created volume is durable. When creation returns success, then after any number of crashes
  a superblock load returns exactly the envelope that was created: the superblock creation reported,
  which is the requested one with a new generation, and the requested metadata version. The load can
  fail only with an I/O error, and only where the backing injects faults.\<close>

theorem create_volume_durable:
  assumes "cb_inv s" and "cb_absent s SUPERBLOCK_A" and "cb_absent s SUPERBLOCK_B"
    and "superblock_wf sb" and "supported_envelope mv"
    and "create_volume_with_metadata_version crash_backing crc sb mv s = (Inr out, s1)" and "cb_crash\<^sup>*\<^sup>* s1 s2"
  shows "out = sb\<lparr>sb_generation := sb_generation out\<rparr> \<and>
    found (load_volume_superblock crash_backing crc) s2 (\<lambda>v. v = \<lparr>vs_superblock = out, vs_metadata_version = mv\<rparr>)"
proof -
  let ?e = "\<lparr>vs_superblock = sb\<lparr>sb_generation := 0\<rparr>, vs_metadata_version = mv\<rparr>"
  have s1: "cb_inv s1" "crash_proof.published crc ?e out s1"
    using tripleD(2) [OF crash_proof.create_triple [OF assms(4,5)] _ assms(6) refl] assms(1-3)
    by (simp_all add: crash_proof.unpublished_def)
  have s2: "cb_inv s2" "cb_settled s1 \<le> cb_settled s2"
    using crash_proof.settled_crashes [OF assms(7) s1(1)] by simp_all
  have pub: "crash_proof.published crc ?e out s2"
    by (rule crash_proof.published_mono [OF s1(2) s2(2)])
  have load: "found (load_volume_superblock crash_backing crc) s2 (\<lambda>v. v = ?e\<lparr>vs_superblock := out\<rparr>)"
    by (rule answers_found [OF crash_proof.published_load [OF s2(1) pub] succeeds_load_volume_superblock s2(1)])
  obtain r' where r': "vs_superblock r' = out"
    "r' = ab_set_generation (volume_superblock_ab crc) (sb_generation out) ?e"
    using pub unfolding crash_proof.published_def by blast
  have "vs_superblock r' = sb\<lparr>sb_generation := sb_generation out\<rparr>"
    unfolding r'(2) by simp
  then have "out = sb\<lparr>sb_generation := sb_generation out\<rparr>"
    unfolding r'(1) .
  then show ?thesis
    using load by simp
qed

theorem create_volume_durable_witness:
  "\<exists>out s s'. create_volume_with_metadata_version crash_backing (\<lambda>_. 0) sample_superblock SUPERBLOCK_VERSION_V3 crash_new = (Inr out, s) \<and>
     silent s \<and> load_volume_superblock crash_backing (\<lambda>_. 0) s =
       (Inr \<lparr>vs_superblock = out, vs_metadata_version = SUPERBLOCK_VERSION_V3\<rparr>, s')"
proof -
  obtain out s where run: "create_volume_with_metadata_version crash_backing (\<lambda>_. 0) sample_superblock SUPERBLOCK_VERSION_V3
      crash_new = (Inr out, s)" and quiet: "silent s"
    using create_empty by (auto simp: create_volume_with_discard_def)
  have pre: "cb_absent crash_new p" "superblock_wf sample_superblock" "supported_envelope SUPERBLOCK_VERSION_V3" for p
    using sample_volume_wf
    by (simp_all add: cb_absent_def crash_new_def volume_superblock_wf_def sample_volume_def)
  note durable = create_volume_durable [OF crash_new_inv pre(1,1,2,3) run rtranclp.rtrancl_refl]
  show ?thesis
    using run quiet found_silent [OF conjunct2 [OF durable] quiet] by blast
qed

end
