(* ===== verification/Ordered_Map.thy ===== *)
theory Ordered_Map
  imports Prelude "HOL-Library.Finite_Map"
begin

text \<open>
  Ordered maps with 64-bit keys, the \<open>BTreeMap\<close> of the in-memory components: a finite map, its keys in
  order, its first key, and sums over its values.
\<close>

definition keys :: "(u64, 'a) fmap \<Rightarrow> u64 list" where
  "keys m = sorted_list_of_fset (fmdom m)"

definition first_key :: "(u64, 'a) fmap \<Rightarrow> u64 option" where
  "first_key m = (case keys m of [] \<Rightarrow> None | k # _ \<Rightarrow> Some k)"

lemma set_keys [simp]: "set (keys m) = fset (fmdom m)"
  by (simp add: keys_def sorted_list_of_fset.rep_eq)

lemma distinct_keys [simp]: "distinct (keys m)" and sorted_keys [simp]: "sorted (keys m)"
  by (simp_all add: keys_def sorted_list_of_fset.rep_eq)

lemma first_key_SomeD:
  assumes "first_key m = Some k"
  shows "k |\<in>| fmdom m" and "j |\<in>| fmdom m \<Longrightarrow> k \<le> j"
proof -
  obtain ks where ks: "keys m = k # ks"
    using assms by (auto simp: first_key_def split: list.splits)
  have "set (k # ks) = fset (fmdom m)" and "sorted (k # ks)"
    unfolding ks [symmetric] by simp_all
  then show "k |\<in>| fmdom m" and "j |\<in>| fmdom m \<Longrightarrow> k \<le> j"
    by auto
qed

lemma first_key_NoneD: "first_key m = None \<Longrightarrow> m = fmempty"
proof -
  assume "first_key m = None"
  then have "keys m = []"
    by (simp add: first_key_def split: list.splits)
  then have "fset (fmdom m) = {}"
    using set_keys [of m] by simp
  then have "fmdom m = {||}"
    by auto
  then show "m = fmempty"
    by (metis fmdom_empty fmrestrict_fset_dom fmrestrict_fset_null)
qed

definition fmsum :: "('v \<Rightarrow> nat) \<Rightarrow> (u64, 'v) fmap \<Rightarrow> nat" where
  "fmsum f m = (\<Sum>u \<in> fset (fmdom m). f (the (fmlookup m u)))"

lemma fmsum_drop: "fmlookup m k = Some w \<Longrightarrow> fmsum f m = f w + fmsum f (fmdrop k m)"
  unfolding fmsum_def
  by (subst sum.remove [of _ k]) (auto intro!: sum.cong intro: fmdomI)

lemma fmdrop_None: "fmlookup m k = None \<Longrightarrow> fmdrop k m = m"
  by (rule fmap_ext) auto

lemma fmsum_upd: "fmsum f (fmupd k v m) = f v + fmsum f (fmdrop k m)"
  using fmsum_drop [of "fmupd k v m" k v f] fmdrop_fmupd_same [of k v m] by simp

lemma sum_list_keys: "sum_list (map (\<lambda>u. f (the (fmlookup m u))) (keys m)) = fmsum f m"
  by (simp add: fmsum_def sum_list_distinct_conv_sum_set)

lemma lookup_drops [simp]: "fmlookup (fold fmdrop ks m) u = (if u \<in> set ks then None else fmlookup m u)"
  by (induction ks arbitrary: m) auto


lemma set_map_filter_iff: "y \<in> set (List.map_filter f xs) \<longleftrightarrow> (\<exists>x \<in> set xs. f x = Some y)"
  by (induction xs) (auto simp: map_filter_simps split: option.split)

end
