(* ===== verification/Overlay.thy ===== *)
theory Overlay
  imports Ordered_Map
begin

text \<open>
  The ciphertext overlay of \<open>crates/maki-core/src/overlay.rs\<close>: journal records not yet checkpointed.
  Ordered maps are finite maps, iterated in the order of their keys; shared versions are values, as
  publication replaces a version and never changes one. The byte counters count ciphertext that is
  held in memory and are natural numbers, whose subtraction is the saturating one of the code.

  The refinement at the end relates an overlay to the log of everything published: under the
  ordering rule stated at the head of \<open>volume.rs\<close>, what the overlay serves and what it offers to a
  checkpoint are functions of the log, the durable boundary and the checkpoint.
\<close>

record overlay_version =
  ovv_sequence :: u64
  ovv_ciphertext :: bytes

record unit_overlay =
  uo_latest :: overlay_version
  uo_durable :: "overlay_version option"

record overlay =
  ov_units :: "(u64, unit_overlay) fmap"
  ov_pending_promotion :: "(u64, u64) fmap"
  ov_bytes :: nat
  ov_latest_bytes :: nat
  ov_durable_boundary :: u64

definition unit_overlay_default :: unit_overlay where
  "unit_overlay_default = \<lparr>uo_latest = \<lparr>ovv_sequence = 0, ovv_ciphertext = []\<rparr>, uo_durable = None\<rparr>"

definition overlay_new :: overlay where
  "overlay_new = \<lparr>ov_units = fmempty, ov_pending_promotion = fmempty, ov_bytes = 0, ov_latest_bytes = 0,
     ov_durable_boundary = 0\<rparr>"

definition overlay_len :: "overlay \<Rightarrow> nat" where
  "overlay_len ov = length (keys (ov_units ov))"

definition overlay_is_empty :: "overlay \<Rightarrow> bool" where
  "overlay_is_empty ov \<longleftrightarrow> keys (ov_units ov) = []"

definition first_unit :: "overlay \<Rightarrow> u64 option" where
  "first_unit ov = first_key (ov_units ov)"

definition first_nonempty_unit :: "overlay \<Rightarrow> u64 option" where
  "first_nonempty_unit ov = List.find (\<lambda>u. case fmlookup (ov_units ov) u of
     Some e \<Rightarrow> ovv_ciphertext (uo_latest e) \<noteq> [] | None \<Rightarrow> False) (keys (ov_units ov))"

definition sequence_bounds :: "overlay \<Rightarrow> (u64 \<times> u64) option" where
  "sequence_bounds ov =
     fold (\<lambda>s acc. case acc of None \<Rightarrow> Some (s, s) | Some (lo, hi) \<Rightarrow> Some (min lo s, max hi s))
       (map (\<lambda>u. ovv_sequence (uo_latest (the (fmlookup (ov_units ov) u)))) (keys (ov_units ov))) None"

definition publish :: "u64 \<Rightarrow> u64 \<Rightarrow> bytes \<Rightarrow> overlay \<Rightarrow> overlay" where
  "publish u sequence ciphertext ov =
     (let bytes = ov_bytes ov + length ciphertext;
          latest_bytes = ov_latest_bytes ov + length ciphertext;
          entry = (case fmlookup (ov_units ov) u of Some e \<Rightarrow> e | None \<Rightarrow> unit_overlay_default);
          replaced = (if ovv_sequence (uo_latest entry) \<noteq> 0 then length (ovv_ciphertext (uo_latest entry)) else 0)
      in ov\<lparr>ov_bytes := bytes - replaced, ov_latest_bytes := latest_bytes - replaced,
        ov_units := fmupd u (entry\<lparr>uo_latest := \<lparr>ovv_sequence = sequence, ovv_ciphertext = ciphertext\<rparr>\<rparr>) (ov_units ov),
        ov_pending_promotion := fmupd sequence u (ov_pending_promotion ov)\<rparr>)"

definition overlay_get :: "u64 \<Rightarrow> overlay \<Rightarrow> overlay_version option" where
  "overlay_get u ov = map_option uo_latest (fmlookup (ov_units ov) u)"

text \<open>The body of the loop of \<open>promote\<close>, for the pending sequence \<open>seq\<close> of unit \<open>u\<close>.\<close>

definition promote_unit :: "u64 \<Rightarrow> u64 \<Rightarrow> overlay \<Rightarrow> overlay" where
  "promote_unit seq u ov =
     (case fmlookup (ov_units ov) u of
        None \<Rightarrow> ov
      | Some entry \<Rightarrow>
          if ovv_sequence (uo_latest entry) = seq \<and>
            (case uo_durable entry of Some d \<Rightarrow> ovv_sequence d < seq | None \<Rightarrow> True)
          then let bytes = (case uo_durable entry of
                     Some old \<Rightarrow> ov_bytes ov - length (ovv_ciphertext old) | None \<Rightarrow> ov_bytes ov)
               in ov\<lparr>ov_bytes := bytes + length (ovv_ciphertext (uo_latest entry)),
                 ov_units := fmupd u (entry\<lparr>uo_durable := Some (uo_latest entry)\<rparr>) (ov_units ov)\<rparr>
          else ov)"

lemma promote_unit_pending [simp]: "ov_pending_promotion (promote_unit seq u ov) = ov_pending_promotion ov"
  by (simp add: promote_unit_def Let_def split: option.split)

function promote_loop :: "u64 \<Rightarrow> overlay \<Rightarrow> overlay" where
  "promote_loop durable_sequence ov =
     (case first_key (ov_pending_promotion ov) of
        None \<Rightarrow> ov
      | Some seq \<Rightarrow>
          if durable_sequence < seq then ov
          else let u = the (fmlookup (ov_pending_promotion ov) seq)
               in promote_loop durable_sequence
                 (promote_unit seq u (ov\<lparr>ov_pending_promotion := fmdrop seq (ov_pending_promotion ov)\<rparr>)))"
  by pat_completeness auto
termination
proof (relation "measure (\<lambda>(_, ov). fcard (fmdom (ov_pending_promotion ov)))")
  fix D :: u64 and ov :: overlay and seq u
  assume "first_key (ov_pending_promotion ov) = Some seq"
  then have "seq |\<in>| fmdom (ov_pending_promotion ov)"
    by (rule first_key_SomeD)
  then show "((D, promote_unit seq u (ov\<lparr>ov_pending_promotion := fmdrop seq (ov_pending_promotion ov)\<rparr>)), D, ov) \<in>
      measure (\<lambda>(_, ov). fcard (fmdom (ov_pending_promotion ov)))"
    by (auto simp: fcard.rep_eq card_gt_0_iff intro!: diff_less)
qed simp

declare promote_loop.simps [simp del]

definition promote :: "u64 \<Rightarrow> overlay \<Rightarrow> overlay" where
  "promote durable_sequence ov =
     promote_loop durable_sequence (ov\<lparr>ov_durable_boundary := max (ov_durable_boundary ov) durable_sequence\<rparr>)"

definition collect_durable :: "u64 \<Rightarrow> overlay \<Rightarrow> (u64 \<times> overlay_version) list" where
  "collect_durable durable_sequence ov =
     List.map_filter (\<lambda>u. case fmlookup (ov_units ov) u of
         Some e \<Rightarrow> (case uo_durable e of
             Some d \<Rightarrow> if ovv_sequence d \<le> durable_sequence then Some (u, d) else None
           | None \<Rightarrow> None)
       | None \<Rightarrow> None) (keys (ov_units ov))"

text \<open>The first loop of \<open>retire\<close>, which collects the units to remove.\<close>

definition retire_unit :: "u64 \<Rightarrow> u64 \<Rightarrow> overlay \<times> u64 list \<Rightarrow> overlay \<times> u64 list" where
  "retire_unit checkpoint u st =
     (let (ov, remove) = st; entry = the (fmlookup (ov_units ov) u);
          (ov, entry) =
            (case uo_durable entry of
               Some d \<Rightarrow> if ovv_sequence d \<le> checkpoint
                 then (ov\<lparr>ov_bytes := ov_bytes ov - length (ovv_ciphertext d),
                        ov_units := fmupd u (entry\<lparr>uo_durable := None\<rparr>) (ov_units ov)\<rparr>, entry\<lparr>uo_durable := None\<rparr>)
                 else (ov, entry)
             | None \<Rightarrow> (ov, entry))
      in if ovv_sequence (uo_latest entry) \<le> checkpoint
         then (ov\<lparr>ov_bytes := ov_bytes ov - length (ovv_ciphertext (uo_latest entry)),
                 ov_latest_bytes := ov_latest_bytes ov - length (ovv_ciphertext (uo_latest entry))\<rparr>, remove @ [u])
         else (ov, remove))"

definition retire :: "u64 \<Rightarrow> overlay \<Rightarrow> overlay" where
  "retire checkpoint ov =
     (let (ov, remove) = fold (retire_unit checkpoint) (keys (ov_units ov)) (ov, []);
          ov = ov\<lparr>ov_units := fold fmdrop remove (ov_units ov)\<rparr>
      in ov\<lparr>ov_pending_promotion := fmfilter (\<lambda>seq. checkpoint < seq) (ov_pending_promotion ov)\<rparr>)"

text \<open>The assertions of \<open>check_invariants\<close>.\<close>

definition version_bytes :: "overlay_version option \<Rightarrow> nat" where
  "version_bytes v = (case v of Some d \<Rightarrow> length (ovv_ciphertext d) | None \<Rightarrow> 0)"

definition unit_invariants :: "u64 \<Rightarrow> unit_overlay \<Rightarrow> bool" where
  "unit_invariants boundary e \<longleftrightarrow>
     ovv_sequence (uo_latest e) \<noteq> 0 \<and>
     (case uo_durable e of None \<Rightarrow> True | Some d \<Rightarrow>
        ovv_sequence d \<le> ovv_sequence (uo_latest e) \<and> ovv_sequence d \<le> boundary \<and>
        (ovv_sequence d = ovv_sequence (uo_latest e) \<longrightarrow> ovv_ciphertext d = ovv_ciphertext (uo_latest e))) \<and>
     (ovv_sequence (uo_latest e) \<le> boundary \<longrightarrow>
        (case uo_durable e of Some d \<Rightarrow> ovv_sequence d = ovv_sequence (uo_latest e) | None \<Rightarrow> False))"

definition check_invariants :: "overlay \<Rightarrow> bool" where
  "check_invariants ov \<longleftrightarrow>
     (\<forall>u \<in> set (keys (ov_units ov)). unit_invariants (ov_durable_boundary ov) (the (fmlookup (ov_units ov) u))) \<and>
     ov_bytes ov = sum_list (map (\<lambda>u. let e = the (fmlookup (ov_units ov) u)
       in length (ovv_ciphertext (uo_latest e)) + version_bytes (uo_durable e)) (keys (ov_units ov))) \<and>
     ov_latest_bytes ov = sum_list (map (\<lambda>u. length (ovv_ciphertext (uo_latest (the (fmlookup (ov_units ov) u)))))
       (keys (ov_units ov))) \<and>
     (\<forall>seq \<in> set (keys (ov_pending_promotion ov)). ov_durable_boundary ov < seq \<and>
       (case fmlookup (ov_units ov) (the (fmlookup (ov_pending_promotion ov) seq)) of
          Some e \<Rightarrow> seq \<le> ovv_sequence (uo_latest e) | None \<Rightarrow> False))"

section \<open>Byte accounting\<close>

definition charge :: "unit_overlay \<Rightarrow> nat" where
  "charge e = length (ovv_ciphertext (uo_latest e)) + version_bytes (uo_durable e)"

definition latest_charge :: "unit_overlay \<Rightarrow> nat" where
  "latest_charge e = length (ovv_ciphertext (uo_latest e))"

definition accounted :: "overlay \<Rightarrow> bool" where
  "accounted ov \<longleftrightarrow> ov_bytes ov = fmsum charge (ov_units ov) \<and> ov_latest_bytes ov = fmsum latest_charge (ov_units ov)"

lemma publish_accounted:
  assumes "accounted ov" and "\<And>e. fmlookup (ov_units ov) u = Some e \<Longrightarrow> ovv_sequence (uo_latest e) \<noteq> 0"
  shows "accounted (publish u s ct ov)"
proof (cases "fmlookup (ov_units ov) u")
  case None
  then show ?thesis
    using assms(1)
    by (simp add: accounted_def publish_def Let_def fmsum_upd fmdrop_None unit_overlay_default_def charge_def
        latest_charge_def version_bytes_def)
next
  case (Some e)
  then show ?thesis
    using assms fmsum_drop [OF Some, of charge] fmsum_drop [OF Some, of latest_charge]
    by (simp add: accounted_def publish_def Let_def fmsum_upd charge_def latest_charge_def)
qed

lemma promote_unit_accounted: "accounted ov \<Longrightarrow> accounted (promote_unit s u ov)"
  by (cases "fmlookup (ov_units ov) u")
    (auto simp: accounted_def promote_unit_def Let_def fmsum_upd charge_def latest_charge_def version_bytes_def
      fmsum_drop [of "ov_units ov" u] split: option.splits)

lemma promote_loop_accounted: "accounted ov \<Longrightarrow> accounted (promote_loop D ov)"
proof (induction D ov rule: promote_loop.induct)
  case (1 D ov)
  have "accounted (ov\<lparr>ov_pending_promotion := p\<rparr>)" for p
    using "1.prems" by (simp add: accounted_def)
  then show ?case
    using "1.IH" "1.prems" promote_unit_accounted
    by (subst promote_loop.simps) (auto simp: Let_def split: option.split)
qed

section \<open>What the loops compute\<close>

definition promoted :: "u64 \<Rightarrow> (u64, u64) fmap \<Rightarrow> u64 \<Rightarrow> unit_overlay \<Rightarrow> unit_overlay" where
  "promoted D pending u e =
     (if ovv_sequence (uo_latest e) \<le> D \<and> fmlookup pending (ovv_sequence (uo_latest e)) = Some u \<and>
         (case uo_durable e of Some d \<Rightarrow> ovv_sequence d < ovv_sequence (uo_latest e) | None \<Rightarrow> True)
      then e\<lparr>uo_durable := Some (uo_latest e)\<rparr> else e)"

lemma promote_unit_units:
  "fmlookup (ov_units (promote_unit s v ov)) u =
     (if u = v then map_option (\<lambda>e. if ovv_sequence (uo_latest e) = s \<and>
         (case uo_durable e of Some d \<Rightarrow> ovv_sequence d < s | None \<Rightarrow> True)
       then e\<lparr>uo_durable := Some (uo_latest e)\<rparr> else e) (fmlookup (ov_units ov) v)
      else fmlookup (ov_units ov) u)"
  by (auto simp: promote_unit_def Let_def split: option.split)

lemma promote_unit_boundary [simp]: "ov_durable_boundary (promote_unit s v ov) = ov_durable_boundary ov"
  by (simp add: promote_unit_def Let_def split: option.split)

lemma promote_loop_spec:
  "fmlookup (ov_units (promote_loop D ov)) u =
     map_option (promoted D (ov_pending_promotion ov) u) (fmlookup (ov_units ov) u) \<and>
   ov_pending_promotion (promote_loop D ov) = fmfilter (\<lambda>s. D < s) (ov_pending_promotion ov) \<and>
   ov_durable_boundary (promote_loop D ov) = ov_durable_boundary ov"
proof (induction D ov rule: promote_loop.induct)
  case (1 D ov)
  let ?p = "ov_pending_promotion ov"
  show ?case
  proof (cases "first_key ?p")
    case None
    then have p: "?p = fmempty"
      by (rule first_key_NoneD)
    have "promote_loop D ov = ov"
      using None by (subst promote_loop.simps) simp
    then show ?thesis
      unfolding p by (simp add: p promoted_def option.map_ident_strong)
  next
    case (Some s)
    note first = first_key_SomeD [OF Some]
    show ?thesis
    proof (cases "D < s")
      case True
      have above: "D < k" if "fmlookup ?p k = Some v" for k v
        using first(2) [OF fmdomI [OF that]] True by (rule less_le_trans [rotated])
      have "promoted D ?p u e = e" for e
        using above by (auto simp: promoted_def not_less [symmetric])
      moreover have "fmfilter (\<lambda>s. D < s) ?p = ?p"
        using above by (intro fmap_ext) (auto simp: fmdom_notD; metis option.exhaust)
      moreover have "promote_loop D ov = ov"
        using Some True by (subst promote_loop.simps) simp
      ultimately show ?thesis
        by (simp add: option.map_ident_strong)
    next
      case False
      obtain v where v: "fmlookup ?p s = Some v"
        using first(1) by (auto simp: fmlookup_dom_iff)
      let ?ov = "promote_unit s v (ov\<lparr>ov_pending_promotion := fmdrop s ?p\<rparr>)"
      have run: "promote_loop D ov = promote_loop D ?ov"
        using Some False v by (subst promote_loop.simps) simp
      note IH = "1.IH" [OF Some False refl, unfolded v option.sel]
      let ?g = "\<lambda>e. if u = v \<and> ovv_sequence (uo_latest e) = s \<and>
          (case uo_durable e of Some d \<Rightarrow> ovv_sequence d < s | None \<Rightarrow> True)
          then e\<lparr>uo_durable := Some (uo_latest e)\<rparr> else e"
      have units: "fmlookup (ov_units ?ov) u = map_option ?g (fmlookup (ov_units ov) u)"
        by (cases "fmlookup (ov_units ov) u") (auto simp: promote_unit_units)
      have upd: "promoted D (fmdrop s ?p) u (?g e) = promoted D ?p u e" for e
        using v False by (auto simp: promoted_def split: option.splits)
      have filt: "fmfilter (\<lambda>s. D < s) (fmdrop s ?p) = fmfilter (\<lambda>s. D < s) ?p"
        using False by (intro fmap_ext) auto
      show ?thesis
        using IH unfolding run units promote_unit_pending option.map_comp comp_def upd
        by (simp add: upd filt cong del: fmfilter_cong)
    qed
  qed
qed

definition stripped :: "u64 \<Rightarrow> unit_overlay \<Rightarrow> unit_overlay" where
  "stripped C e = (case uo_durable e of
     Some d \<Rightarrow> if ovv_sequence d \<le> C then e\<lparr>uo_durable := None\<rparr> else e | None \<Rightarrow> e)"

lemma stripped_latest [simp]: "uo_latest (stripped C e) = uo_latest e"
  by (simp add: stripped_def split: option.split)

text \<open>No durable version leads its latest version.\<close>

definition trailing :: "overlay \<Rightarrow> bool" where
  "trailing ov \<longleftrightarrow> (\<forall>u e d. fmlookup (ov_units ov) u = Some e \<longrightarrow> uo_durable e = Some d \<longrightarrow>
     ovv_sequence d \<le> ovv_sequence (uo_latest e))"

lemma fold_retire:
  assumes "distinct xs" and "set xs \<subseteq> fset (fmdom (ov_units ov))" and "set rem \<inter> set xs = {}"
    and "ov_bytes ov = fmsum charge (fold fmdrop rem (ov_units ov))"
    and "ov_latest_bytes ov = fmsum latest_charge (fold fmdrop rem (ov_units ov))"
    and "trailing ov" and "fold (retire_unit C) xs (ov, rem) = (ov', rem')"
  shows "(\<forall>u. fmlookup (ov_units ov') u =
      (if u \<in> set xs then map_option (stripped C) (fmlookup (ov_units ov) u) else fmlookup (ov_units ov) u)) \<and>
    set rem' = set rem \<union> {u \<in> set xs. ovv_sequence (uo_latest (the (fmlookup (ov_units ov) u))) \<le> C} \<and>
    ov_bytes ov' = fmsum charge (fold fmdrop rem' (ov_units ov')) \<and>
    ov_latest_bytes ov' = fmsum latest_charge (fold fmdrop rem' (ov_units ov')) \<and>
    ov_pending_promotion ov' = ov_pending_promotion ov \<and> ov_durable_boundary ov' = ov_durable_boundary ov"
  using assms
proof (induction xs arbitrary: ov rem)
  case (Cons u xs)
  obtain e where e: "fmlookup (ov_units ov) u = Some e"
    using Cons.prems(2) by (auto simp: fmlookup_dom_iff)
  obtain ov1 rem1 where step: "retire_unit C u (ov, rem) = (ov1, rem1)"
    by (cases "retire_unit C u (ov, rem)")
  have u: "u \<notin> set rem"
    using Cons.prems(3) by auto
  let ?e = "stripped C e" and ?m = "fold fmdrop rem (ov_units ov)"
  have m: "fmlookup ?m u = Some e"
    using e u by simp
  have same: "ov_pending_promotion ov1 = ov_pending_promotion ov" "ov_durable_boundary ov1 = ov_durable_boundary ov"
    and rem1: "rem1 = (if ovv_sequence (uo_latest e) \<le> C then rem @ [u] else rem)"
    and units: "fmlookup (ov_units ov1) v = (if v = u then Some ?e else fmlookup (ov_units ov) v)" for v
    using step e by (auto simp: retire_unit_def Let_def stripped_def split: option.splits if_splits)
  have drop: "fold fmdrop rem1 (ov_units ov1) = (if ovv_sequence (uo_latest e) \<le> C then fmdrop u ?m else fmupd u ?e ?m)"
    using u by (intro fmap_ext) (auto simp: rem1 units)
  have charges: "charge e = length (ovv_ciphertext (uo_latest e)) + version_bytes (uo_durable e)"
    "charge (e\<lparr>uo_durable := None\<rparr>) = length (ovv_ciphertext (uo_latest e))"
    "latest_charge e = length (ovv_ciphertext (uo_latest e))"
    "latest_charge (e\<lparr>uo_durable := None\<rparr>) = length (ovv_ciphertext (uo_latest e))"
    by (simp_all add: charge_def latest_charge_def version_bytes_def)
  have trail: "ovv_sequence d \<le> ovv_sequence (uo_latest e)" if "uo_durable e = Some d" for d
    using Cons.prems(6) e that by (auto simp: trailing_def)
  have "trailing ov1"
    using Cons.prems(6) e by (auto simp: trailing_def units stripped_def split: if_splits option.splits)
  have bytes: "ov_bytes ov1 = fmsum charge (fold fmdrop rem1 (ov_units ov1))"
    "ov_latest_bytes ov1 = fmsum latest_charge (fold fmdrop rem1 (ov_units ov1))"
    using step e fmsum_drop [OF m, of charge] fmsum_drop [OF m, of latest_charge] Cons.prems(4,5)
    unfolding drop
    by (auto simp: retire_unit_def Let_def stripped_def fmsum_upd charges version_bytes_def
        split: option.splits if_splits dest: trail)
  have "set xs \<subseteq> fset (fmdom (ov_units ov1))"
    using Cons.prems(2) by (auto simp: fmlookup_dom_iff units)
  moreover have "set rem1 \<inter> set xs = {}"
    using Cons.prems(1,3) by (auto simp: rem1)
  ultimately have IH: "(\<forall>v. fmlookup (ov_units ov') v =
      (if v \<in> set xs then map_option (stripped C) (fmlookup (ov_units ov1) v) else fmlookup (ov_units ov1) v)) \<and>
    set rem' = set rem1 \<union> {v \<in> set xs. ovv_sequence (uo_latest (the (fmlookup (ov_units ov1) v))) \<le> C} \<and>
    ov_bytes ov' = fmsum charge (fold fmdrop rem' (ov_units ov')) \<and>
    ov_latest_bytes ov' = fmsum latest_charge (fold fmdrop rem' (ov_units ov')) \<and>
    ov_pending_promotion ov' = ov_pending_promotion ov1 \<and> ov_durable_boundary ov' = ov_durable_boundary ov1"
    using Cons.prems(1,7) bytes step \<open>trailing ov1\<close> by (intro Cons.IH [of ov1 rem1]) simp_all
  have nu: "u \<notin> set xs"
    using Cons.prems(1) by simp
  have A: "set rem' = set rem \<union> {v \<in> set (u # xs). ovv_sequence (uo_latest (the (fmlookup (ov_units ov) v))) \<le> C}"
    using IH nu e by (auto simp: rem1 units split: if_splits)
  have B: "fmlookup (ov_units ov') v = (if v \<in> set (u # xs) then map_option (stripped C) (fmlookup (ov_units ov) v)
      else fmlookup (ov_units ov) v)" for v
    using IH nu e by (auto simp: units)
  show ?case
    by (intro conjI allI; (rule A | rule B | use IH same in simp))
qed simp

lemma retire_spec:
  assumes "accounted ov" and "trailing ov"
  shows "accounted (retire C ov)"
    and "fmlookup (ov_units (retire C ov)) u = (case fmlookup (ov_units ov) u of
      Some e \<Rightarrow> if ovv_sequence (uo_latest e) \<le> C then None else Some (stripped C e) | None \<Rightarrow> None)"
    and "ov_pending_promotion (retire C ov) = fmfilter (\<lambda>s. C < s) (ov_pending_promotion ov)"
    and "ov_durable_boundary (retire C ov) = ov_durable_boundary ov"
proof -
  obtain ov' rem where run: "fold (retire_unit C) (keys (ov_units ov)) (ov, []) = (ov', rem)"
    by (cases "fold (retire_unit C) (keys (ov_units ov)) (ov, [])")
  have spec: "(\<forall>u. fmlookup (ov_units ov') u =
      (if u \<in> set (keys (ov_units ov)) then map_option (stripped C) (fmlookup (ov_units ov) u) else fmlookup (ov_units ov) u)) \<and>
    set rem = set [] \<union> {u \<in> set (keys (ov_units ov)). ovv_sequence (uo_latest (the (fmlookup (ov_units ov) u))) \<le> C} \<and>
    ov_bytes ov' = fmsum charge (fold fmdrop rem (ov_units ov')) \<and>
    ov_latest_bytes ov' = fmsum latest_charge (fold fmdrop rem (ov_units ov')) \<and>
    ov_pending_promotion ov' = ov_pending_promotion ov \<and> ov_durable_boundary ov' = ov_durable_boundary ov"
    by (rule fold_retire [OF _ _ _ _ _ assms(2) run]) (use assms in \<open>simp_all add: accounted_def\<close>)
  show "accounted (retire C ov)" "ov_pending_promotion (retire C ov) = fmfilter (\<lambda>s. C < s) (ov_pending_promotion ov)"
    "ov_durable_boundary (retire C ov) = ov_durable_boundary ov"
    using spec by (simp_all add: retire_def run accounted_def Let_def cong del: fmfilter_cong)
  show "fmlookup (ov_units (retire C ov)) u = (case fmlookup (ov_units ov) u of
      Some e \<Rightarrow> if ovv_sequence (uo_latest e) \<le> C then None else Some (stripped C e) | None \<Rightarrow> None)"
    using spec by (auto simp: retire_def run Let_def fmlookup_dom_iff split: option.split)
qed

section \<open>The overlay as a function of the log\<close>

text \<open>The log of everything published, the newest record first, as triples of sequence, unit and
  ciphertext.\<close>

type_synonym publication = "u64 \<times> u64 \<times> bytes"

definition newest :: "publication list \<Rightarrow> u64 \<Rightarrow> u64 \<Rightarrow> overlay_version option" where
  "newest L u bound = map_option (\<lambda>(s, _, ct). \<lparr>ovv_sequence = s, ovv_ciphertext = ct\<rparr>)
     (List.find (\<lambda>(s, v, _). v = u \<and> s \<le> bound) L)"

definition after :: "u64 \<Rightarrow> overlay_version option \<Rightarrow> overlay_version option" where
  "after c v = (case v of Some d \<Rightarrow> if c < ovv_sequence d then Some d else None | None \<Rightarrow> None)"

definition logged_unit :: "publication list \<Rightarrow> u64 \<Rightarrow> u64 \<Rightarrow> u64 \<Rightarrow> unit_overlay option" where
  "logged_unit L b c u = map_option (\<lambda>l. \<lparr>uo_latest = l, uo_durable = after c (newest L u b)\<rparr>) (after c (newest L u (- 1)))"

definition logged_pending :: "publication list \<Rightarrow> u64 \<Rightarrow> u64 \<Rightarrow> u64 option" where
  "logged_pending L b s = (if b < s then map_option (\<lambda>(_, u, _). u) (List.find (\<lambda>(t, _, _). t = s) L) else None)"

definition log_ok :: "publication list \<Rightarrow> bool" where
  "log_ok L \<longleftrightarrow> sorted_wrt (\<lambda>x y. fst y < fst x) L \<and> (\<forall>e \<in> set L. 0 < fst e)"

definition implements :: "overlay \<Rightarrow> publication list \<Rightarrow> u64 \<Rightarrow> u64 \<Rightarrow> bool" where
  "implements ov L b c \<longleftrightarrow> log_ok L \<and> c \<le> b \<and> ov_durable_boundary ov = b \<and> accounted ov \<and>
     (\<forall>u. fmlookup (ov_units ov) u = logged_unit L b c u) \<and>
     (\<forall>s. fmlookup (ov_pending_promotion ov) s = logged_pending L b s)"

text \<open>The ordering rule: sequences grow and are published above the durable boundary; the boundary moves
  to cover everything published so far or does not move; checkpoints stay at or below it.\<close>

inductive overlay_run :: "overlay \<Rightarrow> publication list \<Rightarrow> u64 \<Rightarrow> u64 \<Rightarrow> bool" where
  run_new: "overlay_run overlay_new [] 0 0"
| run_publish: "overlay_run ov L b c \<Longrightarrow> b < s \<Longrightarrow> \<forall>e \<in> set L. fst e < s \<Longrightarrow>
    overlay_run (publish u s ct ov) ((s, u, ct) # L) b c"
| run_promote: "overlay_run ov L b c \<Longrightarrow> B \<le> b \<or> (\<forall>e \<in> set L. fst e \<le> B) \<Longrightarrow>
    overlay_run (promote B ov) L (max b B) c"
| run_retire: "overlay_run ov L b c \<Longrightarrow> c \<le> C \<Longrightarrow> C \<le> b \<Longrightarrow> overlay_run (retire C ov) L b C"

lemma newest_Cons:
  "newest ((s, v, ct) # L) u bound =
     (if v = u \<and> s \<le> bound then Some \<lparr>ovv_sequence = s, ovv_ciphertext = ct\<rparr> else newest L u bound)"
  by (simp add: newest_def)

lemma newest_SomeD:
  assumes "newest L u bound = Some d"
  shows "ovv_sequence d \<le> bound" and "(ovv_sequence d, u, ovv_ciphertext d) \<in> set L"
  using assms by (auto simp: newest_def find_Some_iff in_set_conv_nth)

lemma newest_all: "\<forall>e \<in> set L. fst e \<le> b \<Longrightarrow> newest L u b = newest L u (- 1)"
  by (induction L) (auto simp: newest_Cons newest_def)

lemma newest_mono:
  assumes "log_ok L" and "newest L u b = Some d" and "b \<le> b'"
  obtains d' where "newest L u b' = Some d'" and "ovv_sequence d \<le> ovv_sequence d'"
    and "ovv_sequence d = ovv_sequence d' \<Longrightarrow> d = d'"
  using assms
proof (induction L arbitrary: thesis)
  case (Cons e L)
  obtain s v ct where e: "e = (s, v, ct)"
    by (cases e)
  have ok: "log_ok L" and less: "\<And>x. x \<in> set L \<Longrightarrow> fst x < s"
    using Cons.prems(2) by (auto simp: log_ok_def e)
  show ?case
  proof (cases "v = u \<and> s \<le> b'")
    case True
    show ?thesis
    proof (cases "s \<le> b")
      case True
      then show ?thesis
        using Cons.prems(1,3) \<open>v = u \<and> s \<le> b'\<close> by (auto simp: e newest_Cons)
    next
      case False
      then have "newest L u b = Some d"
        using Cons.prems(3) by (simp add: e newest_Cons)
      then have "ovv_sequence d < s"
        using less newest_SomeD(2) by force
      then show ?thesis
        using True Cons.prems(1) by (auto simp: e newest_Cons)
    qed
  next
    case False
    then have "\<not> (v = u \<and> s \<le> b)"
      using Cons.prems(4) by auto
    then have "newest L u b = Some d"
      using Cons.prems(3) by (auto simp: e newest_Cons split: if_splits)
    then show ?thesis
      using Cons.IH [OF _ ok _ Cons.prems(4)] Cons.prems(1) False by (auto simp: e newest_Cons)
  qed
qed (simp add: newest_def)

lemma newest_top:
  assumes "log_ok L" and "newest L u b = Some d"
  obtains d' where "newest L u (- 1) = Some d'" and "ovv_sequence d \<le> ovv_sequence d'"
    and "ovv_sequence d = ovv_sequence d' \<Longrightarrow> d = d'"
  by (rule newest_mono [OF assms word_n1_ge]) (rule that)

lemma implements_publish:
  assumes "implements ov L b c" and "b < s" and "\<forall>e \<in> set L. fst e < s"
  shows "implements (publish u s ct ov) ((s, u, ct) # L) b c"
proof -
  have ov: "log_ok L" "c \<le> b" "ov_durable_boundary ov = b" "accounted ov"
    and units: "\<And>v. fmlookup (ov_units ov) v = logged_unit L b c v"
    and pending: "\<And>t. fmlookup (ov_pending_promotion ov) t = logged_pending L b t"
    using assms(1) by (auto simp: implements_def)
  have "c < s"
    using ov(2) assms(2) by (rule le_less_trans)
  have older: "after c (newest L v (- 1)) = None \<Longrightarrow> after c (newest L v b) = None" for v
  proof -
    assume none: "after c (newest L v (- 1)) = None"
    show "after c (newest L v b) = None"
    proof (cases "newest L v b")
      case (Some d)
      obtain d' where "newest L v (- 1) = Some d'" "ovv_sequence d \<le> ovv_sequence d'"
        by (rule newest_top [OF ov(1) Some])
      then show ?thesis
        using none Some by (auto simp: after_def split: if_splits)
    qed (simp add: after_def)
  qed
  have "fmlookup (ov_units (publish u s ct ov)) v = logged_unit ((s, u, ct) # L) b c v" for v
    using assms(2) \<open>c < s\<close> older [of u]
    by (cases "after c (newest L u (- 1))")
      (auto simp: publish_def Let_def units logged_unit_def newest_Cons after_def unit_overlay_default_def)
  moreover have "fmlookup (ov_pending_promotion (publish u s ct ov)) t = logged_pending ((s, u, ct) # L) b t" for t
    using assms(2) by (auto simp: publish_def Let_def pending logged_pending_def)
  moreover have "log_ok ((s, u, ct) # L)"
    using ov(1) assms(2,3) by (auto simp: log_ok_def intro: le_less_trans [of 0 b])
  moreover have "accounted (publish u s ct ov)"
  proof (rule publish_accounted [OF ov(4)])
    fix e
    assume "fmlookup (ov_units ov) u = Some e"
    then have "c < ovv_sequence (uo_latest e)"
      by (auto simp: units logged_unit_def after_def split: option.splits if_splits)
    then show "ovv_sequence (uo_latest e) \<noteq> 0"
      by auto
  qed
  ultimately show ?thesis
    using ov(2,3) by (simp add: implements_def publish_def Let_def)
qed

lemma log_ok_find:
  "log_ok L \<Longrightarrow> (s, u, ct) \<in> set L \<Longrightarrow> List.find (\<lambda>(t, _, _). t = s) L = Some (s, u, ct)"
  by (induction L) (auto simp: log_ok_def)

lemma newest_upper:
  assumes "log_ok L" and "(s, u, ct) \<in> set L" and "s \<le> b"
  shows "\<exists>d. newest L u b = Some d \<and> s \<le> ovv_sequence d"
  using assms
proof (induction L)
  case (Cons e L)
  obtain t v x where e: "e = (t, v, x)"
    by (cases e)
  have "log_ok L" and "\<And>y. y \<in> set L \<Longrightarrow> fst y < t"
    using Cons.prems(1) by (auto simp: log_ok_def e)
  then show ?case
    using Cons by (fastforce simp: e newest_Cons less_imp_le)
qed simp

lemma implements_promote:
  assumes "implements ov L b c" and "B \<le> b \<or> (\<forall>e \<in> set L. fst e \<le> B)"
  shows "implements (promote B ov) L (max b B) c"
proof -
  have ov: "log_ok L" "c \<le> b" "ov_durable_boundary ov = b" "accounted ov"
    and units: "\<And>v. fmlookup (ov_units ov) v = logged_unit L b c v"
    and pending: "\<And>t. fmlookup (ov_pending_promotion ov) t = logged_pending L b t"
    using assms(1) by (auto simp: implements_def)
  let ?ov = "ov\<lparr>ov_durable_boundary := max (ov_durable_boundary ov) B\<rparr>"
  note spec = promote_loop_spec [of B ?ov, folded promote_def, simplified]
  have acc: "accounted (promote B ov)"
    unfolding promote_def by (rule promote_loop_accounted) (use ov(4) in \<open>simp add: accounted_def\<close>)
  have "map_option (promoted B (ov_pending_promotion ov) u) (logged_unit L b c u) = logged_unit L (max b B) c u" for u
  proof (cases "newest L u (- 1)")
    case None
    then show ?thesis
      by (simp add: logged_unit_def after_def)
  next
    case (Some l)
    have mem: "(ovv_sequence l, u, ovv_ciphertext l) \<in> set L"
      by (rule newest_SomeD(2) [OF Some])
    have pend: "fmlookup (ov_pending_promotion ov) (ovv_sequence l) = (if b < ovv_sequence l then Some u else None)"
      by (simp add: pending logged_pending_def log_ok_find [OF ov(1) mem])
    show ?thesis
    proof (cases "B \<le> b")
      case True
      then show ?thesis
        using pend Some by (auto simp: logged_unit_def after_def promoted_def max_def split: option.split)
    next
      case False
      then have all: "\<forall>e \<in> set L. fst e \<le> B" and mx: "max b B = B"
        using assms(2) by (auto simp: max_def)
      have top: "newest L u B = Some l"
        using newest_all [OF all] Some by simp
      have "ovv_sequence l \<le> B"
        using all mem by auto
      show ?thesis
      proof (cases "newest L u b")
        case None
        have "b < ovv_sequence l"
        proof (rule ccontr)
          assume "\<not> b < ovv_sequence l"
          then show False
            using newest_upper [OF ov(1) mem, of b] None by (simp add: not_less)
        qed
        then show ?thesis
          using None Some top pend \<open>ovv_sequence l \<le> B\<close> unfolding mx
          by (simp add: logged_unit_def after_def promoted_def)
      next
        case d: (Some d)
        obtain d' where "newest L u (- 1) = Some d'" and le: "ovv_sequence d \<le> ovv_sequence d'"
          and eq: "ovv_sequence d = ovv_sequence d' \<Longrightarrow> d = d'"
          by (rule newest_top [OF ov(1) d]) (rule that)
        then have l: "d' = l"
          using Some by simp
        have db: "ovv_sequence d \<le> b"
          by (rule newest_SomeD(1) [OF d])
        show ?thesis
        proof (cases "b < ovv_sequence l")
          case True
          then have "ovv_sequence d < ovv_sequence l"
            using db by simp
          then show ?thesis
            using d Some top pend True \<open>ovv_sequence l \<le> B\<close> unfolding mx
            by (simp add: logged_unit_def after_def promoted_def)
        next
          case False
          have "d = l"
          proof (rule ccontr)
            assume ne: "d \<noteq> l"
            obtain e where e: "newest L u b = Some e" "ovv_sequence l \<le> ovv_sequence e"
              using newest_upper [OF ov(1) mem, of b] False by (auto simp: not_less)
            then show False
              using d le l eq ne by auto
          qed
          then show ?thesis
            using d Some top pend False unfolding mx
            by (simp add: logged_unit_def after_def promoted_def)
        qed
      qed
    qed
  qed
  moreover have "fmlookup (ov_pending_promotion (promote B ov)) t = logged_pending L (max b B) t" for t
    using spec by (auto simp: pending logged_pending_def max_def cong del: fmfilter_cong)
  ultimately show ?thesis
    using ov(1,2,3) acc spec by (simp add: implements_def units le_max_iff_disj)
qed

lemma implements_trailing:
  assumes "implements ov L b c"
  shows "trailing ov"
  unfolding trailing_def
proof (intro allI impI)
  fix u e d
  assume e: "fmlookup (ov_units ov) u = Some e" and d: "uo_durable e = Some d"
  have "logged_unit L b c u = Some e" and ok: "log_ok L"
    using assms e by (auto simp: implements_def)
  then have l: "newest L u (- 1) = Some (uo_latest e)" and "newest L u b = Some d"
    using d by (auto simp: logged_unit_def after_def split: option.splits if_splits)
  obtain d' where "newest L u (- 1) = Some d'" "ovv_sequence d \<le> ovv_sequence d'"
    by (rule newest_top [OF ok \<open>newest L u b = Some d\<close>])
  then show "ovv_sequence d \<le> ovv_sequence (uo_latest e)"
    using l by simp
qed

lemma implements_retire:
  assumes "implements ov L b c" and "c \<le> C" and "C \<le> b"
  shows "implements (retire C ov) L b C"
proof -
  have ov: "log_ok L" "ov_durable_boundary ov = b" "accounted ov"
    and units: "\<And>v. fmlookup (ov_units ov) v = logged_unit L b c v"
    and pending: "\<And>t. fmlookup (ov_pending_promotion ov) t = logged_pending L b t"
    using assms(1) by (auto simp: implements_def)
  note spec = retire_spec [OF ov(3) implements_trailing [OF assms(1)]]
  have after: "after C v = (case after c v of Some d \<Rightarrow> if ovv_sequence d \<le> C then None else Some d | None \<Rightarrow> None)" for v
    using assms(2) by (auto simp: after_def split: option.split)
  have "fmlookup (ov_units (retire C ov)) u = logged_unit L b C u" for u
    unfolding spec(2) units logged_unit_def after [of "newest L u (- 1)"] after [of "newest L u b"]
    by (auto simp: stripped_def split: option.splits)
  moreover have "fmlookup (ov_pending_promotion (retire C ov)) t = logged_pending L b t" for t
    using assms(3) unfolding spec(3) by (auto simp: pending logged_pending_def)
  ultimately show ?thesis
    using assms(3) ov(1,2) spec(1,4) by (simp add: implements_def)
qed

lemma run_implements: "overlay_run ov L b c \<Longrightarrow> implements ov L b c"
proof (induction rule: overlay_run.induct)
  case run_new
  show ?case
    by (simp add: implements_def overlay_new_def log_ok_def accounted_def fmsum_def logged_unit_def newest_def
        after_def logged_pending_def)
qed (auto intro: implements_publish implements_promote implements_retire)

lemma implements_invariants:
  assumes "implements ov L b c"
  shows "check_invariants ov"
proof -
  have ov: "log_ok L" "ov_durable_boundary ov = b" "accounted ov" "c \<le> b"
    and units: "\<And>v. fmlookup (ov_units ov) v = logged_unit L b c v"
    and pending: "\<And>t. fmlookup (ov_pending_promotion ov) t = logged_pending L b t"
    using assms by (auto simp: implements_def)
  have unit_ok: "unit_invariants b e" if e: "fmlookup (ov_units ov) u = Some e" for u e
  proof -
    have l: "newest L u (- 1) = Some (uo_latest e)" "c < ovv_sequence (uo_latest e)"
      and d: "uo_durable e = after c (newest L u b)"
      using e by (auto simp: units logged_unit_def after_def split: option.splits if_splits)
    have mem: "(ovv_sequence (uo_latest e), u, ovv_ciphertext (uo_latest e)) \<in> set L"
      by (rule newest_SomeD(2) [OF l(1)])
    show ?thesis
    proof (cases "newest L u b")
      case None
      then have "\<not> ovv_sequence (uo_latest e) \<le> b"
        using newest_upper [OF ov(1) mem, of b] by auto
      then show ?thesis
        using None d l(2) by (auto simp: unit_invariants_def after_def)
    next
      case (Some x)
      obtain d' where "newest L u (- 1) = Some d'" and "ovv_sequence x \<le> ovv_sequence d'"
        and "ovv_sequence x = ovv_sequence d' \<Longrightarrow> x = d'"
        by (rule newest_top [OF ov(1) Some]) (rule that)
      moreover have "ovv_sequence (uo_latest e) \<le> b \<Longrightarrow> ovv_sequence (uo_latest e) \<le> ovv_sequence x"
        using newest_upper [OF ov(1) mem, of b] Some by auto
      ultimately show ?thesis
        using Some d l newest_SomeD(1) [OF Some] by (auto simp: unit_invariants_def after_def)
    qed
  qed
  have pending_ok: "\<exists>e. fmlookup (ov_units ov) u = Some e \<and> s \<le> ovv_sequence (uo_latest e)" "b < s"
    if s: "fmlookup (ov_pending_promotion ov) s = Some u" for s u
  proof -
    obtain ct where mem: "(s, u, ct) \<in> set L" and "b < s"
      using s by (auto simp: pending logged_pending_def find_Some_iff split: if_splits; metis nth_mem)
    then show "b < s" by simp
    obtain l where "newest L u (- 1) = Some l" "s \<le> ovv_sequence l"
      using newest_upper [OF ov(1) mem, of "- 1"] by auto
    then show "\<exists>e. fmlookup (ov_units ov) u = Some e \<and> s \<le> ovv_sequence (uo_latest e)"
      using ov(4) \<open>b < s\<close> by (auto simp: units logged_unit_def after_def)
  qed
  show ?thesis
    unfolding check_invariants_def ov(2)
  proof (intro conjI ballI)
    show "unit_invariants b (the (fmlookup (ov_units ov) u))" if "u \<in> set (keys (ov_units ov))" for u
      using that unit_ok [of u] by (auto simp: fmlookup_dom_iff)
    show "ov_bytes ov = sum_list (map (\<lambda>u. let e = the (fmlookup (ov_units ov) u)
        in length (ovv_ciphertext (uo_latest e)) + version_bytes (uo_durable e)) (keys (ov_units ov)))"
      using ov(3) sum_list_keys [of charge "ov_units ov"] by (simp add: accounted_def charge_def Let_def)
    show "ov_latest_bytes ov = sum_list (map (\<lambda>u. length (ovv_ciphertext (uo_latest (the (fmlookup (ov_units ov) u)))))
        (keys (ov_units ov)))"
      using ov(3) sum_list_keys [of latest_charge "ov_units ov"] by (simp add: accounted_def latest_charge_def)
    fix s
    assume "s \<in> set (keys (ov_pending_promotion ov))"
    then obtain u where u: "fmlookup (ov_pending_promotion ov) s = Some u"
      by (auto simp: fmlookup_dom_iff)
    show "b < s"
      by (rule pending_ok(2) [OF u])
    show "case fmlookup (ov_units ov) (the (fmlookup (ov_pending_promotion ov) s)) of
        Some e \<Rightarrow> s \<le> ovv_sequence (uo_latest e) | None \<Rightarrow> False"
      using pending_ok(1) [OF u] u by auto
  qed
qed

lemma collect_durable_iff:
  assumes "implements ov L b c"
  shows "(u, d) \<in> set (collect_durable b ov) \<longleftrightarrow> after c (newest L u b) = Some d \<and> after c (newest L u (- 1)) \<noteq> None"
proof -
  have units: "\<And>v. fmlookup (ov_units ov) v = logged_unit L b c v"
    using assms by (simp add: implements_def)
  have "ovv_sequence d \<le> b" if "after c (newest L u b) = Some d"
    using that newest_SomeD(1) [of L u b] by (auto simp: after_def split: option.splits if_splits)
  then show ?thesis
    by (auto simp: collect_durable_def set_map_filter_iff units logged_unit_def fmlookup_dom_iff
        split: option.splits if_splits)
qed

section \<open>Properties\<close>

text \<open>C6: The overlay refines its log. After any sequence of operations that obeys the ordering rule of
  the volume, a read finds the newest publication of a unit unless a checkpoint covers it, and a
  checkpoint at the durable boundary is offered exactly the newest durable version of every unit that
  has one above the last checkpoint: no durable record is ever left out of a checkpoint.\<close>

theorem overlay_refines_log:
  assumes "overlay_run ov L b c"
  shows "overlay_get u ov = after c (newest L u (- 1)) \<and>
    ((u, d) \<in> set (collect_durable b ov) \<longleftrightarrow> newest L u b = Some d \<and> c < ovv_sequence d) \<and>
    (\<forall>s ct. (s, u, ct) \<in> set L \<longrightarrow> c < s \<longrightarrow> s \<le> b \<longrightarrow>
      (\<exists>d. (u, d) \<in> set (collect_durable b ov) \<and> s \<le> ovv_sequence d))"
proof (intro conjI allI impI)
  have impl: "implements ov L b c"
    using assms by (rule run_implements)
  then have ok: "log_ok L" and units: "\<And>v. fmlookup (ov_units ov) v = logged_unit L b c v"
    by (simp_all add: implements_def)
  show "overlay_get u ov = after c (newest L u (- 1))"
    by (simp add: overlay_get_def units logged_unit_def option.map_comp comp_def option.map_ident)
  have collected: "(u, d) \<in> set (collect_durable b ov) \<longleftrightarrow> newest L u b = Some d \<and> c < ovv_sequence d" for d
  proof -
    have "after c (newest L u (- 1)) \<noteq> None" if d: "newest L u b = Some d" "c < ovv_sequence d"
    proof -
      obtain l where "newest L u (- 1) = Some l" "ovv_sequence d \<le> ovv_sequence l"
        by (rule newest_top [OF ok d(1)])
      then show ?thesis
        using d(2) by (auto simp: after_def)
    qed
    then show ?thesis
      unfolding collect_durable_iff [OF impl] by (auto simp: after_def split: option.splits if_splits)
  qed
  then show "(u, d) \<in> set (collect_durable b ov) \<longleftrightarrow> newest L u b = Some d \<and> c < ovv_sequence d" .
  show "\<exists>d. (u, d) \<in> set (collect_durable b ov) \<and> s \<le> ovv_sequence d"
    if "(s, u, ct) \<in> set L" "c < s" "s \<le> b" for s ct
    using newest_upper [OF ok that(1,3)] that(2) by (auto simp: collected)
qed

text \<open>A unit overwritten after it became durable: the read serves the new version, a checkpoint the old
  one.\<close>

lemma sample_overlay:
  "overlay_run (publish 4 2 [8] (promote 1 (publish 4 1 [7] overlay_new))) [(2, 4, [8]), (1, 4, [7])] 1 0"
proof -
  have "overlay_run (promote 1 (publish 4 1 [7] overlay_new)) [(1, 4, [7])] (max 0 1) 0"
    by (intro overlay_run.intros) simp_all
  then show ?thesis
    by (intro overlay_run.run_publish) (simp_all add: max_def)
qed

theorem overlay_refines_log_witness:
  "overlay_get 4 (publish 4 2 [8] (promote 1 (publish 4 1 [7] overlay_new))) = Some \<lparr>ovv_sequence = 2, ovv_ciphertext = [8]\<rparr> \<and>
   (4, \<lparr>ovv_sequence = 1, ovv_ciphertext = [7]\<rparr>) \<in> set (collect_durable 1 (publish 4 2 [8] (promote 1 (publish 4 1 [7] overlay_new))))"
proof -
  have "\<not> (2 :: u64) \<le> 1"
    by (simp add: word_le_nat_alt)
  then show ?thesis
    using overlay_refines_log [OF sample_overlay, of 4 "\<lparr>ovv_sequence = 1, ovv_ciphertext = [7]\<rparr>"]
    by (simp add: after_def newest_def)
qed

text \<open>C7: The overlay's own sanitizer never fires. After any sequence of operations that obeys the
  ordering rule, every assertion of \<open>check_invariants\<close> holds: the byte counters are exact, no durable
  version leads its latest version or the boundary, every version at or below the boundary has been
  promoted, and every pending promotion is above the boundary and names a live unit.\<close>

theorem overlay_invariants:
  assumes "overlay_run ov L b c"
  shows "check_invariants ov"
  by (rule implements_invariants [OF run_implements [OF assms]])

theorem overlay_invariants_witness:
  "check_invariants (publish 4 2 [8] (promote 1 (publish 4 1 [7] overlay_new)))"
  by (rule overlay_invariants [OF sample_overlay])

end
