(* ===== verification/Lru_Cache.thy ===== *)
theory Lru_Cache
  imports Ordered_Map
begin

text \<open>
  The versioned plaintext LRU read cache, \<open>crates/maki-cache/src/lib.rs\<close>. The mutexes make every
  operation atomic, so the state is one record and an operation is a function on it; the clock is the
  argument \<open>now\<close>, a duration in nanoseconds. Byte counts are natural numbers, as they count plaintext
  held in memory. The eviction loop ends only because the recency index mirrors the map, so it is a
  partial function, and that every operation returns is a theorem.
\<close>

record entry =
  en_write_sequence :: u64
  en_data :: bytes
  en_inserted_at :: nat
  en_last_used :: u64

record cache =
  ca_map :: "(u64, entry) fmap"
  ca_recency :: "(u64, u64) fmap"
  ca_bytes :: nat
  ca_max_bytes :: nat
  ca_tick :: u64
  ca_ttl :: nat
  ca_hits :: u64
  ca_misses :: u64

record cache_stats =
  cs_entries :: nat
  cs_bytes :: nat
  cs_hits :: u64
  cs_misses :: u64

definition cache_new :: "nat \<Rightarrow> nat \<Rightarrow> cache" where
  "cache_new max_bytes ttl = \<lparr>ca_map = fmempty, ca_recency = fmempty, ca_bytes = 0, ca_max_bytes = max_bytes,
     ca_tick = 0, ca_ttl = ttl, ca_hits = 0, ca_misses = 0\<rparr>"

definition cache_remove :: "u64 \<Rightarrow> cache \<Rightarrow> cache" where
  "cache_remove u c =
     (case fmlookup (ca_map c) u of
        None \<Rightarrow> c
      | Some e \<Rightarrow> c\<lparr>ca_map := fmdrop u (ca_map c), ca_recency := fmdrop (en_last_used e) (ca_recency c),
          ca_bytes := ca_bytes c - length (en_data e)\<rparr>)"

definition next_tick :: "cache \<Rightarrow> u64 \<times> cache" where
  "next_tick c = (ca_tick c + 1, c\<lparr>ca_tick := ca_tick c + 1\<rparr>)"

definition touch :: "u64 \<Rightarrow> cache \<Rightarrow> cache" where
  "touch u c =
     (let (tick, c) = next_tick c in
      case fmlookup (ca_map c) u of
        None \<Rightarrow> c
      | Some e \<Rightarrow> c\<lparr>ca_map := fmupd u (e\<lparr>en_last_used := tick\<rparr>) (ca_map c),
          ca_recency := fmupd tick u (fmdrop (en_last_used e) (ca_recency c))\<rparr>)"

partial_function (option) make_room :: "nat \<Rightarrow> cache \<Rightarrow> cache option" where
  "make_room need c =
     (if ca_max_bytes c < ca_bytes c + need then
        (case first_key (ca_recency c) of
           None \<Rightarrow> Some c
         | Some t \<Rightarrow> make_room need (cache_remove (the (fmlookup (ca_recency c) t)) c))
      else Some c)"

definition cache_clear :: "cache \<Rightarrow> cache" where
  "cache_clear c = c\<lparr>ca_map := fmempty, ca_recency := fmempty, ca_bytes := 0\<rparr>"

definition put :: "u64 \<Rightarrow> u64 \<Rightarrow> bytes \<Rightarrow> nat \<Rightarrow> cache \<Rightarrow> cache option" where
  "put u write_sequence data now c =
     (if (case fmlookup (ca_map c) u of Some e \<Rightarrow> write_sequence < en_write_sequence e | None \<Rightarrow> False) then Some c
      else let c = cache_remove u c in
        if length data = 0 \<or> ca_max_bytes c < length data \<or> ca_max_bytes c = 0 then Some c
        else map_option (\<lambda>c.
          let (tick, c) = next_tick c in
          c\<lparr>ca_map := fmupd u \<lparr>en_write_sequence = write_sequence, en_data = data, en_inserted_at = now,
               en_last_used = tick\<rparr> (ca_map c),
             ca_recency := fmupd tick u (ca_recency c), ca_bytes := ca_bytes c + length data\<rparr>)
          (make_room (length data) c))"

definition cache_lookup :: "u64 \<Rightarrow> u64 \<Rightarrow> nat \<Rightarrow> cache \<Rightarrow> bytes option \<times> cache" where
  "cache_lookup u write_sequence now c =
     (case fmlookup (ca_map c) u of
        Some e \<Rightarrow>
          if en_write_sequence e = write_sequence \<and> now - en_inserted_at e < ca_ttl c then (Some (en_data e), c)
          else if write_sequence < en_write_sequence e \<and> now - en_inserted_at e < ca_ttl c then (None, c)
          else (None, cache_remove u c)
      | None \<Rightarrow> (None, c))"

definition get :: "u64 \<Rightarrow> u64 \<Rightarrow> nat \<Rightarrow> cache \<Rightarrow> bytes option \<times> cache" where
  "get u write_sequence now c =
     (case cache_lookup u write_sequence now c of
        (Some data, c) \<Rightarrow> let c = touch u c in (Some data, c\<lparr>ca_hits := ca_hits c + 1\<rparr>)
      | (None, c) \<Rightarrow> (None, c\<lparr>ca_misses := ca_misses c + 1\<rparr>))"

definition invalidate :: "u64 \<Rightarrow> cache \<Rightarrow> cache" where
  "invalidate u c = cache_remove u c"

definition reconfigure :: "nat \<Rightarrow> nat option \<Rightarrow> cache \<Rightarrow> cache option" where
  "reconfigure max_bytes ttl c =
     (let c = (case ttl of Some t \<Rightarrow> c\<lparr>ca_ttl := t\<rparr> | None \<Rightarrow> c);
          c = c\<lparr>ca_max_bytes := max_bytes\<rparr>
      in if max_bytes = 0 then Some (cache_clear c) else make_room 0 c)"

definition set_max_bytes :: "nat \<Rightarrow> cache \<Rightarrow> cache option" where
  "set_max_bytes max_bytes c = reconfigure max_bytes None c"

definition set_ttl :: "nat \<Rightarrow> cache \<Rightarrow> cache" where
  "set_ttl ttl c = c\<lparr>ca_ttl := ttl\<rparr>"

definition stats :: "cache \<Rightarrow> cache_stats" where
  "stats c = \<lparr>cs_entries = length (keys (ca_map c)), cs_bytes = ca_bytes c, cs_hits = ca_hits c, cs_misses = ca_misses c\<rparr>"

section \<open>The invariant\<close>

definition entry_bytes :: "entry \<Rightarrow> nat" where
  "entry_bytes e = length (en_data e)"

text \<open>The recency index mirrors the map, and the byte count is exact. The budget is separate, since it
  does not hold while room is being made.\<close>

definition indexed :: "cache \<Rightarrow> bool" where
  "indexed c \<longleftrightarrow> (\<forall>u e. fmlookup (ca_map c) u = Some e \<longrightarrow> fmlookup (ca_recency c) (en_last_used e) = Some u) \<and>
     (\<forall>t u. fmlookup (ca_recency c) t = Some u \<longrightarrow> t \<le> ca_tick c \<and>
        (\<exists>e. fmlookup (ca_map c) u = Some e \<and> en_last_used e = t)) \<and>
     ca_bytes c = fmsum entry_bytes (ca_map c)"

definition cache_ok :: "cache \<Rightarrow> bool" where
  "cache_ok c \<longleftrightarrow> indexed c \<and> ca_bytes c \<le> ca_max_bytes c"

lemma indexedD:
  assumes "indexed c"
  shows "fmlookup (ca_map c) u = Some e \<Longrightarrow> fmlookup (ca_recency c) (en_last_used e) = Some u"
    and "fmlookup (ca_recency c) t = Some u \<Longrightarrow> t \<le> ca_tick c"
    and "fmlookup (ca_recency c) t = Some u \<Longrightarrow> \<exists>e. fmlookup (ca_map c) u = Some e \<and> en_last_used e = t"
    and "ca_bytes c = fmsum entry_bytes (ca_map c)"
  using assms unfolding indexed_def by blast+

lemma tick_less: "t \<noteq> - 1 \<Longrightarrow> (t :: u64) < t + 1"
proof -
  assume "t \<noteq> - 1"
  then have "1 + t \<noteq> 0"
    by (metis add_eq_0_iff)
  then have "unat (1 + t) = Suc (unat t)"
    by (rule unatSuc)
  then show ?thesis
    by (simp add: word_less_nat_alt add.commute)
qed

lemma remove_map [simp]: "ca_map (cache_remove u c) = fmdrop u (ca_map c)"
  by (auto simp: cache_remove_def fmdrop_None split: option.split)

lemma remove_same [simp]: "ca_max_bytes (cache_remove u c) = ca_max_bytes c" "ca_tick (cache_remove u c) = ca_tick c"
  "ca_ttl (cache_remove u c) = ca_ttl c"
  by (simp_all add: cache_remove_def split: option.split)

lemma remove_indexed:
  assumes "indexed c"
  shows "indexed (cache_remove u c)" and "ca_bytes (cache_remove u c) \<le> ca_bytes c"
proof -
  show "indexed (cache_remove u c)"
  proof (cases "fmlookup (ca_map c) u")
    case None
    then show ?thesis
      using assms by (simp add: cache_remove_def)
  next
    case (Some e)
    have mirror: "fmlookup (ca_recency c) (en_last_used f) = Some v" if "fmlookup (ca_map c) v = Some f" for v f
      using assms that by (simp add: indexed_def)
    have apart: "en_last_used f \<noteq> en_last_used e" if "fmlookup (ca_map c) v = Some f" "v \<noteq> u" for v f
      using mirror [OF that(1)] mirror [OF Some] that(2) by auto
    have "fmlookup (ca_map c) v = Some f \<and> v \<noteq> u" if "fmlookup (ca_recency c) t = Some v" "t \<noteq> en_last_used e"
        "fmlookup (ca_map c) v = Some f" "en_last_used f = t" for t v f
      using that Some by auto
    then show ?thesis
      using assms Some apart fmsum_drop [OF Some, of entry_bytes]
      by (fastforce simp: indexed_def cache_remove_def entry_bytes_def)
  qed
  show "ca_bytes (cache_remove u c) \<le> ca_bytes c"
    by (simp add: cache_remove_def split: option.split)
qed

text \<open>Making room returns, and it evicts only, from the least recently used on.\<close>

definition evicted :: "cache \<Rightarrow> cache \<Rightarrow> bool" where
  "evicted c c' \<longleftrightarrow> ca_max_bytes c' = ca_max_bytes c \<and> ca_tick c' = ca_tick c \<and> ca_ttl c' = ca_ttl c \<and>
     (\<forall>u e. fmlookup (ca_map c') u = Some e \<longrightarrow> fmlookup (ca_map c) u = Some e) \<and>
     (\<forall>u e v f. fmlookup (ca_map c') u = Some e \<longrightarrow> fmlookup (ca_map c) v = Some f \<longrightarrow>
        fmlookup (ca_map c') v = None \<longrightarrow> en_last_used f < en_last_used e)"

lemma make_room_returns:
  assumes "indexed c" and "need \<le> ca_max_bytes c"
  shows "\<exists>c'. make_room need c = Some c' \<and> indexed c' \<and> ca_bytes c' + need \<le> ca_max_bytes c' \<and> evicted c c'"
  using assms
proof (induction "fcard (fmdom (ca_recency c))" arbitrary: c rule: less_induct)
  case less
  show ?case
  proof (cases "ca_max_bytes c < ca_bytes c + need")
    case False
    then have "make_room need c = Some c"
      by (subst make_room.simps) simp
    then show ?thesis
      using False less.prems by (auto simp: evicted_def)
  next
    case True
    show ?thesis
    proof (cases "first_key (ca_recency c)")
      case None
      then have "ca_recency c = fmempty"
        by (rule first_key_NoneD)
      then have "fmlookup (ca_map c) u = None" for u
        using less.prems(1) by (cases "fmlookup (ca_map c) u") (auto simp: indexed_def)
      then have "ca_map c = fmempty"
        by (intro fmap_ext) simp
      then have "ca_bytes c = 0"
        using less.prems(1) by (simp add: indexed_def fmsum_def)
      then show ?thesis
        using True less.prems(2) by simp
    next
      case (Some t)
      note first = first_key_SomeD [OF Some]
      obtain u where u: "fmlookup (ca_recency c) t = Some u"
        using first(1) by (auto simp: fmlookup_dom_iff)
      then obtain e where e: "fmlookup (ca_map c) u = Some e" "en_last_used e = t"
        using indexedD(3) [OF less.prems(1)] by blast
      let ?c = "cache_remove u c"
      have step: "make_room need c = make_room need ?c"
        using True Some u by (subst make_room.simps) simp
      have "fcard (fmdom (ca_recency ?c)) < fcard (fmdom (ca_recency c))"
        using e first(1) by (auto simp: cache_remove_def fcard.rep_eq card_gt_0_iff intro!: diff_less)
      then obtain c' where c': "make_room need ?c = Some c'" "indexed c'"
        "ca_bytes c' + need \<le> ca_max_bytes c'" "evicted ?c c'"
        using less.hyps [of ?c] remove_indexed [OF less.prems(1)] less.prems(2) by auto
      have oldest: "t \<le> en_last_used f" and same: "en_last_used f = t \<Longrightarrow> v = u" if "fmlookup (ca_map c) v = Some f" for v f
      proof -
        have r: "fmlookup (ca_recency c) (en_last_used f) = Some v"
          using less.prems(1) that by (simp add: indexed_def)
        show "t \<le> en_last_used f"
          by (rule first(2) [OF fmdomI [OF r]])
        show "en_last_used f = t \<Longrightarrow> v = u"
          using r u by simp
      qed
      have "evicted c c'"
        unfolding evicted_def
      proof (intro conjI allI impI)
        fix v f
        assume f: "fmlookup (ca_map c') v = Some f"
        then have "fmlookup (ca_map ?c) v = Some f"
          using c'(4) unfolding evicted_def by blast
        then have v: "fmlookup (ca_map c) v = Some f" "v \<noteq> u"
          by (auto split: if_splits)
        then show "fmlookup (ca_map c) v = Some f"
          by simp
        fix w g
        assume w: "fmlookup (ca_map c) w = Some g" "fmlookup (ca_map c') w = None"
        show "en_last_used g < en_last_used f"
        proof (cases "w = u")
          case True
          then show ?thesis
            using oldest [OF v(1)] same [OF v(1)] v(2) w(1) e by force
        next
          case False
          then have "fmlookup (ca_map ?c) w = Some g"
            using w(1) by simp
          then show ?thesis
            using c'(4) f w(2) unfolding evicted_def by blast
        qed
      qed (use c'(4) in \<open>simp_all add: evicted_def\<close>)
      then show ?thesis
        using step c' by auto
    qed
  qed
qed

lemma indexed_insert:
  assumes "indexed c" and "fmlookup (ca_map c) u = None" and "ca_tick c \<noteq> - 1" and "en_last_used e = ca_tick c + 1"
  shows "indexed (c\<lparr>ca_tick := ca_tick c + 1, ca_map := fmupd u e (ca_map c),
    ca_recency := fmupd (ca_tick c + 1) u (ca_recency c), ca_bytes := ca_bytes c + length (en_data e)\<rparr>)"
proof -
  have lt: "ca_tick c < ca_tick c + 1"
    by (rule tick_less [OF assms(3)])
  have old: "t \<noteq> ca_tick c + 1" "t \<le> ca_tick c + 1" if "fmlookup (ca_recency c) t = Some v" for t v
  proof -
    have "t \<le> ca_tick c"
      using assms(1) that by (auto simp: indexed_def)
    then show "t \<noteq> ca_tick c + 1" "t \<le> ca_tick c + 1"
      using lt by auto
  qed
  show ?thesis
    using assms old unfolding indexed_def
    by (auto simp: fmsum_upd fmdrop_None entry_bytes_def) (metis option.distinct(1))+
qed

section \<open>Histories\<close>

text \<open>Everything that was ever put, the latest first: unit, write sequence, plaintext and time.\<close>

type_synonym insertion = "u64 \<times> u64 \<times> bytes \<times> nat"

definition last_put :: "insertion list \<Rightarrow> u64 \<Rightarrow> u64 \<Rightarrow> insertion option" where
  "last_put h u w = List.find (\<lambda>(v, x, _, _). v = u \<and> x = w) h"

definition faithful :: "insertion list \<Rightarrow> cache \<Rightarrow> bool" where
  "faithful h c \<longleftrightarrow> (\<forall>u e. fmlookup (ca_map c) u = Some e \<longrightarrow>
     last_put h u (en_write_sequence e) = Some (u, en_write_sequence e, en_data e, en_inserted_at e))"

text \<open>Operations in any order. The tick is a 64-bit counter that the code increments once per insertion
  and hit; the histories are those that do not exhaust it.\<close>

inductive cache_run :: "cache \<Rightarrow> insertion list \<Rightarrow> bool" where
  run_new: "cache_run (cache_new max_bytes ttl) []"
| run_put: "cache_run c h \<Longrightarrow> ca_tick c \<noteq> - 1 \<Longrightarrow> put u w data now c = Some c' \<Longrightarrow> cache_run c' ((u, w, data, now) # h)"
| run_get: "cache_run c h \<Longrightarrow> ca_tick c \<noteq> - 1 \<Longrightarrow> cache_run (snd (get u w now c)) h"
| run_invalidate: "cache_run c h \<Longrightarrow> cache_run (invalidate u c) h"
| run_clear: "cache_run c h \<Longrightarrow> cache_run (cache_clear c) h"
| run_reconfigure: "cache_run c h \<Longrightarrow> reconfigure max_bytes ttl c = Some c' \<Longrightarrow> cache_run c' h"
| run_set_ttl: "cache_run c h \<Longrightarrow> cache_run (set_ttl ttl c) h"

lemma faithful_sub:
  assumes "faithful h c" and "\<And>u e. fmlookup (ca_map c') u = Some e \<Longrightarrow>
    \<exists>e'. fmlookup (ca_map c) u = Some e' \<and> en_write_sequence e' = en_write_sequence e \<and> en_data e' = en_data e \<and>
      en_inserted_at e' = en_inserted_at e"
  shows "faithful h c'"
  unfolding faithful_def
proof (intro allI impI)
  fix u e
  assume "fmlookup (ca_map c') u = Some e"
  then obtain e' where e': "fmlookup (ca_map c) u = Some e'" "en_write_sequence e' = en_write_sequence e"
    "en_data e' = en_data e" "en_inserted_at e' = en_inserted_at e"
    using assms(2) by blast
  have "last_put h u (en_write_sequence e') = Some (u, en_write_sequence e', en_data e', en_inserted_at e')"
    using assms(1) e'(1) by (simp add: faithful_def)
  then show "last_put h u (en_write_sequence e) = Some (u, en_write_sequence e, en_data e, en_inserted_at e)"
    unfolding e'(2-4) .
qed

lemma remove_ok: "cache_ok c \<Longrightarrow> cache_ok (cache_remove u c)"
  using remove_indexed [of c u] by (auto simp: cache_ok_def)

lemma clear_ok: "cache_ok (cache_clear c)"
  by (simp add: cache_ok_def cache_clear_def indexed_def fmsum_def)

lemma make_room_spec:
  assumes "indexed c" and "need \<le> ca_max_bytes c" and "make_room need c = Some c'"
  shows "indexed c'" and "ca_bytes c' + need \<le> ca_max_bytes c'" and "evicted c c'"
  using make_room_returns [OF assms(1,2)] assms(3) by auto

text \<open>An insertion: either the cached version is newer, or the unit is gone, or it is the new entry.\<close>

lemma put_cases:
  assumes "cache_ok c" and "put u w data now c = Some c'"
  obtains (newer) e where "fmlookup (ca_map c) u = Some e" and "w < en_write_sequence e" and "c' = c"
  | (rejected) "c' = cache_remove u c" and "length data = 0 \<or> ca_max_bytes c < length data"
  | (stored) c1 where "indexed c1" and "evicted (cache_remove u c) c1"
      and "ca_bytes c1 + length data \<le> ca_max_bytes c1" and "0 < length data"
      and "c' = c1\<lparr>ca_tick := ca_tick c1 + 1, ca_map := fmupd u \<lparr>en_write_sequence = w, en_data = data,
             en_inserted_at = now, en_last_used = ca_tick c1 + 1\<rparr> (ca_map c1),
           ca_recency := fmupd (ca_tick c1 + 1) u (ca_recency c1), ca_bytes := ca_bytes c1 + length data\<rparr>"
proof (cases "case fmlookup (ca_map c) u of Some e \<Rightarrow> w < en_write_sequence e | None \<Rightarrow> False")
  case True
  then obtain e where e: "fmlookup (ca_map c) u = Some e" "w < en_write_sequence e"
    by (auto split: option.splits)
  moreover have "c' = c"
    using assms(2) e by (simp add: put_def)
  ultimately show ?thesis
    by (rule newer)
next
  case keep: False
  show ?thesis
  proof (cases "length data = 0 \<or> ca_max_bytes c < length data \<or> ca_max_bytes c = 0")
    case True
    then have "c' = cache_remove u c"
      using assms(2) keep by (simp add: put_def Let_def)
    then show ?thesis
      using True by (intro rejected) auto
  next
    case False
    then obtain c1 where c1: "make_room (length data) (cache_remove u c) = Some c1"
      and c': "c' = (let (tick, c) = next_tick c1 in c\<lparr>ca_map := fmupd u \<lparr>en_write_sequence = w, en_data = data,
        en_inserted_at = now, en_last_used = tick\<rparr> (ca_map c), ca_recency := fmupd tick u (ca_recency c),
        ca_bytes := ca_bytes c + length data\<rparr>)"
      using assms(2) keep by (auto simp: put_def Let_def)
    have ix: "indexed (cache_remove u c)"
      using assms(1) remove_indexed by (auto simp: cache_ok_def)
    have "length data \<le> ca_max_bytes (cache_remove u c)"
      using False by simp
    note room = make_room_spec [OF ix this c1]
    show ?thesis
      by (rule stored [OF room(1,3,2)]) (use False c' in \<open>simp_all add: next_tick_def\<close>)
  qed
qed

lemma put_ok:
  assumes "cache_ok c" and "ca_tick c \<noteq> - 1" and "put u w data now c = Some c'"
  shows "cache_ok c'"
  using assms(1,3)
proof (cases rule: put_cases)
  case (stored c1)
  have tick: "ca_tick c1 \<noteq> - 1" and none: "fmlookup (ca_map c1) u = None"
    using stored(2) assms(2) by (cases "fmlookup (ca_map c1) u"; force simp: evicted_def)+
  have "indexed c'"
    using indexed_insert [OF stored(1) none tick, of "\<lparr>en_write_sequence = w, en_data = data,
        en_inserted_at = now, en_last_used = ca_tick c1 + 1\<rparr>"] unfolding stored(5) by simp
  then show ?thesis
    using stored(3) by (simp add: cache_ok_def stored(5))
qed (use assms(1) remove_ok in auto)

lemma put_faithful:
  assumes "cache_ok c" and "faithful h c" and "put u w data now c = Some c'"
  shows "faithful ((u, w, data, now) # h) c'"
proof -
  have other: "last_put ((u, w, data, now) # h) v x = last_put h v x" if "v \<noteq> u \<or> x \<noteq> w" for v x
    using that by (auto simp: last_put_def)
  have here: "last_put ((u, w, data, now) # h) u w = Some (u, w, data, now)"
    by (simp add: last_put_def)
  have old: "last_put h v (en_write_sequence e) = Some (v, en_write_sequence e, en_data e, en_inserted_at e)"
    if "fmlookup (ca_map c) v = Some e" for v e
    using assms(2) that by (simp add: faithful_def)
  from assms(1,3) show ?thesis
  proof (cases rule: put_cases)
    case (newer e)
    have "v \<noteq> u \<or> en_write_sequence f \<noteq> w" if "fmlookup (ca_map c) v = Some f" for v f
      using newer(1,2) that by auto
    then show ?thesis
      using old other unfolding faithful_def newer(3) by metis
  next
    case rejected
    then show ?thesis
      using old other by (auto simp: faithful_def split: if_splits)
  next
    case (stored c1)
    have sub: "fmlookup (ca_map c) v = Some f \<and> v \<noteq> u" if "fmlookup (ca_map c1) v = Some f" for v f
    proof -
      have "fmlookup (ca_map (cache_remove u c)) v = Some f"
        using stored(2) that unfolding evicted_def by blast
      then show ?thesis
        by (auto split: if_splits)
    qed
    show ?thesis
      using here other old sub by (auto simp: faithful_def stored(5))
  qed
qed

lemma fmupd_drop: "fmupd u e (fmdrop u m) = fmupd u e m"
  by (rule fmap_ext) simp

lemma touch_map:
  "fmlookup (ca_map (touch u c)) v = (if v = u then map_option (\<lambda>e. e\<lparr>en_last_used := ca_tick c + 1\<rparr>) (fmlookup (ca_map c) u)
     else fmlookup (ca_map c) v)"
  by (simp add: touch_def next_tick_def split: option.split)

lemma touch_ok:
  assumes "cache_ok c" and "ca_tick c \<noteq> - 1"
  shows "cache_ok (touch u c)"
proof -
  have ix: "indexed c" and b: "ca_bytes c \<le> ca_max_bytes c"
    using assms(1) by (simp_all add: cache_ok_def)
  have lt: "ca_tick c < ca_tick c + 1"
    by (rule tick_less [OF assms(2)])
  show ?thesis
  proof (cases "fmlookup (ca_map c) u")
    case None
    then have "touch u c = c\<lparr>ca_tick := ca_tick c + 1\<rparr>"
      by (simp add: touch_def next_tick_def)
    moreover have "t \<le> ca_tick c + 1" if "fmlookup (ca_recency c) t = Some v" for t v
      using indexedD(2) [OF ix that] lt by simp
    ultimately show ?thesis
      using ix b by (simp add: cache_ok_def indexed_def)
  next
    case (Some e)
    let ?c = "cache_remove u c" and ?e = "e\<lparr>en_last_used := ca_tick c + 1\<rparr>"
    have rm: "indexed ?c" "fmlookup (ca_map ?c) u = None" "ca_tick ?c \<noteq> - 1" "en_last_used ?e = ca_tick ?c + 1"
      using remove_indexed(1) [OF ix] assms(2) by simp_all
    have le: "length (en_data e) \<le> ca_bytes c"
      using indexedD(4) [OF ix] fmsum_drop [OF Some, of entry_bytes] by (simp add: entry_bytes_def)
    have "touch u c = ?c\<lparr>ca_tick := ca_tick ?c + 1, ca_map := fmupd u ?e (ca_map ?c),
        ca_recency := fmupd (ca_tick ?c + 1) u (ca_recency ?c), ca_bytes := ca_bytes ?c + length (en_data ?e)\<rparr>"
      using Some le by (cases c) (simp add: touch_def next_tick_def cache_remove_def fmupd_drop)
    then show ?thesis
      using indexed_insert [OF rm] b le Some by (simp add: cache_ok_def cache_remove_def)
  qed
qed

lemma get_ok:
  assumes "cache_ok c" and "ca_tick c \<noteq> - 1"
  shows "cache_ok (snd (get u w now c))"
proof -
  have "cache_ok (c'\<lparr>ca_hits := x\<rparr>) = cache_ok c'" "cache_ok (c'\<lparr>ca_misses := x\<rparr>) = cache_ok c'" for c' x
    by (simp_all add: cache_ok_def indexed_def)
  then show ?thesis
    using assms remove_ok touch_ok by (auto simp: get_def cache_lookup_def Let_def split: option.split)
qed

lemma get_faithful: "faithful h c \<Longrightarrow> faithful h (snd (get u w now c))"
  by (rule faithful_sub)
    (auto simp: get_def cache_lookup_def Let_def touch_map split: option.splits if_splits)

lemma reconfigure_ok:
  assumes "cache_ok c" and "reconfigure max_bytes ttl c = Some c'"
  shows "cache_ok c'" and "\<And>u e. fmlookup (ca_map c') u = Some e \<Longrightarrow> fmlookup (ca_map c) u = Some e"
proof -
  define c1 where "c1 = (case ttl of Some t \<Rightarrow> c\<lparr>ca_ttl := t\<rparr> | None \<Rightarrow> c)\<lparr>ca_max_bytes := max_bytes\<rparr>"
  have run: "(if max_bytes = 0 then Some (cache_clear c1) else make_room 0 c1) = Some c'"
    using assms(2) unfolding reconfigure_def c1_def Let_def .
  have ix: "indexed c1" and m: "ca_map c1 = ca_map c"
    using assms(1) by (auto simp: c1_def cache_ok_def indexed_def split: option.split)
  have "cache_ok c' \<and> (\<forall>u e. fmlookup (ca_map c') u = Some e \<longrightarrow> fmlookup (ca_map c) u = Some e)"
  proof (cases "max_bytes = 0")
    case True
    then show ?thesis
      using run clear_ok by (auto simp: cache_clear_def)
  next
    case False
    then have r: "make_room 0 c1 = Some c'"
      using run by simp
    have "indexed c'" "ca_bytes c' + 0 \<le> ca_max_bytes c'" "evicted c1 c'"
      by (rule make_room_spec [OF ix _ r]; simp)+
    then show ?thesis
      unfolding cache_ok_def evicted_def m by auto
  qed
  then show "cache_ok c'" "\<And>u e. fmlookup (ca_map c') u = Some e \<Longrightarrow> fmlookup (ca_map c) u = Some e"
    by blast+
qed

lemma run_ok: "cache_run c h \<Longrightarrow> cache_ok c \<and> faithful h c"
proof (induction rule: cache_run.induct)
  case (run_new max_bytes ttl)
  then show ?case
    by (simp add: cache_ok_def cache_new_def indexed_def fmsum_def faithful_def)
next
  case (run_put c h u w data now c')
  then show ?case
    using put_ok put_faithful by blast
next
  case (run_get c h u w now)
  then show ?case
    using get_ok get_faithful by blast
next
  case (run_invalidate c h u)
  then show ?case
    using remove_ok by (auto simp: invalidate_def faithful_def split: if_splits)
next
  case (run_clear c h)
  then show ?case
    using clear_ok by (simp add: faithful_def cache_clear_def)
next
  case (run_reconfigure c h max_bytes ttl c')
  then show ?case
    using reconfigure_ok(1) faithful_sub [of h c c'] reconfigure_ok(2) [of c max_bytes ttl c'] by blast
next
  case (run_set_ttl c h ttl)
  then show ?case
    by (simp add: set_ttl_def cache_ok_def indexed_def faithful_def)
qed

section \<open>Properties\<close>

lemma sample_cache:
  obtains c where "cache_run c [(7, 3, [1, 2], 10)]" and "put 7 3 [1, 2] 10 (cache_new 64 100) = Some c"
    and "ca_tick c \<noteq> - 1" and "ca_ttl c = 100" and "ca_max_bytes c = 64"
proof -
  have "make_room (Suc (Suc 0)) (cache_new 64 100) = Some (cache_new 64 100)"
    by (subst make_room.simps) (simp add: cache_new_def)
  then obtain c where c: "put 7 3 [1, 2] 10 (cache_new 64 100) = Some c" "ca_tick c = 1" "ca_ttl c = 100" "ca_max_bytes c = 64"
    by (simp add: put_def cache_remove_def cache_new_def next_tick_def)
  have "cache_run c [(7, 3, [1, 2], 10)]"
    by (rule cache_run.run_put [OF cache_run.run_new _ c(1)]) (simp add: cache_new_def)
  then show thesis
    using c by (intro that) simp_all
qed

text \<open>C9: A hit is never stale. Whatever operations came before, if a lookup of a unit at a write sequence
  returns plaintext, then it is the plaintext of the last insertion for exactly that unit and write
  sequence, and that insertion is younger than the time to live.\<close>

theorem cache_get_sound:
  assumes "cache_run c h" and "fst (get u w now c) = Some data"
  shows "\<exists>t. last_put h u w = Some (u, w, data, t) \<and> now - t < ca_ttl c"
  using run_ok [OF assms(1)] assms(2)
  by (auto simp: get_def cache_lookup_def Let_def faithful_def split: option.splits if_splits)

theorem cache_get_sound_witness:
  "\<exists>c data t. cache_run c [(7, 3, [1, 2], 10)] \<and> fst (get 7 3 20 c) = Some data \<and>
     last_put [(7, 3, [1, 2], 10)] 7 3 = Some (7, 3, data, t) \<and> 20 - t < ca_ttl c"
proof -
  obtain c where c: "cache_run c [(7, 3, [1, 2], 10)]" "put 7 3 [1, 2] 10 (cache_new 64 100) = Some c" "ca_ttl c = 100"
    by (rule sample_cache)
  have "make_room (Suc (Suc 0)) (cache_new 64 100) = Some (cache_new 64 100)"
    by (subst make_room.simps) (simp add: cache_new_def)
  then have hit: "fst (get 7 3 20 c) = Some [1, 2]"
    using c(2) by (auto simp: put_def cache_remove_def cache_new_def next_tick_def get_def cache_lookup_def Let_def)
  show ?thesis
    using c(1) hit cache_get_sound [OF c(1) hit] by blast
qed

text \<open>C11: The cache stays within its budget. After any operations the byte count is the total size of the
  cached plaintext and does not exceed the configured limit, also right after the limit was lowered.\<close>

theorem cache_bounded:
  assumes "cache_run c h"
  shows "ca_bytes c = (\<Sum>u \<in> fset (fmdom (ca_map c)). length (en_data (the (fmlookup (ca_map c) u)))) \<and>
    ca_bytes c \<le> ca_max_bytes c"
  using run_ok [OF assms] by (simp add: cache_ok_def indexed_def fmsum_def entry_bytes_def)

theorem cache_bounded_witness: "\<exists>c. cache_run c [(7, 3, [1, 2], 10)] \<and> ca_bytes c \<le> ca_max_bytes c"
  using sample_cache cache_bounded by metis

text \<open>C10: Every operation returns. The eviction loop has no bound of its own; after any operations it
  ends, so an insertion and a resize always return, and they evict only entries that were used less
  recently than every entry they keep.\<close>

theorem cache_operations_return:
  assumes "cache_run c h"
  shows "(\<exists>c'. put u w data now c = Some c') \<and> (\<exists>c'. reconfigure max_bytes ttl c = Some c') \<and>
    (need \<le> ca_max_bytes c \<longrightarrow> (\<exists>c'. make_room need c = Some c' \<and> ca_bytes c' + need \<le> ca_max_bytes c \<and> evicted c c'))"
proof -
  have ok: "cache_ok c" and ix: "indexed c"
    using run_ok [OF assms] by (simp_all add: cache_ok_def)
  have "\<exists>c'. put u w data now c = Some c'"
    using make_room_returns [OF remove_indexed(1) [OF ix], of "length data" u]
    by (auto simp: put_def Let_def not_less split: option.split)
  moreover have "\<exists>c'. reconfigure max_bytes ttl c = Some c'"
  proof -
    have "indexed ((case ttl of Some t \<Rightarrow> c\<lparr>ca_ttl := t\<rparr> | None \<Rightarrow> c)\<lparr>ca_max_bytes := max_bytes\<rparr>)"
      using ix by (auto simp: indexed_def split: option.split)
    from make_room_returns [OF this, of 0] show ?thesis
      by (auto simp: reconfigure_def Let_def)
  qed
  moreover have "\<exists>c'. make_room need c = Some c' \<and> ca_bytes c' + need \<le> ca_max_bytes c \<and> evicted c c'"
    if "need \<le> ca_max_bytes c"
    using make_room_returns [OF ix that] by (auto simp: evicted_def)
  ultimately show ?thesis
    by blast
qed

theorem cache_operations_return_witness:
  "\<exists>c c'. cache_run c [(7, 3, [1, 2], 10)] \<and> put 9 1 [5] 20 c = Some c' \<and> (\<exists>d. make_room 64 c = Some d \<and> evicted c d)"
proof -
  obtain c where c: "cache_run c [(7, 3, [1, 2], 10)]" "ca_max_bytes c = 64"
    by (rule sample_cache)
  show ?thesis
    using c cache_operations_return [OF c(1), of 9 1 "[5]" 20 0 None 64] by auto
qed

text \<open>C12: What was put is found. Insert a non-empty plaintext that fits, while no newer version of the unit
  is cached; a lookup of the same version within the time to live then hits and returns it.\<close>

theorem cache_put_get:
  assumes "cache_run c h" and "put u w data now c = Some c'" and "data \<noteq> []" and "length data \<le> ca_max_bytes c"
    and "\<And>e. fmlookup (ca_map c) u = Some e \<Longrightarrow> en_write_sequence e \<le> w" and "now' - now < ca_ttl c"
  shows "fst (get u w now' c') = Some data"
proof -
  have "cache_ok c"
    using run_ok [OF assms(1)] by simp
  from this assms(2) show ?thesis
  proof (cases rule: put_cases)
    case (newer e)
    then show ?thesis
      using assms(5) by force
  next
    case rejected
    then show ?thesis
      using assms(3,4) by simp
  next
    case (stored c1)
    have "ca_ttl c1 = ca_ttl c"
      using stored(2) by (simp add: evicted_def)
    then show ?thesis
      using assms(6) unfolding stored(5) by (simp add: get_def cache_lookup_def Let_def)
  qed
qed

theorem cache_put_get_witness:
  "\<exists>c. put 7 3 [1, 2] 10 (cache_new 64 100) = Some c \<and> fst (get 7 3 20 c) = Some [1, 2]"
proof -
  obtain c where c: "put 7 3 [1, 2] 10 (cache_new 64 100) = Some c"
    by (rule sample_cache)
  show ?thesis
    using c cache_put_get [OF cache_run.run_new c, of 20] by (auto simp: cache_new_def)
qed

end
