(* ===== verification/Endpoint_Limits.thy ===== *)
theory Endpoint_Limits
  imports Prelude
begin

text \<open>
  The size budget of endpoint names in a control response (\<open>maki-format/src/endpoint_limits.rs\<close>), with
  the checked arithmetic of the source on \<open>usize\<close> as 64-bit words, against the sum it is meant to
  bound, in unbounded arithmetic and with the JSON escaping written out.
\<close>

definition CONTROL_ENDPOINT_BUDGET :: u64 where "CONTROL_ENDPOINT_BUDGET = 48 * 1024"
definition ENDPOINT_FIXED_BYTES :: u64 where "ENDPOINT_FIXED_BYTES = 384"
definition NAME_OCCURRENCES :: u64 where "NAME_OCCURRENCES = 4"

definition encoded_byte :: "byte \<Rightarrow> u64" where
  "encoded_byte b =
     (if b \<in> {0x22, 0x5c, 0x08, 0x0c, 0x0a, 0x0d, 0x09} then 2
      else if b \<le> 0x1f then 6 else 1)"

fun encoded_name :: "u64 \<Rightarrow> bytes \<Rightarrow> u64 option" where
  "encoded_name acc [] = Some acc"
| "encoded_name acc (b # bs) =
     Option.bind (checked_add acc (encoded_byte b)) (\<lambda>n.
       if CONTROL_ENDPOINT_BUDGET div NAME_OCCURRENCES < n then None else encoded_name n bs)"

fun fits_from :: "u64 \<Rightarrow> bytes list \<Rightarrow> bool" where
  "fits_from used [] = True"
| "fits_from used (name # names) =
     (case Option.bind (encoded_name 2 name) (\<lambda>n.
           Option.bind (checked_mul n NAME_OCCURRENCES) (\<lambda>n4.
           Option.bind (checked_add n4 ENDPOINT_FIXED_BYTES) (checked_add used))) of
        None \<Rightarrow> False
      | Some next_used \<Rightarrow>
          if CONTROL_ENDPOINT_BUDGET < next_used then False else fits_from next_used names)"

definition fits_control_response :: "bytes list \<Rightarrow> bool" where
  "fits_control_response names = fits_from 0 names"

section \<open>The budget\<close>

text \<open>JSON text of a string: the two-character escapes, \<open>\u00XX\<close> for the other control characters, and
  every other byte as it is, between quotes.\<close>

definition hex_digit :: "nat \<Rightarrow> byte" where
  "hex_digit n = (if n < 10 then of_nat (48 + n) else of_nat (87 + n))"

definition json_escape :: "byte \<Rightarrow> bytes" where
  "json_escape b =
     (if b = 0x22 then [0x5c, 0x22] else if b = 0x5c then [0x5c, 0x5c]
      else if b = 0x08 then [0x5c, 0x62] else if b = 0x0c then [0x5c, 0x66]
      else if b = 0x0a then [0x5c, 0x6e] else if b = 0x0d then [0x5c, 0x72]
      else if b = 0x09 then [0x5c, 0x74]
      else if b < 0x20 then [0x5c, 0x75, 0x30, 0x30, hex_digit (unat b div 16), hex_digit (unat b mod 16)]
      else [b])"

definition json_string :: "bytes \<Rightarrow> bytes" where
  "json_string name = 0x22 # concat (map json_escape name) @ [0x22]"

lemma length_json_escape: "length (json_escape b) = unat (encoded_byte b)"
proof -
  have "b < 0x20 \<longleftrightarrow> b \<le> 0x1f"
    by (auto simp: word_le_nat_alt word_less_nat_alt)
  then show ?thesis
    by (simp add: json_escape_def encoded_byte_def)
qed

lemma length_json_string:
  "length (json_string name) = 2 + sum_list (map (\<lambda>b. unat (encoded_byte b)) name)"
  by (simp add: json_string_def length_concat comp_def length_json_escape)

lemma unat_encoded_byte_le: "unat (encoded_byte b) \<le> 6"
  by (simp add: encoded_byte_def)

lemma encoded_name_spec:
  assumes "unat acc \<le> 12288"
  shows "encoded_name acc name =
    (if unat acc + sum_list (map (\<lambda>b. unat (encoded_byte b)) name) \<le> 12288
     then Some (of_nat (unat acc + sum_list (map (\<lambda>b. unat (encoded_byte b)) name))) else None)"
  using assms
proof (induction name arbitrary: acc)
  case (Cons b bs)
  have sum: "unat (acc + encoded_byte b) = unat acc + unat (encoded_byte b)"
    using Cons.prems unat_encoded_byte_le [of b] by (simp add: unat_word_ariths)
  have add: "checked_add acc (encoded_byte b) = Some (acc + encoded_byte b)"
    using Cons.prems unat_encoded_byte_le [of b] by (simp add: checked_add_def)
  have "CONTROL_ENDPOINT_BUDGET div NAME_OCCURRENCES < acc + encoded_byte b
      \<longleftrightarrow> 12288 < unat acc + unat (encoded_byte b)"
    by (simp add: CONTROL_ENDPOINT_BUDGET_def NAME_OCCURRENCES_def word_less_nat_alt sum)
  then show ?case
    using Cons.IH [of "acc + encoded_byte b"] by (simp add: add sum add.assoc)
qed simp

definition endpoint_cost :: "bytes \<Rightarrow> nat" where
  "endpoint_cost name = 4 * length (json_string name) + 384"

lemma fits_from_spec:
  assumes "unat used \<le> 49152"
  shows "fits_from used names \<longleftrightarrow> unat used + sum_list (map endpoint_cost names) \<le> 49152"
  using assms
proof (induction names arbitrary: used)
  case (Cons name names)
  let ?len = "length (json_string name)"
  have spec: "encoded_name 2 name = (if ?len \<le> 12288 then Some (of_nat ?len) else None)"
    using encoded_name_spec [of 2 name] by (simp add: length_json_string)
  show ?case
  proof (cases "?len \<le> 12288")
    case True
    have len: "unat (of_nat ?len :: u64) = ?len"
      using True by (simp add: unat_of_nat)
    let ?n4 = "of_nat ?len * NAME_OCCURRENCES" let ?e = "?n4 + ENDPOINT_FIXED_BYTES"
    have n4: "checked_mul (of_nat ?len) NAME_OCCURRENCES = Some ?n4" "unat ?n4 = 4 * ?len"
      using True len by (simp_all add: checked_mul_def NAME_OCCURRENCES_def unat_word_ariths)
    have e: "checked_add ?n4 ENDPOINT_FIXED_BYTES = Some ?e" "unat ?e = endpoint_cost name"
      using True n4 by (simp_all add: checked_add_def ENDPOINT_FIXED_BYTES_def unat_word_ariths endpoint_cost_def)
    have u: "checked_add used ?e = Some (used + ?e)" "unat (used + ?e) = unat used + endpoint_cost name"
      using True Cons.prems e by (simp_all add: checked_add_def unat_word_ariths endpoint_cost_def)
    have "CONTROL_ENDPOINT_BUDGET < used + ?e \<longleftrightarrow> 49152 < unat used + endpoint_cost name"
      by (simp add: CONTROL_ENDPOINT_BUDGET_def word_less_nat_alt u(2))
    then show ?thesis
      using True Cons.IH [of "used + ?e"] by (auto simp: spec n4(1) e(1) u add.assoc)
  qed (simp add: spec endpoint_cost_def)
qed simp

text \<open>C27: The budget check is exact and its arithmetic never overflows: a list of endpoint names is
  accepted if and only if four times the JSON text of each name plus the fixed bytes of each row sum
  up to at most 48 KiB. The early exit on a single long name changes no answer.\<close>

theorem fits_control_response_exact:
  "fits_control_response names \<longleftrightarrow>
     sum_list (map (\<lambda>name. 4 * length (json_string name) + 384) names) \<le> 48 * 1024"
  using fits_from_spec [of 0 names] by (simp add: fits_control_response_def endpoint_cost_def [abs_def])

end
