(* ===== verification/Substring.thy ===== *)
theory Substring
  imports Prelude
begin

text \<open>
  The substring search of \<open>maki-crypto/src/checked.rs\<close> that keeps a provider from storing plaintext
  inside its answer. \<open>contains_plaintext\<close> is the Knuth--Morris--Pratt automaton of the source: the
  table of borders, then one pass over the haystack, both through the same inner loop. The byte
  comparison is the closure the source injects, a function over a state of its own, so that work can
  be counted. An index out of range (a panic in Rust) and a loop that does not end are the value
  \<open>None\<close>; the theorems show that neither happens, that the answer is the mathematical one, and
  that the number of comparisons is linear.
\<close>

section \<open>The search\<close>

type_synonym 'c compare = "'c \<Rightarrow> byte \<Rightarrow> byte \<Rightarrow> bool \<times> 'c"

definition at :: "'a list \<Rightarrow> nat \<Rightarrow> 'a option" where
  "at xs i = (if i < length xs then Some (xs ! i) else None)"

lemma at_simps [simp]: "i < length xs \<Longrightarrow> at xs i = Some (xs ! i)"
  by (simp add: at_def)

partial_function (option) kmp_step ::
  "'c compare \<Rightarrow> bytes \<Rightarrow> nat list \<Rightarrow> byte \<Rightarrow> nat \<Rightarrow> 'c \<Rightarrow> (nat \<times> 'c) option" where
  "kmp_step equal needle pre b matched c =
     Option.bind (at needle matched) (\<lambda>x.
       (case equal c b x of (same, c') \<Rightarrow>
         if same then Some (matched + 1, c')
         else if matched = 0 then Some (matched, c')
         else Option.bind (at pre (matched - 1)) (\<lambda>m. kmp_step equal needle pre b m c')))"

declare kmp_step.simps [code]

fun kmp_table ::
  "'c compare \<Rightarrow> bytes \<Rightarrow> nat list \<Rightarrow> nat list \<Rightarrow> nat \<Rightarrow> 'c \<Rightarrow> (nat list \<times> 'c) option" where
  "kmp_table equal needle [] pre matched c = Some (pre, c)"
| "kmp_table equal needle (i # is) pre matched c =
     Option.bind (at needle i) (\<lambda>b.
       Option.bind (kmp_step equal needle pre b matched c) (\<lambda>(m, c').
         kmp_table equal needle is (pre[i := m]) m c'))"

fun kmp_scan ::
  "'c compare \<Rightarrow> bytes \<Rightarrow> nat list \<Rightarrow> bytes \<Rightarrow> nat \<Rightarrow> 'c \<Rightarrow> (bool \<times> 'c) option" where
  "kmp_scan equal needle pre [] matched c = Some (False, c)"
| "kmp_scan equal needle pre (b # bs) matched c =
     Option.bind (kmp_step equal needle pre b matched c) (\<lambda>(m, c').
       if m = length needle then Some (True, c') else kmp_scan equal needle pre bs m c')"

definition contains_plaintext ::
  "'c compare \<Rightarrow> bytes \<Rightarrow> bytes \<Rightarrow> 'c \<Rightarrow> (bool \<times> 'c) option" where
  "contains_plaintext equal haystack needle c =
     (if needle = [] then Some (True, c)
      else if length haystack < length needle then Some (False, c)
      else Option.bind
        (kmp_table equal needle [1..<length needle] (replicate (length needle) 0) 0 c)
        (\<lambda>(pre, c'). kmp_scan equal needle pre haystack 0 c'))"

section \<open>Borders\<close>

text \<open>\<open>sfx w t j\<close>: the first \<open>j\<close> bytes of the needle end the text read so far. \<open>best\<close> is the
  longest such prefix, the number the automaton carries.\<close>

definition sfx :: "'a list \<Rightarrow> 'a list \<Rightarrow> nat \<Rightarrow> bool" where
  "sfx w t j \<longleftrightarrow> j \<le> length w \<and> suffix (take j w) t"

definition best :: "'a list \<Rightarrow> 'a list \<Rightarrow> nat \<Rightarrow> bool" where
  "best w t m \<longleftrightarrow> sfx w t m \<and> (\<forall>j. sfx w t j \<longrightarrow> j \<le> m)"

definition borders :: "'a list \<Rightarrow> nat list \<Rightarrow> nat \<Rightarrow> bool" where
  "borders w pre n \<longleftrightarrow> length pre = length w \<and> (\<forall>k<n. best w (take k (tl w)) (pre ! k))"

lemma sfx_0 [simp]: "sfx w t 0"
  by (simp add: sfx_def)

lemma sfx_length: "sfx w t j \<Longrightarrow> j \<le> length t"
  by (auto simp: sfx_def dest: suffix_length_le)

lemma sfx_snoc:
  "j < length w \<Longrightarrow> sfx w (t @ [b]) (Suc j) \<longleftrightarrow> sfx w t j \<and> w ! j = b"
  by (auto simp: sfx_def take_Suc_conv_app_nth)

lemma sfx_snoc_lt: "sfx w (t @ [b]) (Suc j) \<Longrightarrow> j < length w"
  by (simp add: sfx_def)

lemma best_Nil [simp]: "best w [] m \<longleftrightarrow> m = 0"
  by (auto simp: best_def sfx_def)

lemma best_length: "best w t m \<Longrightarrow> m \<le> length t \<and> m \<le> length w"
  by (auto simp: best_def sfx_def dest: suffix_length_le)

lemma tl_take: "tl (take m w) = take (m - 1) (tl w)"
  by (cases w; cases m) auto

lemma sfx_border:
  assumes "sfx w t m" and "j < m"
  shows "sfx w t j \<longleftrightarrow> sfx w (take (m - 1) (tl w)) j"
proof -
  have suf: "suffix (take m w) t" and len: "length (take m w) = m"
    using assms(1) by (auto simp: sfx_def)
  have short: "length (take j w) \<le> length (tl (take m w))"
    using assms(2) len by simp
  have tl: "suffix (tl (take m w)) t"
    by (rule suffix_order.trans [OF suffix_tl suf])
  have "suffix (take j w) t \<longleftrightarrow> suffix (take j w) (tl (take m w))"
    using suffix_length_suffix [OF _ tl short] suffix_order.trans [OF _ tl] by blast
  then show ?thesis
    using assms by (simp add: sfx_def tl_take)
qed

section \<open>The inner loop\<close>

text \<open>A comparison that is equality and updates its state by \<open>tick\<close>: the identity on the unit state
  is the closure of the production code, the successor on a counter is the one that measures work.
  \<open>ticks\<close> says that \<open>cost\<close> grows by at most one with each comparison.\<close>

definition compare_eq :: "('c \<Rightarrow> 'c) \<Rightarrow> 'c compare" where
  "compare_eq tick c a b = (a = b, tick c)"

definition ticks :: "('c \<Rightarrow> 'c) \<Rightarrow> ('c \<Rightarrow> nat) \<Rightarrow> bool" where
  "ticks tick cost \<longleftrightarrow> (\<forall>c. cost (tick c) \<le> Suc (cost c))"

lemma kmp_step_best:
  assumes tick: "ticks tick cost" and "m < length w" and "sfx w t m" and "borders w pre m"
    and "\<And>j. sfx w (t @ [b]) (Suc j) \<Longrightarrow> j \<le> m"
  shows "\<exists>m' c'. kmp_step (compare_eq tick) w pre b m c = Some (m', c') \<and> best w (t @ [b]) m'
    \<and> cost c' + m' \<le> cost c + m + 2"
  using assms(2-)
proof (induction m arbitrary: c rule: less_induct)
  case (less m)
  note len = less.prems(1) and sfx = less.prems(2) and tab = less.prems(3) and cand = less.prems(4)
  have tc: "cost (tick c) \<le> Suc (cost c)" for c
    using tick by (simp add: ticks_def)
  have bounded: "j \<le> Suc m" if "sfx w (t @ [b]) j" for j
    using that cand [of "j - 1"] by (cases j) auto
  show ?case
  proof (cases "b = w ! m")
    case True
    then have "best w (t @ [b]) (Suc m)"
      using sfx len bounded by (auto simp: best_def sfx_snoc)
    with True len tc show ?thesis
      by (subst kmp_step.simps) (simp add: compare_eq_def)
  next
    case False
    note ne = False
    have below: "j < m \<and> sfx w t j" if "sfx w (t @ [b]) (Suc j)" for j
      using that ne cand [OF that] sfx_snoc [OF sfx_snoc_lt [OF that], of t b]
      by (cases "j = m") auto
    show ?thesis
    proof (cases "m = 0")
      case True
      have "best w (t @ [b]) 0"
        unfolding best_def
      proof (intro conjI allI impI)
        fix j assume "sfx w (t @ [b]) j"
        then show "j \<le> 0" using below [of "j - 1"] True by (cases j) auto
      qed simp
      with True ne len le_SucI [OF tc] show ?thesis
        by (subst kmp_step.simps) (simp add: compare_eq_def)
    next
      case False
      let ?p = "pre ! (m - 1)"
      have plen: "m - 1 < length pre" and pbest: "best w (take (m - 1) (tl w)) ?p"
        using tab False len by (auto simp: borders_def)
      have p: "?p < m"
        using best_length [OF pbest] False by auto
      have "sfx w t ?p"
        using sfx_border [OF sfx p] pbest by (simp add: best_def)
      moreover have "j \<le> ?p" if "sfx w (t @ [b]) (Suc j)" for j
        using below [OF that] sfx_border [OF sfx, of j] pbest by (auto simp: best_def)
      moreover have "borders w pre ?p"
        using tab p by (simp add: borders_def)
      ultimately obtain m' c' where
        step: "kmp_step (compare_eq tick) w pre b ?p (tick c) = Some (m', c')"
        and m': "best w (t @ [b]) m'" and work: "cost c' + m' \<le> cost (tick c) + ?p + 2"
        using less.IH [OF p, of "tick c"] p len by fastforce
      have "kmp_step (compare_eq tick) w pre b m c = Some (m', c')"
        using step ne False len plen by (subst kmp_step.simps) (simp add: compare_eq_def)
      moreover have "cost c' + m' \<le> cost c + m + 2"
        using work p tc [of c] by simp
      ultimately show ?thesis using m' by blast
    qed
  qed
qed

lemma best_step:
  assumes tick: "ticks tick cost" and "best w t m" and "m < length w" and "borders w pre m"
  shows "\<exists>m' c'. kmp_step (compare_eq tick) w pre b m c = Some (m', c') \<and> best w (t @ [b]) m'
    \<and> cost c' + m' \<le> cost c + m + 2"
proof (rule kmp_step_best [OF tick])
  show "j \<le> m" if "sfx w (t @ [b]) (Suc j)" for j
    using that assms(2) sfx_snoc [OF sfx_snoc_lt [OF that], of t b] by (auto simp: best_def)
qed (use assms in \<open>auto simp: best_def\<close>)

section \<open>The table\<close>

lemma borders_update:
  assumes "borders w pre i" and "i < length w" and "best w (take i (tl w)) m"
  shows "borders w (pre[i := m]) (Suc i)"
  using assms by (auto simp: borders_def nth_list_update less_Suc_eq)

lemma kmp_table_borders:
  assumes tick: "ticks tick cost" and "0 < i" and "i \<le> length w" and "borders w pre i" and "best w (take (i - 1) (tl w)) m"
  shows "\<exists>pre' c'. kmp_table (compare_eq tick) w [i..<length w] pre m c = Some (pre', c')
    \<and> borders w pre' (length w) \<and> cost c' \<le> cost c + m + 2 * (length w - i)"
  using assms(2-)
proof (induction "length w - i" arbitrary: i pre m c)
  case 0
  then show ?case by simp
next
  case (Suc d)
  have i: "i < length w" using Suc.hyps(2) by simp
  have m: "m < i"
    using best_length [OF Suc.prems(4)] i Suc.prems(1) by auto
  have txt_eq: "take (i - 1) (tl w) @ [w ! i] = take i (tl w)"
    using i Suc.prems(1) take_Suc_conv_app_nth [of "i - 1" "tl w"] by (simp add: nth_tl)
  have "borders w pre m"
    using Suc.prems(3) m by (simp add: borders_def)
  then obtain m' c1 where step: "kmp_step (compare_eq tick) w pre (w ! i) m c = Some (m', c1)"
    and m': "best w (take i (tl w)) m'" and work: "cost c1 + m' \<le> cost c + m + 2"
    using best_step [OF tick Suc.prems(4), of pre "w ! i" c] m i txt_eq by force
  have "\<exists>pre' c'. kmp_table (compare_eq tick) w [Suc i..<length w] (pre[i := m']) m' c1 = Some (pre', c')
    \<and> borders w pre' (length w) \<and> cost c' \<le> cost c1 + m' + 2 * (length w - Suc i)"
    using Suc.hyps(2) i m' borders_update [OF Suc.prems(3) i m'] by (intro Suc.hyps(1)) auto
  then show ?case
    using step work i by (force simp: upt_conv_Cons)
qed

section \<open>The scan\<close>

lemma sublist_snoc_iff: "sublist w (t @ [b]) \<longleftrightarrow> sublist w t \<or> suffix w (t @ [b])"
  by (metis sublist_snoc)

lemma kmp_scan_correct:
  assumes tick: "ticks tick cost" and "borders w pre (length w)" and "best w t m" and "m < length w" and "\<not> sublist w t"
  shows "\<exists>c'. kmp_scan (compare_eq tick) w pre h m c = Some (sublist w (t @ h), c')
    \<and> cost c' \<le> cost c + m + 2 * length h"
  using assms(3-)
proof (induction h arbitrary: t m c)
  case Nil
  then show ?case by simp
next
  case (Cons b h)
  have "borders w pre m"
    using assms(2) Cons.prems(2) by (simp add: borders_def)
  then obtain m' c1 where step: "kmp_step (compare_eq tick) w pre b m c = Some (m', c1)"
    and m': "best w (t @ [b]) m'" and work: "cost c1 + m' \<le> cost c + m + 2"
    using best_step [OF tick Cons.prems(1,2), of pre b c] by blast
  show ?case
  proof (cases "m' = length w")
    case True
    then have "suffix w (t @ [b])"
      using m' by (simp add: best_def sfx_def)
    then have "sublist w ((t @ [b]) @ h)"
      by (meson sublist_append_rightI sublist_order.order.trans suffix_imp_sublist)
    with True step work show ?thesis by simp
  next
    case False
    then have lt: "m' < length w"
      using best_length [OF m'] by simp
    then have "\<not> suffix w (t @ [b])"
      using m' by (auto simp: best_def sfx_def dest: spec [of _ "length w"])
    then have "\<not> sublist w (t @ [b])"
      using Cons.prems(3) by (simp add: sublist_snoc_iff)
    then obtain c' where "kmp_scan (compare_eq tick) w pre h m' c1 = Some (sublist w ((t @ [b]) @ h), c')"
      and "cost c' \<le> cost c1 + m' + 2 * length h"
      using Cons.IH [OF m' lt, of c1] by blast
    with step work False show ?thesis by simp
  qed
qed

lemma contains_plaintext_ticks:
  assumes tick: "ticks tick cost"
  shows "\<exists>c'. contains_plaintext (compare_eq tick) haystack needle c = Some (sublist needle haystack, c')
    \<and> cost c' \<le> cost c + 2 * (length haystack + length needle)"
proof (cases "needle = [] \<or> length haystack < length needle")
  case True
  then show ?thesis
    by (auto simp: contains_plaintext_def dest: sublist_length_le)
next
  case False
  then have ne: "needle \<noteq> []" and len: "0 < length needle" by auto
  have "borders needle (replicate (length needle) 0) 1"
    using len by (simp add: borders_def)
  then obtain pre c1 where
    table: "kmp_table (compare_eq tick) needle [1..<length needle] (replicate (length needle) 0) 0 c
      = Some (pre, c1)"
    and ok: "borders needle pre (length needle)" and work1: "cost c1 \<le> cost c + 2 * (length needle - 1)"
    using kmp_table_borders [OF tick, of 1 needle "replicate (length needle) 0" 0 c] len by auto
  obtain c' where
    "kmp_scan (compare_eq tick) needle pre haystack 0 c1 = Some (sublist needle haystack, c')"
    and "cost c' \<le> cost c1 + 2 * length haystack"
    using kmp_scan_correct [OF tick ok, of "[]" 0 haystack c1] ne len by auto
  with table work1 False show ?thesis
    by (auto simp: contains_plaintext_def)
qed

text \<open>The closure of the production code, \<open>|a, b| a == b\<close>, has no state.\<close>

definition plain_eq :: "unit compare" where
  "plain_eq = compare_eq id"

lemma contains_plaintext_plain:
  "contains_plaintext plain_eq haystack needle () = Some (sublist needle haystack, ())"
  using contains_plaintext_ticks [of id "\<lambda>_. 0" haystack needle "()"]
  by (simp add: plain_eq_def ticks_def)

text \<open>C22: The substring search always returns, never indexes out of range, finds the needle exactly
  when it occurs as a contiguous block of the haystack, and makes at most twice as many byte
  comparisons as the two inputs have bytes.\<close>

theorem contains_plaintext_correct:
  "\<exists>work. contains_plaintext (compare_eq Suc) haystack needle 0 = Some (sublist needle haystack, work)
    \<and> work \<le> 2 * (length haystack + length needle)"
  using contains_plaintext_ticks [of Suc id haystack needle 0] by (simp add: ticks_def)

end
