(* ===== verification/Checked.thy ===== *)
theory Checked
  imports Substring Backing
begin

text \<open>
  What Maki accepts from a cryptographic provider (\<open>maki-crypto/src/types.rs\<close>, \<open>error.rs\<close>,
  \<open>provider.rs\<close> and \<open>checked.rs\<close>). A provider is a record of three operations over a state of its
  own, since remote endpoints may answer anything at any time; \<open>CheckedProvider\<close> wraps it. The
  texts of the error messages are values of a datatype that keeps what the source prints. The
  erasure of rejected buffers is a memory effect and has no counterpart here.
\<close>

section \<open>Types\<close>

record crypto_context =
  volume_uuid :: uuid
  format_version :: u32
  ctx_compatibility_id :: string

record plaintext_unit =
  pt_unit_index :: u64
  pt_data :: bytes

record ciphertext_unit =
  ct_unit_index :: u64
  ct_data :: bytes

datatype capability = Absent | Contractual | Verified

definition present :: "capability \<Rightarrow> bool" where
  "present c = (c \<noteq> Absent)"

fun capability_rank :: "capability \<Rightarrow> nat" where
  "capability_rank Absent = 0"
| "capability_rank Contractual = 1"
| "capability_rank Verified = 2"

definition weakest :: "capability \<Rightarrow> capability \<Rightarrow> capability" where
  "weakest a b = (if capability_rank b < capability_rank a then b else a)"

record batch_capability =
  supported :: bool
  max_items :: u32
  max_batch_bytes :: u64

record crypto_capabilities =
  provider_id :: string
  crypto_compatibility_id :: string
  supported_plaintext_sizes :: "u32 list"
  max_ciphertext_size :: u32
  stateless :: bool
  retry_safe :: bool
  batch :: batch_capability
  integrity :: capability
  context_binding :: capability
  replay_protection :: capability

definition capabilities_intersect ::
  "crypto_capabilities \<Rightarrow> crypto_capabilities \<Rightarrow> crypto_capabilities" where
  "capabilities_intersect a b = \<lparr>
     provider_id = provider_id a,
     crypto_compatibility_id = crypto_compatibility_id a,
     supported_plaintext_sizes =
       filter (\<lambda>n. n \<in> set (supported_plaintext_sizes b)) (supported_plaintext_sizes a),
     max_ciphertext_size = max (max_ciphertext_size a) (max_ciphertext_size b),
     stateless = (stateless a \<and> stateless b),
     retry_safe = (retry_safe a \<and> retry_safe b),
     batch = \<lparr>supported = (supported (batch a) \<and> supported (batch b)),
              max_items = min (max_items (batch a)) (max_items (batch b)),
              max_batch_bytes = min (max_batch_bytes (batch a)) (max_batch_bytes (batch b))\<rparr>,
     integrity = weakest (integrity a) (integrity b),
     context_binding = weakest (context_binding a) (context_binding b),
     replay_protection = weakest (replay_protection a) (replay_protection b)\<rparr>"

definition accepts_plaintext_size :: "crypto_capabilities \<Rightarrow> nat \<Rightarrow> bool" where
  "accepts_plaintext_size caps n =
     (n < 2 ^ 32 \<and> of_nat n \<in> set (supported_plaintext_sizes caps))"

section \<open>Errors\<close>

datatype error_class = Retryable | Throttled | NonRetryableRequest | EndpointFatal | ProviderFatal

datatype context_field = FormatVersion | CompatibilityId

datatype message =
    Text string
  | EncryptCount nat nat
  | EncryptIndex nat u64 u64
  | EncryptEmpty nat
  | EncryptOversize nat nat u32
  | EncryptEcho nat
  | DecryptCount nat nat
  | DecryptIndex nat u64 u64
  | DecryptSize nat nat
  | DecryptUnitSize u64 nat u32

datatype crypto_error =
    ErrRetryable message
  | ErrThrottled message
  | ErrNonRetryableRequest message
  | ErrEndpointFatal message
  | ErrProviderFatal message
  | ErrUnsupportedContext context_field
  | ErrIntegrity message
  | ErrContract message

fun crypto_error_class :: "crypto_error \<Rightarrow> error_class" where
  "crypto_error_class (ErrRetryable _) = Retryable"
| "crypto_error_class (ErrThrottled _) = Throttled"
| "crypto_error_class (ErrNonRetryableRequest _) = NonRetryableRequest"
| "crypto_error_class (ErrIntegrity _) = NonRetryableRequest"
| "crypto_error_class (ErrEndpointFatal _) = EndpointFatal"
| "crypto_error_class (ErrProviderFatal _) = ProviderFatal"
| "crypto_error_class (ErrUnsupportedContext _) = ProviderFatal"
| "crypto_error_class (ErrContract _) = ProviderFatal"

definition is_retryable :: "crypto_error \<Rightarrow> bool" where
  "is_retryable e = (crypto_error_class e \<in> {Retryable, Throttled})"

section \<open>Validation of one answer\<close>

text \<open>The search returns for every input (\<open>contains_plaintext_plain\<close>); the branch for \<open>None\<close> only
  makes the check total.\<close>

definition carries_plaintext :: "bytes \<Rightarrow> bytes \<Rightarrow> bool" where
  "carries_plaintext ciphertext plain =
     (plain \<noteq> [] \<and> (case contains_plaintext plain_eq ciphertext plain () of
        Some (found, _) \<Rightarrow> found | None \<Rightarrow> False))"

definition encrypt_item ::
  "crypto_capabilities \<Rightarrow> nat \<Rightarrow> plaintext_unit \<Rightarrow> ciphertext_unit \<Rightarrow> message option" where
  "encrypt_item caps i item ct =
     (if ct_unit_index ct \<noteq> pt_unit_index item
      then Some (EncryptIndex i (ct_unit_index ct) (pt_unit_index item))
      else if ct_data ct = [] then Some (EncryptEmpty i)
      else if unat (max_ciphertext_size caps) < length (ct_data ct)
      then Some (EncryptOversize i (length (ct_data ct)) (max_ciphertext_size caps))
      else if carries_plaintext (ct_data ct) (pt_data item) then Some (EncryptEcho i)
      else None)"

definition decrypt_item ::
  "crypto_capabilities \<Rightarrow> nat \<Rightarrow> ciphertext_unit \<Rightarrow> plaintext_unit \<Rightarrow> message option" where
  "decrypt_item caps i item pt =
     (if pt_unit_index pt \<noteq> ct_unit_index item
      then Some (DecryptIndex i (pt_unit_index pt) (ct_unit_index item))
      else if \<not> accepts_plaintext_size caps (length (pt_data pt))
      then Some (DecryptSize i (length (pt_data pt)))
      else None)"

fun check_items :: "(nat \<Rightarrow> 'a \<Rightarrow> 'b \<Rightarrow> message option) \<Rightarrow> nat \<Rightarrow> ('a \<times> 'b) list \<Rightarrow> crypto_error + unit" where
  "check_items f i [] = Inr ()"
| "check_items f i ((a, b) # rest) =
     (case f i a b of Some m \<Rightarrow> Inl (ErrContract m) | None \<Rightarrow> check_items f (Suc i) rest)"

definition validate_encrypt_result ::
  "plaintext_unit list \<Rightarrow> ciphertext_unit list \<Rightarrow> crypto_capabilities \<Rightarrow> crypto_error + unit" where
  "validate_encrypt_result items out caps =
     (if length out \<noteq> length items
      then Inl (ErrContract (EncryptCount (length out) (length items)))
      else check_items (encrypt_item caps) 0 (zip items out))"

definition validate_decrypt_result ::
  "ciphertext_unit list \<Rightarrow> plaintext_unit list \<Rightarrow> crypto_capabilities \<Rightarrow> crypto_error + unit" where
  "validate_decrypt_result items out caps =
     (if length out \<noteq> length items
      then Inl (ErrContract (DecryptCount (length out) (length items)))
      else check_items (decrypt_item caps) 0 (zip items out))"

definition validate_owned_encrypt_result ::
  "plaintext_unit list \<Rightarrow> ciphertext_unit list \<Rightarrow> crypto_capabilities
     \<Rightarrow> crypto_error + ciphertext_unit list" where
  "validate_owned_encrypt_result items out caps =
     res_bind (validate_encrypt_result items out caps) (\<lambda>_. Inr out)"

section \<open>The checked provider\<close>

record 's crypto_provider =
  p_capabilities :: "('s, crypto_error, crypto_capabilities) io"
  p_encrypt_batch :: "crypto_context \<Rightarrow> plaintext_unit list \<Rightarrow> ('s, crypto_error, ciphertext_unit list) io"
  p_decrypt_batch :: "crypto_context \<Rightarrow> ciphertext_unit list \<Rightarrow> ('s, crypto_error, plaintext_unit list) io"

text \<open>The state of the wrapper: the provider's own, and the capabilities once they are known.\<close>

record 's checked_provider =
  inner :: 's
  caps_cell :: "crypto_capabilities option"
  unit_size :: "u32 option"

definition checked_new :: "'s \<Rightarrow> 's checked_provider" where
  "checked_new s = \<lparr>inner = s, caps_cell = None, unit_size = None\<rparr>"

definition checked_pinned :: "'s \<Rightarrow> u32 \<Rightarrow> 's checked_provider" where
  "checked_pinned s n = \<lparr>inner = s, caps_cell = None, unit_size = Some n\<rparr>"

definition on_inner :: "('s, 'e, 'a) io \<Rightarrow> ('s checked_provider, 'e, 'a) io" where
  "on_inner m p = (case m (inner p) of (r, s) \<Rightarrow> (r, p\<lparr>inner := s\<rparr>))"

definition checked_caps ::
  "'s crypto_provider \<Rightarrow> ('s checked_provider, crypto_error, crypto_capabilities) io" where
  "checked_caps P p =
     (case caps_cell p of
        Some caps \<Rightarrow> (Inr caps, p)
      | None \<Rightarrow>
          (case on_inner (p_capabilities P) p of
             (Inl e, p') \<Rightarrow> (Inl e, p')
           | (Inr caps, p') \<Rightarrow> (Inr caps, p'\<lparr>caps_cell := Some caps\<rparr>)))"

definition checked_encrypt_batch ::
  "'s crypto_provider \<Rightarrow> crypto_context \<Rightarrow> plaintext_unit list
     \<Rightarrow> ('s checked_provider, crypto_error, ciphertext_unit list) io" where
  "checked_encrypt_batch P context items =
     io_bind (checked_caps P) (\<lambda>caps.
     io_bind (on_inner (p_encrypt_batch P context items)) (\<lambda>out p.
       (validate_owned_encrypt_result items out caps, p)))"

definition pin_unit_size ::
  "u32 option \<Rightarrow> plaintext_unit list \<Rightarrow> crypto_error + plaintext_unit list" where
  "pin_unit_size pinned out =
     (case pinned of
        None \<Rightarrow> Inr out
      | Some n \<Rightarrow>
          (case find (\<lambda>pt. length (pt_data pt) \<noteq> unat n) out of
             Some pt \<Rightarrow> Inl (ErrContract (DecryptUnitSize (pt_unit_index pt) (length (pt_data pt)) n))
           | None \<Rightarrow> Inr out))"

definition checked_decrypt_batch ::
  "'s crypto_provider \<Rightarrow> crypto_context \<Rightarrow> ciphertext_unit list
     \<Rightarrow> ('s checked_provider, crypto_error, plaintext_unit list) io" where
  "checked_decrypt_batch P context items =
     io_bind (checked_caps P) (\<lambda>caps.
     io_bind (on_inner (p_decrypt_batch P context items)) (\<lambda>out p.
       (res_bind (validate_decrypt_result items out caps) (\<lambda>_. pin_unit_size (unit_size p) out), p)))"

text \<open>\<open>CheckedProvider\<close> is itself a provider.\<close>

definition checked_provider_ops :: "'s crypto_provider \<Rightarrow> 's checked_provider crypto_provider" where
  "checked_provider_ops P = \<lparr>
     p_capabilities = checked_caps P,
     p_encrypt_batch = checked_encrypt_batch P,
     p_decrypt_batch = checked_decrypt_batch P\<rparr>"

section \<open>What an accepted answer satisfies\<close>

lemma carries_plaintext_iff [simp]:
  "carries_plaintext ciphertext plain \<longleftrightarrow> plain \<noteq> [] \<and> sublist plain ciphertext"
  by (simp add: carries_plaintext_def contains_plaintext_plain)

definition encrypt_ok :: "crypto_capabilities \<Rightarrow> plaintext_unit \<Rightarrow> ciphertext_unit \<Rightarrow> bool" where
  "encrypt_ok caps item ct \<longleftrightarrow>
     ct_unit_index ct = pt_unit_index item \<and> ct_data ct \<noteq> []
     \<and> length (ct_data ct) \<le> unat (max_ciphertext_size caps)
     \<and> \<not> (pt_data item \<noteq> [] \<and> sublist (pt_data item) (ct_data ct))"

definition decrypt_ok :: "crypto_capabilities \<Rightarrow> ciphertext_unit \<Rightarrow> plaintext_unit \<Rightarrow> bool" where
  "decrypt_ok caps item pt \<longleftrightarrow>
     pt_unit_index pt = ct_unit_index item \<and> accepts_plaintext_size caps (length (pt_data pt))"

lemma encrypt_item_None: "encrypt_item caps i item ct = None \<longleftrightarrow> encrypt_ok caps item ct"
  by (auto simp: encrypt_item_def encrypt_ok_def not_less)

lemma decrypt_item_None: "decrypt_item caps i item pt = None \<longleftrightarrow> decrypt_ok caps item pt"
  by (auto simp: decrypt_item_def decrypt_ok_def)

lemma check_items_verdict:
  assumes "\<And>i a b. f i a b = None \<longleftrightarrow> ok a b"
  shows "if \<forall>(a, b) \<in> set ps. ok a b then check_items f i ps = Inr ()
    else \<exists>m. check_items f i ps = Inl (ErrContract m)"
proof (induction ps arbitrary: i)
  case (Cons p ps)
  obtain a b where "p = (a, b)" by (cases p)
  then show ?case
    using Cons.IH [of "Suc i"] assms [of i a b] by (cases "f i a b") auto
qed simp

lemma list_all2_zip_iff:
  "list_all2 ok xs ys \<longleftrightarrow> length ys = length xs \<and> (\<forall>(a, b) \<in> set (zip xs ys). ok a b)"
  by (auto simp: list_all2_iff)

lemma validate_encrypt_verdict:
  "if list_all2 (encrypt_ok caps) items out then validate_encrypt_result items out caps = Inr ()
   else \<exists>m. validate_encrypt_result items out caps = Inl (ErrContract m)"
  using check_items_verdict [of "encrypt_item caps", OF encrypt_item_None, of "zip items out" 0]
  by (auto simp: validate_encrypt_result_def list_all2_zip_iff split: if_splits)

lemma validate_decrypt_verdict:
  "if list_all2 (decrypt_ok caps) items out then validate_decrypt_result items out caps = Inr ()
   else \<exists>m. validate_decrypt_result items out caps = Inl (ErrContract m)"
  using check_items_verdict [of "decrypt_item caps", OF decrypt_item_None, of "zip items out" 0]
  by (auto simp: validate_decrypt_result_def list_all2_zip_iff split: if_splits)

lemma pin_unit_size_verdict:
  "if \<forall>n pt. pinned = Some n \<and> pt \<in> set out \<longrightarrow> length (pt_data pt) = unat n
   then pin_unit_size pinned out = Inr out else \<exists>m. pin_unit_size pinned out = Inl (ErrContract m)"
  by (auto simp: pin_unit_size_def find_None_iff find_Some_iff split: option.split) (metis nth_mem)

lemma checked_caps_InrD:
  assumes "checked_caps P p = (Inr caps, p')"
  shows "caps_cell p' = Some caps \<and> unit_size p' = unit_size p \<and> (caps_cell p = None \<or> p' = p)"
  using assms by (auto simp: checked_caps_def on_inner_def split: option.splits prod.splits sum.splits)

lemma on_innerD:
  assumes "on_inner m p = (r, p')"
  shows "m (inner p) = (r, inner p') \<and> caps_cell p' = caps_cell p \<and> unit_size p' = unit_size p"
  using assms by (auto simp: on_inner_def split: prod.splits)

lemma checked_encrypt_cases:
  assumes "checked_caps P p = (Inr caps, q)"
    and "p_encrypt_batch P context items (inner q) = (answer, s)"
  shows "checked_encrypt_batch P context items p =
    (case answer of Inl e \<Rightarrow> Inl e | Inr out \<Rightarrow> validate_owned_encrypt_result items out caps,
     q\<lparr>inner := s\<rparr>)"
  using assms by (auto simp: checked_encrypt_batch_def on_inner_def io_bind_def split: sum.split)

lemma checked_decrypt_cases:
  assumes "checked_caps P p = (Inr caps, q)"
    and "p_decrypt_batch P context items (inner q) = (answer, s)"
  shows "checked_decrypt_batch P context items p =
    (case answer of Inl e \<Rightarrow> Inl e
       | Inr out \<Rightarrow> res_bind (validate_decrypt_result items out caps) (\<lambda>_. pin_unit_size (unit_size p) out),
     q\<lparr>inner := s\<rparr>)"
  using assms checked_caps_InrD [OF assms(1)]
  by (auto simp: checked_decrypt_batch_def on_inner_def io_bind_def split: sum.split)

text \<open>A small provider for the examples: it complements one bit of every byte.\<close>

definition sample_caps :: crypto_capabilities where
  "sample_caps = \<lparr>provider_id = ''p'', crypto_compatibility_id = ''c'', supported_plaintext_sizes = [2, 4],
     max_ciphertext_size = 3, stateless = True, retry_safe = True,
     batch = \<lparr>supported = False, max_items = 1, max_batch_bytes = - 1\<rparr>,
     integrity = Absent, context_binding = Contractual, replay_protection = Verified\<rparr>"

definition sample_provider :: "unit crypto_provider" where
  "sample_provider = \<lparr>
     p_capabilities = (\<lambda>s. (Inr sample_caps, s)),
     p_encrypt_batch = (\<lambda>context items s.
       (Inr (map (\<lambda>u. \<lparr>ct_unit_index = pt_unit_index u, ct_data = map (\<lambda>b. b + 128) (pt_data u)\<rparr>) items), s)),
     p_decrypt_batch = (\<lambda>context items s.
       (Inr (map (\<lambda>u. \<lparr>pt_unit_index = ct_unit_index u, pt_data = map (\<lambda>b. b + 128) (ct_data u)\<rparr>) items), s))\<rparr>"

definition sample_context :: crypto_context where
  "sample_context = \<lparr>volume_uuid = replicate 16 0, format_version = 1, ctx_compatibility_id = ''c''\<rparr>"

lemmas sample_eval =
  sample_provider_def sample_caps_def checked_encrypt_batch_def checked_decrypt_batch_def checked_caps_def
  checked_pinned_def on_inner_def io_bind_def validate_owned_encrypt_result_def
  validate_encrypt_result_def validate_decrypt_result_def encrypt_item_def decrypt_item_def
  accepts_plaintext_size_def pin_unit_size_def encrypt_ok_def decrypt_ok_def sublist_Cons_right

text \<open>C20: Whatever a provider answers, the checked provider hands an encrypted batch on exactly when it
  has one ciphertext per item, in order and under the same unit index, none of them empty, none longer
  than the declared maximum and none with its plaintext inside. Every other answer becomes the contract
  error, which is never retried, and the provider's own errors pass through. The capabilities are
  asked for once and stay the yardstick.\<close>

theorem checked_encrypt_contract:
  assumes "checked_caps P p = (Inr caps, q)"
    and "p_encrypt_batch P context items (inner q) = (answer, s)"
    and "checked_encrypt_batch P context items p = (r, p')"
  shows "caps_cell p' = Some caps
    \<and> (case answer of
         Inl e \<Rightarrow> r = Inl e
       | Inr out \<Rightarrow>
           if list_all2 (encrypt_ok caps) items out then r = Inr out
           else \<exists>m. r = Inl (ErrContract m) \<and> \<not> is_retryable (ErrContract m))"
proof -
  have r: "r = (case answer of Inl e \<Rightarrow> Inl e | Inr out \<Rightarrow> validate_owned_encrypt_result items out caps)"
    and p': "caps_cell p' = Some caps"
    using checked_encrypt_cases [OF assms(1,2)] assms(3) checked_caps_InrD [OF assms(1)] by auto
  show ?thesis
  proof (cases answer)
    case (Inr out)
    then show ?thesis
      using r p' validate_encrypt_verdict [of caps items out]
      by (auto simp: validate_owned_encrypt_result_def is_retryable_def split: if_splits)
  qed (use r p' in simp)
qed

theorem checked_encrypt_contract_witness:
  "list_all2 (encrypt_ok sample_caps) [\<lparr>pt_unit_index = 7, pt_data = [5, 6]\<rparr>]
     [\<lparr>ct_unit_index = 7, ct_data = [133, 134]\<rparr>]
   \<and> fst (checked_encrypt_batch sample_provider sample_context [\<lparr>pt_unit_index = 7, pt_data = [5, 6]\<rparr>]
        (checked_pinned () 2)) = Inr [\<lparr>ct_unit_index = 7, ct_data = [133, 134]\<rparr>]"
  using checked_encrypt_contract [of sample_provider "checked_pinned () 2" sample_caps
      "\<lparr>inner = (), caps_cell = Some sample_caps, unit_size = Some 2\<rparr>" sample_context
      "[\<lparr>pt_unit_index = 7, pt_data = [5, 6]\<rparr>]"
      "Inr [\<lparr>ct_unit_index = 7, ct_data = [133, 134]\<rparr>]" "()"
      "Inr [\<lparr>ct_unit_index = 7, ct_data = [133, 134]\<rparr>]"
      "\<lparr>inner = (), caps_cell = Some sample_caps, unit_size = Some 2\<rparr>"]
  by (simp add: sample_eval)

text \<open>C21: Likewise a decrypted batch is handed on exactly when every plaintext has the index of its
  ciphertext, a length the provider declares and, for a provider pinned to a volume, exactly the
  volume's unit size; every other answer is the contract error.\<close>

theorem checked_decrypt_contract:
  assumes "checked_caps P p = (Inr caps, q)"
    and "p_decrypt_batch P context items (inner q) = (answer, s)"
    and "checked_decrypt_batch P context items p = (r, p')"
  shows "caps_cell p' = Some caps
    \<and> (case answer of
         Inl e \<Rightarrow> r = Inl e
       | Inr out \<Rightarrow>
           if list_all2 (decrypt_ok caps) items out
             \<and> (\<forall>n pt. unit_size p = Some n \<and> pt \<in> set out \<longrightarrow> length (pt_data pt) = unat n)
           then r = Inr out
           else \<exists>m. r = Inl (ErrContract m) \<and> \<not> is_retryable (ErrContract m))"
proof -
  have r: "r = (case answer of Inl e \<Rightarrow> Inl e
       | Inr out \<Rightarrow> res_bind (validate_decrypt_result items out caps) (\<lambda>_. pin_unit_size (unit_size p) out))"
    and p': "caps_cell p' = Some caps"
    using checked_decrypt_cases [OF assms(1,2)] assms(3) checked_caps_InrD [OF assms(1)] by auto
  show ?thesis
  proof (cases answer)
    case (Inr out)
    show ?thesis
    proof (cases "list_all2 (decrypt_ok caps) items out")
      case True
      then have "r = pin_unit_size (unit_size p) out"
        using r Inr validate_decrypt_verdict [of caps items out] by simp
      then show ?thesis
        using p' Inr True pin_unit_size_verdict [of "unit_size p" out] by (auto simp: is_retryable_def)
    next
      case False
      then show ?thesis
        using r p' Inr validate_decrypt_verdict [of caps items out] by (auto simp: is_retryable_def)
    qed
  qed (use r p' in simp)
qed

theorem checked_decrypt_contract_witness:
  "fst (checked_decrypt_batch sample_provider sample_context
        [\<lparr>ct_unit_index = 7, ct_data = [133, 134, 135, 136]\<rparr>] (checked_pinned () 2))
     = Inl (ErrContract (DecryptUnitSize 7 4 2))
   \<and> \<not> is_retryable (ErrContract (DecryptUnitSize 7 4 2))"
  using checked_decrypt_contract [of sample_provider "checked_pinned () 2" sample_caps
      "\<lparr>inner = (), caps_cell = Some sample_caps, unit_size = Some 2\<rparr>" sample_context
      "[\<lparr>ct_unit_index = 7, ct_data = [133, 134, 135, 136]\<rparr>]"
      "Inr [\<lparr>pt_unit_index = 7, pt_data = [5, 6, 7, 8]\<rparr>]" "()"
      "Inl (ErrContract (DecryptUnitSize 7 4 2))"
      "\<lparr>inner = (), caps_cell = Some sample_caps, unit_size = Some 2\<rparr>"]
  by (simp add: sample_eval)

text \<open>Capability levels from absent to verified, and when a provider with capabilities \<open>p\<close> can stand
  behind a contract \<open>c\<close>: it takes every request \<open>c\<close> allows, stays within the bounds \<open>c\<close> sets for its
  answers, and delivers every guarantee \<open>c\<close> gives, at the level \<open>c\<close> gives it.\<close>

instantiation capability :: linorder
begin

fun less_eq_capability :: "capability \<Rightarrow> capability \<Rightarrow> bool" where
  "Absent \<le> d \<longleftrightarrow> True"
| "Contractual \<le> d \<longleftrightarrow> d \<noteq> Absent"
| "Verified \<le> d \<longleftrightarrow> d = Verified"

definition less_capability :: "capability \<Rightarrow> capability \<Rightarrow> bool" where
  "c < d \<longleftrightarrow> c \<le> d \<and> \<not> d \<le> (c :: capability)"

instance
proof
  fix x y z :: capability
  show "x < y \<longleftrightarrow> x \<le> y \<and> \<not> y \<le> x"
    by (rule less_capability_def)
  show "x \<le> x" "x \<le> y \<or> y \<le> x"
    by (cases x; cases y; simp)+
  show "x \<le> y \<Longrightarrow> y \<le> z \<Longrightarrow> x \<le> z"
    by (cases x; cases y; cases z) simp_all
  show "x \<le> y \<Longrightarrow> y \<le> x \<Longrightarrow> x = y"
    by (cases x; cases y) simp_all
qed

end

definition honours :: "crypto_capabilities \<Rightarrow> crypto_capabilities \<Rightarrow> bool" where
  "honours p c \<longleftrightarrow>
     (\<forall>n. accepts_plaintext_size c n \<longrightarrow> accepts_plaintext_size p n) \<and>
     max_ciphertext_size p \<le> max_ciphertext_size c \<and>
     (stateless c \<longrightarrow> stateless p) \<and> (retry_safe c \<longrightarrow> retry_safe p) \<and>
     (supported (batch c) \<longrightarrow> supported (batch p)) \<and>
     max_items (batch c) \<le> max_items (batch p) \<and> max_batch_bytes (batch c) \<le> max_batch_bytes (batch p) \<and>
     integrity c \<le> integrity p \<and> context_binding c \<le> context_binding p \<and>
     replay_protection c \<le> replay_protection p"

lemma weakest_greatest: "c \<le> weakest x y \<longleftrightarrow> c \<le> x \<and> c \<le> y"
  by (cases x; cases y; cases c) (simp_all add: weakest_def)

lemma honours_intersect: "honours p (capabilities_intersect a b) \<Longrightarrow> list_all2 (encrypt_ok p) items out \<Longrightarrow>
    list_all2 (encrypt_ok (capabilities_intersect a b)) items out"
  by (erule list_all2_mono) (auto simp: encrypt_ok_def honours_def word_le_nat_alt)

text \<open>C23: The intersection of the capabilities of two interchangeable providers is the strongest
  contract that both can stand behind. Each of them honours it, in every field: accepted sizes, the
  ciphertext bound, statelessness, retry safety, batching and its limits, and the level of every
  security capability. Every contract that both honour is already honoured by a provider with the
  intersection, so nothing they share is given away. An answer that either member's own contract
  accepts is accepted under it, and the identity is that of the first member.\<close>

theorem capabilities_intersect_sound:
  "honours a (capabilities_intersect a b) \<and> honours b (capabilities_intersect a b) \<and>
   (\<forall>c. honours a c \<and> honours b c \<longrightarrow> honours (capabilities_intersect a b) c) \<and>
   (list_all2 (encrypt_ok a) items out \<or> list_all2 (encrypt_ok b) items out
      \<longrightarrow> validate_encrypt_result items out (capabilities_intersect a b) = Inr ()) \<and>
   provider_id (capabilities_intersect a b) = provider_id a \<and>
   crypto_compatibility_id (capabilities_intersect a b) = crypto_compatibility_id a"
proof -
  let ?i = "capabilities_intersect a b"
  have i: "honours a ?i" "honours b ?i"
    using weakest_greatest [THEN iffD1, OF order_refl]
    by (simp_all add: honours_def accepts_plaintext_size_def capabilities_intersect_def)
  have "honours ?i c" if "honours a c" "honours b c" for c
    using that by (auto simp: honours_def accepts_plaintext_size_def capabilities_intersect_def weakest_greatest)
  moreover have "validate_encrypt_result items out ?i = Inr ()"
    if "list_all2 (encrypt_ok a) items out \<or> list_all2 (encrypt_ok b) items out"
    using that i honours_intersect validate_encrypt_verdict [of ?i items out] by metis
  ultimately show ?thesis
    using i by (simp add: capabilities_intersect_def)
qed

theorem capabilities_intersect_sound_witness:
  "validate_encrypt_result [\<lparr>pt_unit_index = 7, pt_data = [5, 6]\<rparr>]
     [\<lparr>ct_unit_index = 7, ct_data = [133, 134]\<rparr>] (capabilities_intersect sample_caps sample_caps) = Inr () \<and>
   honours sample_caps sample_caps \<and> honours (capabilities_intersect sample_caps sample_caps) sample_caps"
proof -
  have "list_all2 (encrypt_ok sample_caps) [\<lparr>pt_unit_index = 7, pt_data = [5, 6]\<rparr>] [\<lparr>ct_unit_index = 7, ct_data = [133, 134]\<rparr>]"
    by (simp add: encrypt_ok_def sample_caps_def sublist_Cons_right)
  moreover have "honours sample_caps sample_caps"
    by (simp add: honours_def)
  ultimately show ?thesis
    using capabilities_intersect_sound [of sample_caps sample_caps "[\<lparr>pt_unit_index = 7, pt_data = [5, 6]\<rparr>]"
        "[\<lparr>ct_unit_index = 7, ct_data = [133, 134]\<rparr>]"] by blast
qed

end
