(* ===== verification/Breaker.thy ===== *)
theory Breaker
  imports Prelude
begin

text \<open>
  The circuit breaker of one provider endpoint (\<open>maki-crypto/src/breaker.rs\<close>). Every method takes the
  mutex once, so each is one function of the guarded \<open>Inner\<close>; the clock is the argument \<open>now\<close>.
  Durations are nanoseconds, saturating at \<open>Duration::MAX\<close>. A run of the breaker is a sequence of
  admissions and completions in any order and at any times, where a permit completes once: by its
  outcome, or by being dropped without one.
\<close>

section \<open>State\<close>

datatype circuit_state = Closed | Open | HalfOpen

record breaker_config =
  failure_threshold :: u32
  open_initial :: nat
  open_max :: nat
  half_open_max_requests :: u32
  success_threshold :: u32

record breaker =
  state :: circuit_state
  consecutive_failures :: u32
  open_until :: nat
  open_duration :: nat
  generation :: u64
  half_open_inflight :: u32
  half_open_successes :: u32

datatype verdict = Success | Failure | EndpointFatal

text \<open>\<open>Duration::MAX\<close> in nanoseconds, and the saturating operations of \<open>Duration\<close>.\<close>

definition DURATION_MAX :: nat where
  "DURATION_MAX = (2 ^ 64 - 1) * 1000000000 + 999999999"

definition duration_saturating_add :: "nat \<Rightarrow> nat \<Rightarrow> nat" where
  "duration_saturating_add a b = min (a + b) DURATION_MAX"

definition duration_saturating_mul :: "nat \<Rightarrow> nat \<Rightarrow> nat" where
  "duration_saturating_mul a n = min (a * n) DURATION_MAX"

definition breaker_config_default :: breaker_config where
  "breaker_config_default = \<lparr>failure_threshold = 8, open_initial = 1000000000,
     open_max = 30 * 1000000000, half_open_max_requests = 2, success_threshold = 2\<rparr>"

section \<open>Operations\<close>

definition breaker_new :: "breaker_config \<Rightarrow> breaker" where
  "breaker_new cfg = \<lparr>state = Closed, consecutive_failures = 0, open_until = 0,
     open_duration = open_initial cfg, generation = 0, half_open_inflight = 0, half_open_successes = 0\<rparr>"

definition next_admission_time :: "breaker_config \<Rightarrow> breaker \<Rightarrow> nat option" where
  "next_admission_time cfg b =
     (case state b of
        Closed \<Rightarrow> Some 0
      | Open \<Rightarrow> Some (open_until b)
      | HalfOpen \<Rightarrow> if half_open_inflight b < half_open_max_requests cfg then Some 0 else None)"

definition would_allow :: "breaker_config \<Rightarrow> nat \<Rightarrow> breaker \<Rightarrow> bool" where
  "would_allow cfg now b = (case next_admission_time cfg b of None \<Rightarrow> False | Some ready \<Rightarrow> ready \<le> now)"

definition admit :: "breaker_config \<Rightarrow> nat \<Rightarrow> breaker \<Rightarrow> bool \<times> breaker" where
  "admit cfg now b =
     (case state b of
        Closed \<Rightarrow> (True, b)
      | Open \<Rightarrow>
          if open_until b \<le> now
          then (True, b\<lparr>state := HalfOpen, generation := generation b + 1,
                         half_open_inflight := 1, half_open_successes := 0\<rparr>)
          else (False, b)
      | HalfOpen \<Rightarrow>
          if half_open_inflight b < half_open_max_requests cfg
          then (True, b\<lparr>half_open_inflight := half_open_inflight b + 1\<rparr>)
          else (False, b))"

text \<open>A permit is the generation it was issued in.\<close>

definition acquire :: "breaker_config \<Rightarrow> nat \<Rightarrow> breaker \<Rightarrow> u64 option \<times> breaker" where
  "acquire cfg now b =
     (case admit cfg now b of (ok, b') \<Rightarrow> (if ok then Some (generation b') else None, b'))"

definition release_probe :: "breaker \<Rightarrow> breaker" where
  "release_probe b =
     (if state b = HalfOpen
      then b\<lparr>half_open_inflight := saturating_sub (half_open_inflight b) 1\<rparr> else b)"

definition settle :: "breaker_config \<Rightarrow> nat \<Rightarrow> verdict option \<Rightarrow> breaker \<Rightarrow> breaker" where
  "settle cfg now outcome b =
     (case (state b, outcome) of
        (Closed, Some Success) \<Rightarrow> b\<lparr>consecutive_failures := 0\<rparr>
      | (HalfOpen, Some Success) \<Rightarrow>
          (let b = b\<lparr>half_open_successes := half_open_successes b + 1\<rparr> in
           if success_threshold cfg \<le> half_open_successes b
           then b\<lparr>state := Closed, generation := generation b + 1, consecutive_failures := 0,
                  open_duration := open_initial cfg\<rparr>
           else b)
      | (Closed, Some failure) \<Rightarrow>
          (let b = b\<lparr>consecutive_failures := consecutive_failures b + 1\<rparr> in
           if failure = EndpointFatal \<or> failure_threshold cfg \<le> consecutive_failures b
           then b\<lparr>state := Open, generation := generation b + 1,
                  open_until := duration_saturating_add now (open_duration b)\<rparr>
           else b)
      | (HalfOpen, Some _) \<Rightarrow>
          (let d = min (duration_saturating_mul (open_duration b) 2) (open_max cfg) in
           b\<lparr>open_duration := d, state := Open, generation := generation b + 1,
             open_until := duration_saturating_add now d, half_open_inflight := 0\<rparr>)
      | (_, None) \<Rightarrow> b
      | (Open, _) \<Rightarrow> b)"

definition finish :: "breaker_config \<Rightarrow> nat \<Rightarrow> u64 option \<Rightarrow> verdict option \<Rightarrow> breaker \<Rightarrow> breaker" where
  "finish cfg now gen outcome b =
     (if gen \<noteq> None \<and> gen \<noteq> Some (generation b) then b
      else settle cfg now outcome (release_probe b))"

definition allow :: "breaker_config \<Rightarrow> nat \<Rightarrow> breaker \<Rightarrow> bool \<times> breaker" where
  "allow cfg now b = admit cfg now b"

definition on_success :: "breaker_config \<Rightarrow> nat \<Rightarrow> breaker \<Rightarrow> breaker" where
  "on_success cfg now = finish cfg now None (Some Success)"

definition on_failure :: "breaker_config \<Rightarrow> nat \<Rightarrow> breaker \<Rightarrow> breaker" where
  "on_failure cfg now = finish cfg now None (Some Failure)"

text \<open>Completing or dropping a permit.\<close>

definition permit_drop :: "breaker_config \<Rightarrow> nat \<Rightarrow> u64 \<Rightarrow> verdict option \<Rightarrow> breaker \<Rightarrow> breaker" where
  "permit_drop cfg now g outcome = finish cfg now (Some g) outcome"

section \<open>Runs\<close>

text \<open>The breaker beside the generations of the permits that are out. The generation counter is a
  64-bit number that every transition of the circuit increments; a run is considered up to the
  transition that would wrap it.\<close>

inductive breaker_step :: "breaker_config \<Rightarrow> breaker \<times> u64 list \<Rightarrow> breaker \<times> u64 list \<Rightarrow> bool"
  for cfg :: breaker_config where
  admitted: "acquire cfg now b = (Some g, b') \<Longrightarrow> generation b \<noteq> - 1
    \<Longrightarrow> breaker_step cfg (b, ps) (b', g # ps)"
| refused: "acquire cfg now b = (None, b') \<Longrightarrow> breaker_step cfg (b, ps) (b', ps)"
| completed: "generation b \<noteq> - 1 \<Longrightarrow> breaker_step cfg (b, ps @ g # qs)
    (permit_drop cfg now g outcome b, ps @ qs)"

inductive breaker_reach :: "breaker_config \<Rightarrow> breaker \<times> u64 list \<Rightarrow> bool" for cfg where
  start: "breaker_reach cfg (breaker_new cfg, [])"
| step: "breaker_reach cfg s \<Longrightarrow> breaker_step cfg s s' \<Longrightarrow> breaker_reach cfg s'"

section \<open>Invariant\<close>

definition breaker_inv :: "breaker_config \<Rightarrow> breaker \<times> u64 list \<Rightarrow> bool" where
  "breaker_inv cfg s \<longleftrightarrow> (case s of (b, ps) \<Rightarrow>
     (\<forall>g \<in> set ps. g \<le> generation b)
     \<and> open_duration b \<le> max (open_initial cfg) (open_max cfg)
     \<and> (case state b of
          Closed \<Rightarrow> unat (consecutive_failures b) < max 1 (unat (failure_threshold cfg))
        | Open \<Rightarrow> generation b \<notin> set ps
        | HalfOpen \<Rightarrow>
            count_list ps (generation b) = unat (half_open_inflight b)
            \<and> unat (half_open_inflight b) \<le> max 1 (unat (half_open_max_requests cfg))
            \<and> unat (half_open_successes b) < max 1 (unat (success_threshold cfg))))"

lemma unat_next:
  assumes "unat x < max 1 (unat (t :: 'a::len word))"
  shows "unat (x + 1 :: 'a word) = unat x + 1"
proof (cases "x = 0")
  case False
  then have "unat x < unat t"
    using assms by (auto simp: max_def unat_eq_zero split: if_splits)
  then have "Suc (unat x) < 2 ^ LENGTH('a)"
    using unat_lt2p [of t] by (rule le_less_trans [OF Suc_leI])
  then show ?thesis
    by (simp add: unat_word_ariths(1))
qed simp

lemma unat_generation_next: "g \<noteq> - 1 \<Longrightarrow> unat (g + 1 :: u64) = unat g + 1"
  by (metis Suc_eq_plus1 add.commute add_eq_0_iff unatSuc)

lemma generation_fresh:
  assumes "g \<noteq> - 1" and "\<forall>p \<in> set ps. p \<le> (g :: u64)"
  shows "(\<forall>p \<in> set ps. p \<le> g + 1) \<and> g + 1 \<notin> set ps"
  using assms unat_generation_next [OF assms(1)] by (fastforce simp: word_le_nat_alt)

lemma count_list_fresh: "x \<notin> set ps \<Longrightarrow> count_list ps x = 0"
  by (simp add: count_list_0_iff)

lemma acquire_inv:
  assumes inv: "breaker_inv cfg (b, ps)" and gen: "generation b \<noteq> - 1"
    and run: "acquire cfg now b = (Some g, b')"
  shows "breaker_inv cfg (b', g # ps)"
proof (cases "state b")
  case Closed
  then show ?thesis
    using inv run by (auto simp: acquire_def admit_def breaker_inv_def)
next
  case Open
  have fresh: "(\<forall>p \<in> set ps. p \<le> generation b + 1) \<and> generation b + 1 \<notin> set ps"
    using generation_fresh [OF gen, of ps] inv by (simp add: breaker_inv_def)
  then show ?thesis
    using Open inv run
    by (auto simp: acquire_def admit_def breaker_inv_def count_list_fresh split: if_splits)
next
  case HalfOpen
  have "unat (half_open_inflight b + 1) = unat (half_open_inflight b) + 1"
    if "half_open_inflight b < half_open_max_requests cfg"
    using that by (intro unat_next [of _ "half_open_max_requests cfg"]) (simp add: word_less_nat_alt)
  then show ?thesis
    using HalfOpen inv run
    by (auto simp: acquire_def admit_def breaker_inv_def word_less_nat_alt split: if_splits)
qed

lemma refused_same: "acquire cfg now b = (None, b') \<Longrightarrow> b' = b"
  by (auto simp: acquire_def admit_def split: circuit_state.splits if_splits)

lemma count_list_drop:
  "count_list (ps @ g # qs) x = count_list (ps @ qs) x + (if x = g then 1 else 0)"
  by simp

lemma release_inv:
  assumes inv: "breaker_inv cfg (b, ps @ g # qs)" and "g = generation b"
  shows "breaker_inv cfg (release_probe b, ps @ qs)"
proof (cases "state b = HalfOpen")
  case True
  then have "unat (half_open_inflight b) = Suc (count_list (ps @ qs) g)"
    using inv assms(2) by (simp add: breaker_inv_def)
  moreover have "unat (saturating_sub (half_open_inflight b) 1) = unat (half_open_inflight b) - 1"
    by (simp add: unat_saturating_sub)
  ultimately show ?thesis
    using inv True assms(2) by (auto simp: breaker_inv_def release_probe_def)
next
  case False
  then show ?thesis
    using inv by (auto simp: breaker_inv_def release_probe_def split: circuit_state.splits)
qed

lemma settle_inv:
  assumes inv: "breaker_inv cfg (b, ps)" and gen: "generation b \<noteq> - 1"
  shows "breaker_inv cfg (settle cfg now outcome b, ps)"
proof -
  have fresh: "(\<forall>p \<in> set ps. p \<le> generation b + 1) \<and> generation b + 1 \<notin> set ps"
    using generation_fresh [OF gen, of ps] inv by (simp add: breaker_inv_def)
  show ?thesis
  proof (cases "state b")
    case Closed
    then have "unat (consecutive_failures b + 1) = unat (consecutive_failures b) + 1"
      using inv by (intro unat_next [of _ "failure_threshold cfg"]) (simp add: breaker_inv_def)
    then show ?thesis
      using inv Closed fresh
      by (auto simp: settle_def breaker_inv_def Let_def word_le_nat_alt split: option.split verdict.split)
  next
    case Open
    then show ?thesis
      using inv by (simp add: settle_def split: option.split)
  next
    case HalfOpen
    then have "unat (half_open_successes b + 1) = unat (half_open_successes b) + 1"
      using inv by (intro unat_next [of _ "success_threshold cfg"]) (simp add: breaker_inv_def)
    then show ?thesis
      using inv HalfOpen fresh
      by (auto simp: settle_def breaker_inv_def Let_def word_le_nat_alt split: option.split verdict.split)
  qed
qed

lemma release_probe_generation [simp]: "generation (release_probe b) = generation b"
  by (simp add: release_probe_def)

lemma stale_inv:
  assumes "breaker_inv cfg (b, ps @ g # qs)" and "g \<noteq> generation b"
  shows "breaker_inv cfg (b, ps @ qs)"
  using assms by (auto simp: breaker_inv_def split: circuit_state.splits)

lemma permit_drop_inv:
  assumes "breaker_inv cfg (b, ps @ g # qs)" and "generation b \<noteq> - 1"
  shows "breaker_inv cfg (permit_drop cfg now g outcome b, ps @ qs)"
proof (cases "g = generation b")
  case True
  then show ?thesis
    using settle_inv [OF release_inv [OF assms(1) True]] assms(2)
    by (simp add: permit_drop_def finish_def)
next
  case False
  then show ?thesis
    using stale_inv [OF assms(1) False] by (simp add: permit_drop_def finish_def)
qed

lemma breaker_reach_inv: "breaker_reach cfg s \<Longrightarrow> breaker_inv cfg s"
proof (induction rule: breaker_reach.induct)
  case start
  then show ?case by (simp add: breaker_inv_def breaker_new_def)
next
  case (step s s')
  from step(2,3) show ?case
    by (cases rule: breaker_step.cases) (auto dest: refused_same intro: acquire_inv permit_drop_inv)
qed

text \<open>C24: In every reachable state of a circuit that is probing, the permits of the current probing
  window that are out are exactly the slots the breaker has counted, and they are at most the
  configured number (at least one): a permit of an older window never returns a slot of this one.
  The failure and success counters stay below their thresholds, so they do not wrap, and the open
  interval never exceeds the configured maximum.\<close>

theorem breaker_window_bounded:
  assumes "breaker_reach cfg (b, ps)"
  shows "(state b = HalfOpen \<longrightarrow>
      count_list ps (generation b) = unat (half_open_inflight b)
      \<and> unat (half_open_inflight b) \<le> max 1 (unat (half_open_max_requests cfg))
      \<and> unat (half_open_successes b) < max 1 (unat (success_threshold cfg)))
    \<and> (state b = Closed \<longrightarrow> unat (consecutive_failures b) < max 1 (unat (failure_threshold cfg)))
    \<and> open_duration b \<le> max (open_initial cfg) (open_max cfg)"
  using breaker_reach_inv [OF assms] by (auto simp: breaker_inv_def)

text \<open>A fatal failure opens the circuit; one second later a probe is admitted, which the permit of the
  first window, still out, does not disturb.\<close>

lemma breaker_sample_reach:
  "breaker_reach breaker_config_default
     (\<lparr>state = HalfOpen, consecutive_failures = 1, open_until = 1000000005, open_duration = 1000000000,
       generation = 2, half_open_inflight = 1, half_open_successes = 0\<rparr>, [2, 0])"
proof -
  let ?c = breaker_config_default
  let ?b0 = "breaker_new ?c"
  let ?b1 = "permit_drop ?c 5 0 (Some EndpointFatal) ?b0"
  have "breaker_reach ?c (?b0, [0])"
    by (rule breaker_reach.step [OF breaker_reach.start breaker_step.admitted [of _ 0]])
      (simp_all add: acquire_def admit_def breaker_new_def)
  then have "breaker_reach ?c (?b0, [0, 0])"
    by (rule breaker_reach.step [OF _ breaker_step.admitted [of _ 0]])
      (simp_all add: acquire_def admit_def breaker_new_def)
  then have "breaker_reach ?c (?b1, [0])"
    using breaker_reach.step [OF _ breaker_step.completed [of ?b0 ?c "[]" 0 "[0]" 5 "Some EndpointFatal"]]
    by (simp add: breaker_new_def)
  then show ?thesis
    by (rule breaker_reach.step [OF _ breaker_step.admitted [of _ 1000000007]])
      (simp_all add: acquire_def admit_def breaker_new_def permit_drop_def finish_def settle_def
        release_probe_def Let_def breaker_config_default_def duration_saturating_add_def DURATION_MAX_def)
qed

theorem breaker_window_bounded_witness:
  "count_list [2, 0] (2 :: u64) = unat (1 :: u32) \<and> unat (1 :: u32) \<le> max 1 (unat (2 :: u32))"
  using breaker_window_bounded [OF breaker_sample_reach] by (simp add: breaker_config_default_def)

section \<open>Recovery\<close>

text \<open>One probe that succeeds: admission, then completion with success.\<close>

definition probe :: "breaker_config \<Rightarrow> nat \<Rightarrow> breaker \<Rightarrow> breaker" where
  "probe cfg now b =
     (case acquire cfg now b of
        (Some g, b') \<Rightarrow> permit_drop cfg now g (Some Success) b'
      | (None, b') \<Rightarrow> b')"

lemma probe_Closed: "state b = Closed \<Longrightarrow> state (probe cfg now b) = Closed"
  by (simp add: probe_def acquire_def admit_def permit_drop_def finish_def settle_def release_probe_def)

lemma probes_Closed: "state b = Closed \<Longrightarrow> state ((probe cfg now ^^ n) b) = Closed"
  by (induction n) (auto intro: probe_Closed)

text \<open>What one successful probe does to a circuit that still needs some: it closes it or brings it one
  success nearer, and returns its slot.\<close>

lemma probe_HalfOpen:
  assumes "state b = HalfOpen" and "half_open_inflight b = 0" and "0 < half_open_max_requests cfg"
    and "unat (half_open_successes b) < max 1 (unat (success_threshold cfg))"
  shows "state (probe cfg now b) = Closed
    \<or> state (probe cfg now b) = HalfOpen \<and> half_open_inflight (probe cfg now b) = 0
      \<and> unat (half_open_successes (probe cfg now b)) = unat (half_open_successes b) + 1
      \<and> unat (half_open_successes b) + 1 < max 1 (unat (success_threshold cfg))"
  using assms unat_next [OF assms(4)]
  by (auto simp: probe_def acquire_def admit_def permit_drop_def finish_def settle_def release_probe_def
      saturating_sub_def Let_def word_le_nat_alt)

lemma probes_HalfOpen:
  assumes "state b = HalfOpen" and "half_open_inflight b = 0" and "0 < half_open_max_requests cfg"
    and "unat (half_open_successes b) < max 1 (unat (success_threshold cfg))"
    and "max 1 (unat (success_threshold cfg)) \<le> unat (half_open_successes b) + n"
  shows "state ((probe cfg now ^^ n) b) = Closed"
  using assms
proof (induction n arbitrary: b)
  case (Suc n)
  show ?case
    using probe_HalfOpen [OF Suc.prems(1-4), of now]
      Suc.IH [of "probe cfg now b"] probes_Closed [of "probe cfg now b" n cfg now] Suc.prems(3,5)
    by (auto simp: funpow_Suc_right simp del: funpow.simps)
qed auto

lemma probe_Open:
  assumes "state b = Open" and "open_until b \<le> now"
  shows "state (probe cfg now b) = Closed
    \<or> state (probe cfg now b) = HalfOpen \<and> half_open_inflight (probe cfg now b) = 0
      \<and> half_open_successes (probe cfg now b) = 1 \<and> 1 < unat (success_threshold cfg)"
  using assms
  by (auto simp: probe_def acquire_def admit_def permit_drop_def finish_def settle_def release_probe_def
      saturating_sub_def Let_def word_le_nat_alt)

text \<open>C25: A circuit is never wedged. From every reachable state in which no permit of the current
  window is still out, once the open interval has passed, as many successful probes in a row as the
  success threshold asks for (at least one) are all admitted and leave the circuit closed.\<close>

theorem breaker_recovers:
  assumes "breaker_reach cfg (b, ps)" and "generation b \<notin> set ps"
    and "0 < half_open_max_requests cfg" and "open_until b \<le> now"
  shows "state ((probe cfg now ^^ max 1 (unat (success_threshold cfg))) b) = Closed"
proof (cases "state b")
  case Closed
  then show ?thesis by (rule probes_Closed)
next
  case HalfOpen
  then have "unat (half_open_inflight b) = 0"
    and "unat (half_open_successes b) < max 1 (unat (success_threshold cfg))"
    using breaker_reach_inv [OF assms(1)] count_list_fresh [OF assms(2)]
    by (auto simp: breaker_inv_def)
  then show ?thesis
    using HalfOpen assms(3) by (intro probes_HalfOpen) (auto simp: unat_eq_zero)
next
  case Open
  obtain n where n: "max 1 (unat (success_threshold cfg)) = Suc n"
    by (metis Suc_pred' max.strict_coboundedI1 zero_less_one)
  show ?thesis
    using probe_Open [OF Open assms(4), of cfg] n assms(3)
      probes_Closed [of "probe cfg now b" n cfg now] probes_HalfOpen [of "probe cfg now b" cfg n now]
    by (auto simp: funpow_Suc_right simp del: funpow.simps)
qed

theorem breaker_recovers_witness:
  "state ((probe breaker_config_default 1000000007 ^^ 2)
     (permit_drop breaker_config_default 1000000008 2 None
       \<lparr>state = HalfOpen, consecutive_failures = 1, open_until = 1000000005, open_duration = 1000000000,
         generation = 2, half_open_inflight = 1, half_open_successes = 0\<rparr>)) = Closed"
proof -
  have "breaker_reach breaker_config_default (permit_drop breaker_config_default 1000000008 2 None
      \<lparr>state = HalfOpen, consecutive_failures = 1, open_until = 1000000005, open_duration = 1000000000,
        generation = 2, half_open_inflight = 1, half_open_successes = 0\<rparr>, [0])"
    using breaker_reach.step [OF breaker_sample_reach breaker_step.completed [of _ _ "[]", simplified]]
    by simp
  from breaker_recovers [OF this, of 1000000007]
  have "state ((probe breaker_config_default 1000000007 ^^ max 1 (unat (success_threshold breaker_config_default)))
     (permit_drop breaker_config_default 1000000008 2 None
       \<lparr>state = HalfOpen, consecutive_failures = 1, open_until = 1000000005, open_duration = 1000000000,
         generation = 2, half_open_inflight = 1, half_open_successes = 0\<rparr>)) = Closed"
    by (simp add: permit_drop_def finish_def settle_def release_probe_def breaker_config_default_def)
  moreover have "max 1 (unat (success_threshold breaker_config_default)) = 2"
    by (simp add: breaker_config_default_def)
  ultimately show ?thesis by (simp only:)
qed

end
