(* ===== verification/Drain.thy ===== *)
theory Drain
  imports Prelude
begin

text \<open>
  The gate between NBD callbacks and an acknowledged drain (\<open>maki-nbdkit/src/drain.rs\<close>). \<open>enter\<close>,
  the drop of a \<open>Callback\<close> and the pieces of \<open>drain\<close> between two awaits each hold the state lock once,
  so each is one step; callbacks and a drainer interleave at these steps in any order. The
  asynchronous mutex admits one drainer at a time. The wait on \<open>idle\<close> may return at any time, since
  the loop inspects the count again, and a drainer may be cancelled at any await. Flush and
  checkpoint belong to the engine: what they return is an argument of the last step. Every active
  callback holds a reference in memory, so the count is a natural number.
\<close>

datatype phase = Running | Draining | Failed string | Drained u64

record drain_state =
  phase :: phase
  active :: nat

definition drain_default :: drain_state where
  "drain_default = \<lparr>phase = Running, active = 0\<rparr>"

definition enter :: "drain_state \<Rightarrow> (string + unit) \<times> drain_state" where
  "enter s =
     (if phase s \<noteq> Running then (Inl ''volume admission is closed for drain'', s)
      else (Inr (), s\<lparr>active := active s + 1\<rparr>))"

definition callback_drop :: "drain_state \<Rightarrow> drain_state" where
  "callback_drop s = s\<lparr>active := active s - 1\<rparr>"

definition drain_status :: "drain_state \<Rightarrow> string \<times> string option" where
  "drain_status s =
     (case phase s of
        Running \<Rightarrow> (''running'', None)
      | Draining \<Rightarrow> (''draining'', None)
      | Failed error \<Rightarrow> (''failed'', Some error)
      | Drained _ \<Rightarrow> (''drained'', None))"

text \<open>Where the drainer that holds the mutex stands.\<close>

datatype drainer = Idle | Inspecting | Waiting | Flushing

text \<open>The pieces of \<open>drain\<close>: the check on entry, the inspection of the count, and the outcome.\<close>

definition drain_begin :: "drain_state \<Rightarrow> u64 option \<times> drain_state" where
  "drain_begin s =
     (case phase s of Drained n \<Rightarrow> (Some n, s) | _ \<Rightarrow> (None, s\<lparr>phase := Draining\<rparr>))"

definition drain_inspect :: "drain_state \<Rightarrow> drainer" where
  "drain_inspect s = (if active s = 0 then Flushing else Waiting)"

definition drain_outcome :: "string + u64 \<Rightarrow> drain_state \<Rightarrow> drain_state" where
  "drain_outcome r s = s\<lparr>phase := (case r of Inr n \<Rightarrow> Drained n | Inl e \<Rightarrow> Failed e)\<rparr>"

datatype event =
    Entered
  | Refused
  | Left
  | DrainStarted
  | DrainAgain u64
  | Internal
  | Cancelled
  | Outcome "string + u64"

inductive gate :: "drain_state \<times> drainer \<Rightarrow> event \<Rightarrow> drain_state \<times> drainer \<Rightarrow> bool" where
  gate_enter: "enter s = (Inr (), s') \<Longrightarrow> gate (s, d) Entered (s', d)"
| gate_refuse: "enter s = (Inl e, s') \<Longrightarrow> gate (s, d) Refused (s', d)"
| gate_leave: "0 < active s \<Longrightarrow> gate (s, d) Left (callback_drop s, d)"
| gate_begin: "drain_begin s = (None, s') \<Longrightarrow> gate (s, Idle) DrainStarted (s', Inspecting)"
| gate_again: "drain_begin s = (Some n, s') \<Longrightarrow> gate (s, Idle) (DrainAgain n) (s', Idle)"
| gate_inspect: "gate (s, Inspecting) Internal (s, drain_inspect s)"
| gate_wake: "gate (s, Waiting) Internal (s, Inspecting)"
| gate_cancel: "d \<noteq> Idle \<Longrightarrow> gate (s, d) Cancelled (s, Idle)"
| gate_outcome: "gate (s, Flushing) (Outcome r) (drain_outcome r s, Idle)"

inductive gate_run :: "drain_state \<times> drainer \<Rightarrow> event list \<Rightarrow> drain_state \<times> drainer \<Rightarrow> bool" where
  run_nil: "gate_run c [] c"
| run_snoc: "gate_run c es c' \<Longrightarrow> gate c' e c'' \<Longrightarrow> gate_run c (es @ [e]) c''"

inductive_cases gate_run_NilE: "gate_run c [] c'"

lemma gate_run_snocE:
  assumes "gate_run c (es @ [e]) c''"
  obtains c' where "gate_run c es c'" and "gate c' e c''"
  using assms by (cases rule: gate_run.cases) auto

definition gate_inv :: "drain_state \<times> drainer \<Rightarrow> bool" where
  "gate_inv c \<longleftrightarrow> (case c of (s, d) \<Rightarrow>
     (d \<noteq> Idle \<longrightarrow> phase s = Draining)
     \<and> (d = Flushing \<longrightarrow> active s = 0)
     \<and> (\<forall>n. phase s = Drained n \<longrightarrow> active s = 0))"

lemmas gate_defs = enter_def callback_drop_def drain_begin_def drain_inspect_def drain_outcome_def

lemma gate_inv_step: "gate c e c' \<Longrightarrow> gate_inv c \<Longrightarrow> gate_inv c'"
  by (erule gate.cases) (auto simp: gate_inv_def gate_defs split: if_splits phase.splits sum.splits)

lemma gate_closed_step:
  assumes "gate (s, d) e (s', d')" and "phase s \<noteq> Running"
  shows "e \<noteq> Entered \<and> phase s' \<noteq> Running \<and> active s' \<le> active s"
  using assms by (cases rule: gate.cases) (auto simp: gate_defs split: if_splits phase.splits sum.splits)

lemma gate_run_inv: "gate_run c es c' \<Longrightarrow> gate_inv c \<Longrightarrow> gate_inv c'"
  by (induction rule: gate_run.induct) (auto intro: gate_inv_step)

lemma gate_run_closed:
  "gate_run c es c' \<Longrightarrow> phase (fst c) \<noteq> Running \<Longrightarrow>
     Entered \<notin> set es \<and> phase (fst c') \<noteq> Running \<and> active (fst c') \<le> active (fst c)"
proof (induction rule: gate_run.induct)
  case (run_snoc c es c' e c'')
  then show ?case
    using gate_closed_step [of "fst c'" "snd c'" e "fst c''" "snd c''"] by auto
qed simp

text \<open>The count is the number of callbacks that entered and have not left.\<close>

lemma gate_run_count:
  "gate_run c es c' \<Longrightarrow> active (fst c') + count_list es Left = active (fst c) + count_list es Entered"
proof (induction rule: gate_run.induct)
  case (run_snoc c es c' e c'')
  from run_snoc(2,3) show ?case
    by (cases rule: gate.cases) (auto simp: gate_defs split: if_splits phase.splits sum.splits)
qed simp

lemma gate_run_append:
  "gate_run c (es @ fs) c' \<Longrightarrow> \<exists>m. gate_run c es m \<and> gate_run m fs c'"
proof (induction fs arbitrary: c' rule: rev_induct)
  case Nil
  then show ?case using run_nil [of c'] by (metis append_Nil2)
next
  case (snoc f fs)
  from snoc.prems obtain m where "gate_run c (es @ fs) m" and "gate m f c'"
    by (cases rule: gate_run.cases) auto
  with snoc.IH show ?case by (meson run_snoc)
qed

text \<open>C26: However callbacks, drains, wake-ups and cancellations interleave: when a drain reports the
  outcome of its flush and checkpoint, every callback that was ever admitted has left, none is
  admitted afterwards, and the gate never returns to its running phase.\<close>

theorem drain_exclusive:
  assumes "gate_run (drain_default, Idle) (before @ Outcome r # later) (s, d)"
  shows "count_list before Left = count_list before Entered \<and> Entered \<notin> set later
    \<and> active s = 0 \<and> phase s \<noteq> Running"
proof -
  obtain m where pre: "gate_run (drain_default, Idle) before m"
    and post: "gate_run m ([Outcome r] @ later) (s, d)"
    using gate_run_append [OF assms] by auto
  obtain m' where first: "gate_run m ([] @ [Outcome r]) m'" and later: "gate_run m' later (s, d)"
    using gate_run_append [OF post] by auto
  from first have step: "gate m (Outcome r) m'"
    by (rule gate_run_snocE) (auto elim: gate_run_NilE)
  have "gate_inv m"
    using gate_run_inv [OF pre] by (simp add: gate_inv_def drain_default_def)
  then have zero: "active (fst m) = 0" and m': "phase (fst m') \<noteq> Running" "active (fst m') = 0"
    using step by (auto elim!: gate.cases simp: gate_inv_def drain_outcome_def split: sum.splits)
  show ?thesis
    using gate_run_count [OF pre] gate_run_closed [OF later m'(1)] zero m'(2)
    by (simp add: drain_default_def)
qed

theorem drain_exclusive_witness:
  "\<exists>s. gate_run (drain_default, Idle)
        [Entered, DrainStarted, Internal, Refused, Left, Internal, Internal, Outcome (Inr 9), DrainAgain 9] (s, Idle)
     \<and> active s = 0 \<and> phase s \<noteq> Running"
proof -
  let ?s = "\<lambda>p n. \<lparr>phase = p, active = n\<rparr>"
  have run: "gate_run (drain_default, Idle)
     ([Entered, DrainStarted, Internal, Refused, Left, Internal, Internal] @ Outcome (Inr 9) # [DrainAgain 9])
     (?s (Drained 9) 0, Idle)"
  proof -
    have "gate_run (drain_default, Idle) ([] @ [Entered]) (?s Running 1, Idle)"
      by (rule run_snoc [OF run_nil]) (rule gate_enter, simp add: drain_default_def enter_def)
    then have "gate_run (drain_default, Idle) (([] @ [Entered]) @ [DrainStarted]) (?s Draining 1, Inspecting)"
      by (rule run_snoc) (rule gate_begin, simp add: drain_begin_def)
    then have "gate_run (drain_default, Idle) ((([] @ [Entered]) @ [DrainStarted]) @ [Internal])
        (?s Draining 1, Waiting)"
      by (rule run_snoc) (use gate_inspect [of "?s Draining 1"] in \<open>simp add: drain_inspect_def\<close>)
    then have "gate_run (drain_default, Idle) (((([] @ [Entered]) @ [DrainStarted]) @ [Internal]) @ [Refused])
        (?s Draining 1, Waiting)"
      by (rule run_snoc) (rule gate_refuse, simp add: enter_def)
    then have "gate_run (drain_default, Idle)
        ((((([] @ [Entered]) @ [DrainStarted]) @ [Internal]) @ [Refused]) @ [Left]) (?s Draining 0, Waiting)"
      by (rule run_snoc) (use gate_leave [of "?s Draining 1" Waiting] in \<open>simp add: callback_drop_def\<close>)
    then have "gate_run (drain_default, Idle)
        (((((([] @ [Entered]) @ [DrainStarted]) @ [Internal]) @ [Refused]) @ [Left]) @ [Internal])
        (?s Draining 0, Inspecting)"
      by (rule run_snoc) (rule gate_wake)
    then have "gate_run (drain_default, Idle)
        ((((((([] @ [Entered]) @ [DrainStarted]) @ [Internal]) @ [Refused]) @ [Left]) @ [Internal]) @ [Internal])
        (?s Draining 0, Flushing)"
      by (rule run_snoc) (use gate_inspect [of "?s Draining 0"] in \<open>simp add: drain_inspect_def\<close>)
    then have "gate_run (drain_default, Idle)
        (((((((([] @ [Entered]) @ [DrainStarted]) @ [Internal]) @ [Refused]) @ [Left]) @ [Internal]) @ [Internal])
         @ [Outcome (Inr 9)]) (?s (Drained 9) 0, Idle)"
      by (rule run_snoc) (use gate_outcome [of "?s Draining 0" "Inr 9"] in \<open>simp add: drain_outcome_def\<close>)
    then have "gate_run (drain_default, Idle)
        ((((((((([] @ [Entered]) @ [DrainStarted]) @ [Internal]) @ [Refused]) @ [Left]) @ [Internal]) @ [Internal])
         @ [Outcome (Inr 9)]) @ [DrainAgain 9]) (?s (Drained 9) 0, Idle)"
      by (rule run_snoc) (rule gate_again, simp add: drain_begin_def)
    then show ?thesis by simp
  qed
  from drain_exclusive [OF run] run show ?thesis by auto
qed

end
