(* ===== verification/Log_Medium.thy ===== *)
theory Log_Medium
  imports Directory
begin

text \<open>
  The third contract on a backing: files that only grow. A writer that keeps the first bytes of a file
  alone can rely on them after any crash (\<open>held\<close>), and it can know when a data sync makes everything it
  has written as durable as that (\<open>cover\<close>), also after an earlier sync has failed and has lost the
  dirty pages: setting the length again and writing the bytes again after the held prefix covers them
  anew. \<open>log_medium\<close> states these laws for the operations of the trait.
\<close>

locale log_medium = ab_directory B inv view settled synced opened crash absent held cover
  for B :: "('s, 'h) backing" and inv view settled synced opened crash absent held cover +
  assumes opened_view: "inv s \<Longrightarrow> opened s h p \<Longrightarrow> \<exists>c. view s p = Some c"
    and settled_held: "inv s \<Longrightarrow> settled s p c \<Longrightarrow> held s p c \<and> cover s p (length c)"
    and held_view: "inv s \<Longrightarrow> held s p bs \<Longrightarrow> \<exists>c. view s p = Some c \<and> prefix bs c"
    and held_synced: "inv s \<Longrightarrow> held s p bs \<Longrightarrow> synced s p c \<Longrightarrow> settled s p c"
    and crash_held: "inv s \<Longrightarrow> crash s s' \<Longrightarrow> held s p bs \<Longrightarrow> held s' p bs"
    and write_log: "inv s \<Longrightarrow> opened s h p \<Longrightarrow> view s p = Some c \<Longrightarrow> off \<le> length c \<Longrightarrow>
      f_write_at B h off d s = (ru, s') \<Longrightarrow>
      \<exists>k. (ru = Inr () \<longrightarrow> take k d = d) \<and> view s' p = Some (overwrite off (take k d) c) \<and>
        (\<forall>bs. held s p bs \<longrightarrow> length bs \<le> off \<longrightarrow> held s' p bs) \<and>
        (\<forall>n. cover s p n \<longrightarrow> off \<le> n \<longrightarrow> cover s' p (max n (off + length (take k d))))"
    and set_len_log: "inv s \<Longrightarrow> opened s h p \<Longrightarrow> view s p = Some c \<Longrightarrow> f_set_len B h n s = (ru, s') \<Longrightarrow>
      view s' p = Some (if ru = Inr () then resize n c else c) \<and>
      (\<forall>bs. held s p bs \<longrightarrow> length bs \<le> n \<longrightarrow> held s' p bs \<and> (ru = Inr () \<longrightarrow> cover s' p (length bs))) \<and>
      (cover s p (length c) \<longrightarrow> cover s' p (if ru = Inr () then n else length c)) \<and>
      (ru = Inr () \<longrightarrow> cover s' p 0)"
    and sync_log: "inv s \<Longrightarrow> opened s h p \<Longrightarrow> view s p = Some c \<Longrightarrow> f_sync_data B h s = (ru, s') \<Longrightarrow>
      view s' p = Some c \<and> (\<forall>bs. held s p bs \<longrightarrow> held s' p bs) \<and>
      (ru = Inr () \<longrightarrow> cover s p (length c) \<longrightarrow> synced s' p c)"
    and remove_kept: "inv s \<Longrightarrow> b_remove B p s = (ru, s') \<Longrightarrow> kept {p} s s'"
    and remove_failed: "inv s \<Longrightarrow> b_remove B p s = (Inl e, s') \<Longrightarrow> kept {} s s'"
    and remove_view: "inv s \<Longrightarrow> b_remove B p s = (Inr (), s') \<Longrightarrow> view s' p = None"

end
