(* ===== verification/Journal_Writer.thy ===== *)
theory Journal_Writer
  imports Log_Medium Durable_Proof Footprint Checked
begin

text \<open>
  The ciphertext journal writer of \<open>crates/maki-core/src/journal.rs\<close>. A \<open>JournalWriter\<close> is a record
  beside the state of the backing; its methods change both, also when they fail, so they are programs
  over the pair. Sequence numbers, segment indexes and record counts are 64-bit words with the checks
  of the source; file offsets and sizes are natural numbers, as everywhere in the model of the
  backing. \<open>DefaultHasher\<close> is a parameter \<open>H\<close>, a state with \<open>write\<close> and \<open>finish\<close>. The failpoints \<open>fp\<close>
  are no-ops in a production build and are left out; so are the debug-build calls of the sanitizer,
  which is the predicate \<open>check_invariants\<close>.
\<close>

datatype core_error =
    CoreIo io_error
  | CoreFormat format_error
  | CoreCorrupt string
  | CoreDurability string
  | CoreInvalid string
  | CoreCrypto crypto_error

record 'd hasher =
  hs_new :: 'd
  hs_write :: "'d \<Rightarrow> bytes \<Rightarrow> 'd"
  hs_finish :: "'d \<Rightarrow> u64"

record segment_info =
  sg_index :: u64
  sg_base :: u64
  sg_record_count :: u64
  sg_size :: nat

definition last_sequence :: "segment_info \<Rightarrow> u64" where
  "last_sequence i =
     (if 0 < sg_record_count i then sg_base i + sg_record_count i - 1
      else saturating_sub (sg_base i) 1)"

record ('h, 'd) active_segment =
  ac_info :: segment_info
  ac_file :: 'h
  ac_write_offset :: nat
  ac_synced_offset :: nat
  ac_unsynced :: bool
  ac_needs_tail_cleanup :: bool
  ac_needs_redirty :: bool
  ac_pending_fingerprint :: 'd

record ('h, 'd) journal_writer =
  jw_volume_uuid :: uuid
  jw_segment_size :: nat
  jw_next_sequence :: u64
  jw_appended_sequence :: u64
  jw_durable_sequence :: u64
  jw_sealed :: "segment_info list"
  jw_active :: "('h, 'd) active_segment option"
  jw_next_segment_index :: u64
  jw_creation_cleanup :: "u64 option"
  jw_mark :: "'h option"
  jw_proof :: durable_proof
  jw_holes_allowed_below :: u64
  jw_sync_failures :: u64

section \<open>Programs over the backing and the writer\<close>

definition io_core :: "('s, io_error, 'a) io \<Rightarrow> ('s, core_error, 'a) io" where
  "io_core m s = (case m s of (r, s') \<Rightarrow> (map_sum CoreIo id r, s'))"

text \<open>The \<open>match\<close> on the error of \<open>DurableProofStore::advance\<close>.\<close>

definition core_of_format :: "format_error \<Rightarrow> core_error" where
  "core_of_format e = (case e of FormatIo io \<Rightarrow> CoreIo io | _ \<Rightarrow> CoreFormat e)"

definition io_core_fmt :: "('s, format_error, 'a) io \<Rightarrow> ('s, core_error, 'a) io" where
  "io_core_fmt m s = (case m s of (r, s') \<Rightarrow> (map_sum core_of_format id r, s'))"

definition dev :: "('s, 'e, 'a) io \<Rightarrow> ('s \<times> 'w, 'e, 'a) io" where
  "dev m sw = (case m (fst sw) of (r, s') \<Rightarrow> (r, s', snd sw))"

definition ask :: "('w \<Rightarrow> 'a) \<Rightarrow> ('s \<times> 'w, 'e, 'a) io" where
  "ask f sw = (Inr (f (snd sw)), sw)"

definition upd :: "('w \<Rightarrow> 'w) \<Rightarrow> ('s \<times> 'w, 'e, unit) io" where
  "upd f sw = (Inr (), fst sw, f (snd sw))"

section \<open>Construction and accessors\<close>

definition effective_segment_size :: "nat \<Rightarrow> nat" where
  "effective_segment_size configured = max configured (SEGMENT_HEADER_SIZE + 64)"

definition resume ::
  "uuid \<Rightarrow> nat \<Rightarrow> u64 \<Rightarrow> u64 \<Rightarrow> segment_info list \<Rightarrow> durable_proof \<Rightarrow> ('h, 'd) journal_writer" where
  "resume volume segment_size durable_sequence next_segment_index sealed pf =
     \<lparr>jw_volume_uuid = volume,
      jw_segment_size = effective_segment_size segment_size,
      jw_next_sequence = durable_sequence + 1,
      jw_appended_sequence = durable_sequence,
      jw_durable_sequence = durable_sequence,
      jw_sealed = sealed,
      jw_active = None,
      jw_next_segment_index = next_segment_index,
      jw_creation_cleanup = None,
      jw_mark = None,
      jw_proof = pf,
      jw_holes_allowed_below = 0,
      jw_sync_failures = 0\<rparr>"

definition writeback_uncertain :: "('h, 'd) journal_writer \<Rightarrow> bool" where
  "writeback_uncertain w =
     (jw_creation_cleanup w \<noteq> None
      \<or> (case jw_active w of Some a \<Rightarrow> ac_needs_redirty a | None \<Rightarrow> False))"

definition allow_covered_holes_below :: "u64 \<Rightarrow> ('h, 'd) journal_writer \<Rightarrow> ('h, 'd) journal_writer" where
  "allow_covered_holes_below checkpoint w = w\<lparr>jw_holes_allowed_below := checkpoint\<rparr>"

definition segment_count :: "('h, 'd) journal_writer \<Rightarrow> nat" where
  "segment_count w = length (jw_sealed w) + (if jw_active w \<noteq> None then 1 else 0)"

definition active_segment_index :: "('h, 'd) journal_writer \<Rightarrow> u64 option" where
  "active_segment_index w = map_option (\<lambda>a. sg_index (ac_info a)) (jw_active w)"

definition all_segments :: "('h, 'd) journal_writer \<Rightarrow> segment_info list" where
  "all_segments w = jw_sealed w @ (case jw_active w of Some a \<Rightarrow> [ac_info a] | None \<Rightarrow> [])"

definition first_uncovered_segment_index :: "('h, 'd) journal_writer \<Rightarrow> u64 \<Rightarrow> u64 option" where
  "first_uncovered_segment_index w checkpoint =
     map_option sg_index (find (\<lambda>i. 0 < sg_record_count i \<and> checkpoint < last_sequence i)
       (all_segments w))"

definition covered_segment_count :: "('h, 'd) journal_writer \<Rightarrow> u64 \<Rightarrow> nat" where
  "covered_segment_count w checkpoint =
     length (filter (\<lambda>i. last_sequence i \<le> checkpoint) (jw_sealed w))"

definition pending_bytes :: "('h, 'd) journal_writer \<Rightarrow> nat" where
  "pending_bytes w =
     (case jw_active w of
        Some a \<Rightarrow> if ac_unsynced a then ac_write_offset a - ac_synced_offset a else 0
      | None \<Rightarrow> 0)"

definition total_bytes :: "('h, 'd) journal_writer \<Rightarrow> nat" where
  "total_bytes w = sum_list (map sg_size (all_segments w))"

definition append_footprint :: "('h, 'd) journal_writer \<Rightarrow> u64 list \<Rightarrow> u64" where
  "append_footprint w record_lens =
     (case checked_append_footprint (of_nat (jw_segment_size w))
         (map_option (\<lambda>a. (of_nat (ac_write_offset a), sg_record_count (ac_info a))) (jw_active w))
         (map (\<lambda>n. (n, 1)) record_lens) of
        Some bytes \<Rightarrow> bytes
      | None \<Rightarrow> - 1)"

section \<open>Durability barrier\<close>

definition REWRITE_CHUNK :: nat where "REWRITE_CHUNK = 64 * 1024"

function rewrite_loop ::
  "('s, 'h) backing \<Rightarrow> 'd hasher \<Rightarrow> 'h \<Rightarrow> nat \<Rightarrow> nat \<Rightarrow> 'd \<Rightarrow> ('s, io_error, 'd) io" where
  "rewrite_loop B H file offset stop fingerprint s =
     (if offset < stop then
        let len = min (stop - offset) REWRITE_CHUNK in
        (case f_read_at B file offset len s of
           (Inl e, s) \<Rightarrow> (Inl e, s)
         | (Inr chunk, s) \<Rightarrow>
             (case f_write_at B file offset chunk s of
                (Inl e, s) \<Rightarrow> (Inl e, s)
              | (Inr _, s) \<Rightarrow>
                  rewrite_loop B H file (offset + len) stop (hs_write H fingerprint chunk) s))
      else (Inr fingerprint, s))"
  by pat_completeness auto
termination
  by (relation "measure (\<lambda>(B, H, f, offset, stop, d, s). stop - offset)")
    (auto simp: REWRITE_CHUNK_def min_def split: if_splits)

declare rewrite_loop.simps [simp del]

definition rewrite_verified_range ::
  "('s, 'h) backing \<Rightarrow> 'd hasher \<Rightarrow> 'h \<Rightarrow> nat \<Rightarrow> nat \<Rightarrow> u64 \<Rightarrow> ('s, core_error, unit) io" where
  "rewrite_verified_range B H file start stop expected_fingerprint =
     io_bind (io_core (rewrite_loop B H file start stop (hs_new H))) (\<lambda>fingerprint.
     if hs_finish H fingerprint \<noteq> expected_fingerprint
     then io_fail (CoreCorrupt ''journal bytes changed after validation; refusing a durability acknowledgement'')
     else io_return ())"

definition write_mark ::
  "('s, 'h) backing \<Rightarrow> (bytes \<Rightarrow> u32) \<Rightarrow> durable_mark \<Rightarrow> ('s \<times> ('h, 'd) journal_writer, core_error, unit) io" where
  "write_mark B crc mark =
     (let put = (\<lambda>file. io_match (dev (f_write_at B file 0 (durable_mark_encode crc mark)))
         (\<lambda>_. io_return ()) (\<lambda>_. io_return ()))
      in
      io_bind (ask jw_mark) (\<lambda>m.
      case m of
        None \<Rightarrow>
          io_match (dev (b_open B JOURNAL_DURABLE_MARK True))
            (\<lambda>_. io_return ())
            (\<lambda>file. io_bind (upd (\<lambda>w. w\<lparr>jw_mark := Some file\<rparr>)) (\<lambda>_. put file))
      | Some file \<Rightarrow> put file))"

text \<open>What the barrier does to the file before the data sync: the accepted length again, and the
  accepted bytes again if an earlier sync may have lost them.\<close>

definition rearm :: "('s, 'h) backing \<Rightarrow> 'd hasher \<Rightarrow> ('h, 'd) active_segment \<Rightarrow> ('s, core_error, unit) io" where
  "rearm B H a =
     io_bind (if ac_needs_tail_cleanup a \<or> ac_needs_redirty a
              then io_core (f_set_len B (ac_file a) (ac_write_offset a)) else io_return ()) (\<lambda>_.
     if ac_needs_redirty a
     then rewrite_verified_range B H (ac_file a) (ac_synced_offset a) (ac_write_offset a)
            (hs_finish H (ac_pending_fingerprint a))
     else io_return ())"

text \<open>The two error paths of the barrier after that.\<close>

definition sync_failed ::
  "('h, 'd) active_segment \<Rightarrow> core_error \<Rightarrow> ('s \<times> ('h, 'd) journal_writer, core_error, 'a) io" where
  "sync_failed a e =
     io_bind (upd (\<lambda>w. w\<lparr>jw_active := Some (a\<lparr>ac_needs_redirty := True\<rparr>),
        jw_sync_failures := jw_sync_failures w + 1\<rparr>)) (\<lambda>_. io_fail e)"

definition publish_proof ::
  "('s, 'h) backing \<Rightarrow> (bytes \<Rightarrow> u32) \<Rightarrow> ('h, 'd) active_segment \<Rightarrow>
   ('s \<times> ('h, 'd) journal_writer, core_error, unit) io" where
  "publish_proof B crc a =
     io_bind (ask id) (\<lambda>w.
     if dp_durable_sequence (jw_proof w) < jw_appended_sequence w \<and> 0 < sg_record_count (ac_info a)
     then
       io_match (dev (io_core_fmt (proof_advance B crc
           ((jw_proof w)\<lparr>dp_durable_sequence := jw_appended_sequence w,
              dp_segment_index := sg_index (ac_info a),
              dp_durable_size := of_nat (ac_write_offset a)\<rparr>))))
         (sync_failed a)
         (\<lambda>candidate. upd (\<lambda>w. w\<lparr>jw_proof := candidate\<rparr>))
     else io_return ())"

definition sync_active ::
  "('s, 'h) backing \<Rightarrow> (bytes \<Rightarrow> u32) \<Rightarrow> 'd hasher \<Rightarrow> ('s \<times> ('h, 'd) journal_writer, core_error, unit) io" where
  "sync_active B crc H =
     io_bind (ask jw_active) (\<lambda>active.
     case active of
       None \<Rightarrow> io_return ()
     | Some a \<Rightarrow>
         if \<not> ac_unsynced a \<and> \<not> ac_needs_tail_cleanup a then io_return ()
         else
           io_bind (dev (rearm B H a)) (\<lambda>_.
           io_match (dev (io_core (f_sync_data B (ac_file a))))
             (sync_failed a)
             (\<lambda>_.
           io_bind (publish_proof B crc a) (\<lambda>_.
           io_bind (upd (\<lambda>w. w\<lparr>jw_active := Some (a\<lparr>ac_unsynced := False, ac_needs_tail_cleanup := False,
                ac_needs_redirty := False, ac_pending_fingerprint := hs_new H,
                ac_synced_offset := ac_write_offset a\<rparr>),
                jw_durable_sequence := jw_appended_sequence w\<rparr>)) (\<lambda>_.
           write_mark B crc \<lparr>dm_segment_index = sg_index (ac_info a),
             dm_durable_size = of_nat (ac_write_offset a)\<rparr>)))))"

definition seal_active ::
  "('s, 'h) backing \<Rightarrow> (bytes \<Rightarrow> u32) \<Rightarrow> 'd hasher \<Rightarrow> ('s \<times> ('h, 'd) journal_writer, core_error, unit) io" where
  "seal_active B crc H =
     io_bind (sync_active B crc H) (\<lambda>_.
     upd (\<lambda>w. case jw_active w of
       Some a \<Rightarrow> w\<lparr>jw_active := None, jw_sealed := jw_sealed w @ [ac_info a]\<rparr>
     | None \<Rightarrow> w))"

section \<open>Segments\<close>

definition cleanup_failed_creation ::
  "('s, 'h) backing \<Rightarrow> ('s \<times> ('h, 'd) journal_writer, core_error, unit) io" where
  "cleanup_failed_creation B =
     io_bind (ask jw_creation_cleanup) (\<lambda>c.
     case c of
       None \<Rightarrow> io_return ()
     | Some index \<Rightarrow>
         io_bind (dev (io_core (io_match (b_remove B (journal_segment index))
             (\<lambda>e. if e = NotFound then io_return () else io_fail e) io_return))) (\<lambda>_.
         io_bind (dev (io_core (b_sync_dir B JOURNAL_DIR))) (\<lambda>_.
         upd (\<lambda>w. w\<lparr>jw_creation_cleanup := None\<rparr>))))"

definition create_segment ::
  "('s, 'h) backing \<Rightarrow> (bytes \<Rightarrow> u32) \<Rightarrow> uuid \<Rightarrow> u64 \<Rightarrow> u64 \<Rightarrow> ('s, io_error, 'h) io" where
  "create_segment B crc volume index base_sequence =
     io_bind (b_open B (journal_segment index) True) (\<lambda>file.
     io_bind (f_set_len B file 0) (\<lambda>_.
     io_bind (f_allocate_range B file 0 SEGMENT_HEADER_SIZE) (\<lambda>_.
     io_bind (f_write_at B file 0 (segment_header_encode crc
       \<lparr>sg_segment_index = index, sg_volume_uuid = volume, sg_base_sequence = base_sequence\<rparr>)) (\<lambda>_.
     io_bind (f_sync_data B file) (\<lambda>_.
     io_bind (b_sync_dir B JOURNAL_DIR) (\<lambda>_.
     io_return file))))))"

definition fresh_segment :: "'d hasher \<Rightarrow> u64 \<Rightarrow> u64 \<Rightarrow> 'h \<Rightarrow> ('h, 'd) active_segment" where
  "fresh_segment H index base_sequence file =
     \<lparr>ac_info = \<lparr>sg_index = index, sg_base = base_sequence, sg_record_count = 0, sg_size = SEGMENT_HEADER_SIZE\<rparr>,
      ac_file = file, ac_write_offset = SEGMENT_HEADER_SIZE, ac_synced_offset = SEGMENT_HEADER_SIZE,
      ac_unsynced = False, ac_needs_tail_cleanup = False, ac_needs_redirty = False,
      ac_pending_fingerprint = hs_new H\<rparr>"

definition roll ::
  "('s, 'h) backing \<Rightarrow> (bytes \<Rightarrow> u32) \<Rightarrow> 'd hasher \<Rightarrow> ('s \<times> ('h, 'd) journal_writer, core_error, unit) io" where
  "roll B crc H =
     io_bind (ask jw_next_segment_index) (\<lambda>index.
     io_bind (io_pure (ok_or (checked_add index 1) (CoreCorrupt ''journal segment index exhausted''))) (\<lambda>next_index.
     io_bind (cleanup_failed_creation B) (\<lambda>_.
     io_bind (seal_active B crc H) (\<lambda>_.
     io_bind (ask id) (\<lambda>w.
     io_match (dev (io_core (create_segment B crc (jw_volume_uuid w) index (jw_next_sequence w))))
       (\<lambda>e.
          io_bind (upd (\<lambda>w. w\<lparr>jw_creation_cleanup := Some index\<rparr>)) (\<lambda>_.
          io_match (cleanup_failed_creation B) (\<lambda>_. io_fail e) (\<lambda>_. io_fail e)))
       (\<lambda>file.
          io_bind (upd (\<lambda>w. w\<lparr>jw_next_segment_index := next_index,
            jw_active := Some (fresh_segment H index (jw_next_sequence w) file)\<rparr>)) (\<lambda>_.
          write_mark B crc \<lparr>dm_segment_index = index, dm_durable_size = of_nat SEGMENT_HEADER_SIZE\<rparr>)))))))"

section \<open>Appending\<close>

definition check_append :: "('h, 'd) journal_writer \<Rightarrow> nat \<Rightarrow> core_error + u64 \<times> bool" where
  "check_append w payload_len =
     (case checked_add (jw_next_sequence w) 1 of
        None \<Rightarrow> Inl (CoreCorrupt ''journal sequence exhausted'')
      | Some next_sequence \<Rightarrow>
          let record_len = 32 + payload_len;
              needs_roll =
                (case jw_active w of
                   None \<Rightarrow> True
                 | Some a \<Rightarrow> 0 < sg_record_count (ac_info a) \<and>
                     jw_segment_size w < ac_write_offset a + record_len)
          in
          if needs_roll \<and> jw_next_segment_index w = - 1
          then Inl (CoreCorrupt ''journal segment index exhausted'')
          else Inr (next_sequence, needs_roll))"

text \<open>The file operations of one append to the active segment. The flag that a tail may have to be
  removed is raised between the truncation and the allocation.\<close>

definition write_record ::
  "('s, 'h) backing \<Rightarrow> ('h, 'd) active_segment \<Rightarrow> bytes \<Rightarrow> ('s \<times> ('h, 'd) journal_writer, core_error, unit) io" where
  "write_record B a bytes =
     io_bind (if ac_needs_tail_cleanup a
              then dev (io_core (f_set_len B (ac_file a) (ac_write_offset a))) else io_return ()) (\<lambda>_.
     io_bind (upd (\<lambda>w. w\<lparr>jw_active := Some (a\<lparr>ac_needs_tail_cleanup := True\<rparr>)\<rparr>)) (\<lambda>_.
     io_bind (dev (io_core (f_allocate_range B (ac_file a) (ac_write_offset a) (length bytes)))) (\<lambda>_.
     dev (io_core (f_write_at B (ac_file a) (ac_write_offset a) bytes)))))"

definition accept_record ::
  "'d hasher \<Rightarrow> ('h, 'd) active_segment \<Rightarrow> bytes \<Rightarrow> ('h, 'd) active_segment" where
  "accept_record H a bytes =
     a\<lparr>ac_pending_fingerprint := hs_write H (ac_pending_fingerprint a) bytes,
       ac_write_offset := ac_write_offset a + length bytes,
       ac_info := (ac_info a)\<lparr>sg_record_count := sg_record_count (ac_info a) + 1,
         sg_size := ac_write_offset a + length bytes\<rparr>,
       ac_unsynced := True,
       ac_needs_tail_cleanup := False\<rparr>"

definition append_record ::
  "('s, 'h) backing \<Rightarrow> (bytes \<Rightarrow> u32) \<Rightarrow> 'd hasher \<Rightarrow> u64 \<Rightarrow> bytes \<Rightarrow>
   ('s \<times> ('h, 'd) journal_writer, core_error, u64) io" where
  "append_record B crc H unit_index payload =
     io_bind (ask id) (\<lambda>w.
     io_bind (io_pure (check_append w (length payload))) (\<lambda>(next_sequence, needs_roll).
     let sequence = jw_next_sequence w in
     io_bind (if needs_roll then roll B crc H else io_return ()) (\<lambda>_.
     io_bind (ask jw_active) (\<lambda>active.
     case active of
       None \<Rightarrow> io_fail (CoreCorrupt ''active segment after roll'')
     | Some a \<Rightarrow>
         let bytes = encode_record crc \<lparr>jr_sequence = sequence, jr_unit_index = unit_index, jr_payload = payload\<rparr> in
         io_bind (write_record B a bytes) (\<lambda>_.
         io_bind (upd (\<lambda>w. w\<lparr>jw_active := Some (accept_record H a bytes),
            jw_next_sequence := next_sequence, jw_appended_sequence := sequence\<rparr>)) (\<lambda>_.
         io_return sequence))))))"

definition sync ::
  "('s, 'h) backing \<Rightarrow> (bytes \<Rightarrow> u32) \<Rightarrow> 'd hasher \<Rightarrow> ('s \<times> ('h, 'd) journal_writer, core_error, u64) io" where
  "sync B crc H =
     io_bind (cleanup_failed_creation B) (\<lambda>_.
     io_bind (sync_active B crc H) (\<lambda>_.
     io_bind (upd (\<lambda>w. w\<lparr>jw_durable_sequence := jw_appended_sequence w\<rparr>)) (\<lambda>_.
     ask jw_durable_sequence)))"

section \<open>Reclaiming\<close>

text \<open>The loop over the sealed segments, with the kept ones, the number deleted and the first error.\<close>

fun delete_loop ::
  "('s, 'h) backing \<Rightarrow> u64 \<Rightarrow> segment_info list \<Rightarrow> segment_info list \<Rightarrow> nat \<Rightarrow> io_error option \<Rightarrow> 's \<Rightarrow>
   (segment_info list \<times> nat \<times> io_error option) \<times> 's" where
  "delete_loop B ck [] kept_segs deleted err s = ((kept_segs, deleted, err), s)"
| "delete_loop B ck (i # is) kept_segs deleted err s =
     (if last_sequence i \<le> ck \<and> err = None then
        (case b_remove B (journal_segment (sg_index i)) s of
           (Inr _, s) \<Rightarrow> delete_loop B ck is kept_segs (Suc deleted) err s
         | (Inl e, s) \<Rightarrow> delete_loop B ck is (kept_segs @ [i]) deleted (Some e) s)
      else delete_loop B ck is (kept_segs @ [i]) deleted err s)"

definition delete_covered ::
  "('s, 'h) backing \<Rightarrow> u64 \<Rightarrow> ('s \<times> ('h, 'd) journal_writer, core_error, nat) io" where
  "delete_covered B checkpoint =
     io_bind (cleanup_failed_creation B) (\<lambda>_.
     \<lambda>(s, w). case delete_loop B checkpoint (jw_sealed w) [] 0 None s of
       ((kept_segs, deleted, err), s) \<Rightarrow>
         (case err of Some e \<Rightarrow> Inl (CoreIo e) | None \<Rightarrow> Inr deleted, s, w\<lparr>jw_sealed := kept_segs\<rparr>))"

section \<open>The sanitizer\<close>

fun check_segments :: "('h, 'd) journal_writer \<Rightarrow> u64 option \<Rightarrow> u64 option \<Rightarrow> (segment_info \<times> bool) list \<Rightarrow> bool" where
  "check_segments w prev_index expected_base [] = True"
| "check_segments w prev_index expected_base ((seg, is_active) # rest) \<longleftrightarrow>
     (case prev_index of Some p \<Rightarrow> p < sg_index seg | None \<Rightarrow> True) \<and>
     sg_index seg < jw_next_segment_index w \<and>
     (case expected_base of
        Some base \<Rightarrow> sg_base seg = base \<or>
          (base \<le> jw_holes_allowed_below w + 1 \<and> sg_base seg \<le> jw_holes_allowed_below w + 1)
      | None \<Rightarrow> True) \<and>
     SEGMENT_HEADER_SIZE \<le> sg_size seg \<and>
     (\<not> is_active \<and> 0 < sg_record_count seg \<longrightarrow> last_sequence seg \<le> jw_durable_sequence w) \<and>
     check_segments w (Some (sg_index seg)) (Some (sg_base seg + sg_record_count seg)) rest"

definition check_invariants :: "('s, 'h) backing \<Rightarrow> 's \<Rightarrow> ('h, 'd) journal_writer \<Rightarrow> bool" where
  "check_invariants B s w \<longleftrightarrow>
     (case jw_creation_cleanup w of
        Some index \<Rightarrow> jw_active w = None \<and> index = jw_next_segment_index w | None \<Rightarrow> True) \<and>
     jw_durable_sequence w \<le> jw_appended_sequence w \<and>
     jw_next_sequence w = jw_appended_sequence w + 1 \<and>
     check_segments w None None
       (map (\<lambda>i. (i, False)) (jw_sealed w) @
        (case jw_active w of Some a \<Rightarrow> [(ac_info a, True)] | None \<Rightarrow> [])) \<and>
     (case jw_active w of
        Some a \<Rightarrow>
          sg_base (ac_info a) + sg_record_count (ac_info a) = jw_next_sequence w \<and>
          ac_write_offset a = sg_size (ac_info a) \<and>
          ac_synced_offset a \<le> ac_write_offset a \<and>
          (\<not> ac_needs_tail_cleanup a \<longrightarrow>
             (case fst (f_len B (ac_file a) s) of Inr len \<Rightarrow> len = ac_write_offset a | Inl _ \<Rightarrow> True)) \<and>
          (if ac_unsynced a then ac_synced_offset a < ac_write_offset a
           else ac_synced_offset a = ac_write_offset a \<and> jw_durable_sequence w = jw_appended_sequence w)
      | None \<Rightarrow> jw_durable_sequence w = jw_appended_sequence w)"

end
