(* ===== verification/Crash_Log.thy ===== *)
theory Crash_Log
  imports Crash_Backing Log_Medium
begin

text \<open>
  The crash-simulating backing meets the contract for growing files: the dirty operations of a file
  whose first bytes are held leave them alone whatever their fate, and an operation that reaches the
  page cache reaches the next data sync as well.
\<close>

section \<open>Content\<close>

lemma nth_resize: "k < n \<Longrightarrow> resize n data ! k = (if k < length data then data ! k else 0)"
  by (simp add: resize_def nth_append)

lemma nth_overwrite:
  assumes "k < length (overwrite off src data)"
  shows "overwrite off src data ! k =
    (if off \<le> k \<and> k < off + length src then src ! (k - off)
     else if k < length data then data ! k else 0)"
proof -
  let ?data = "if length data < off + length src then resize (off + length src) data else data"
  have nth: "?data ! k = (if k < length data then data ! k else 0)" if "k < length ?data"
    using that by (auto simp: nth_resize split: if_splits)
  have len: "off + length src \<le> length ?data" and k: "k < length ?data"
    using assms by (auto simp: length_overwrite)
  have "(take off ?data @ src @ drop (off + length src) ?data) ! k =
      (if off \<le> k \<and> k < off + length src then src ! (k - off) else ?data ! k)"
    using len k by (auto simp: nth_append min_def)
  then show ?thesis
    using nth [OF k] by (simp add: overwrite_def Let_def)
qed

lemma prefix_iff_nth:
  "prefix bs data \<longleftrightarrow> length bs \<le> length data \<and> (\<forall>k < length bs. data ! k = bs ! k)"
proof
  assume "length bs \<le> length data \<and> (\<forall>k < length bs. data ! k = bs ! k)"
  then have "take (length bs) data = bs"
    by (auto intro: nth_equalityI)
  then show "prefix bs data"
    by (metis take_is_prefix)
qed (auto simp: prefix_def nth_append)

lemma prefix_overwrite:
  assumes "prefix bs data" and "guards bs (PWrite off src)"
  shows "prefix bs (overwrite off src data)"
  unfolding prefix_iff_nth
proof (intro conjI allI impI)
  show "length bs \<le> length (overwrite off src data)"
    using assms(1) by (auto simp: length_overwrite prefix_iff_nth)
  fix k assume k: "k < length bs"
  then have "k < length (overwrite off src data)"
    using assms(1) by (auto simp: length_overwrite prefix_iff_nth)
  from nth_overwrite [OF this] show "overwrite off src data ! k = bs ! k"
    using k assms by (auto simp: guards_def prefix_iff_nth)
qed

lemma guards_take: "guards bs (PWrite off src) \<Longrightarrow> guards bs (PWrite off (take n src))"
  by (simp add: guards_def)

lemma guards_drop: "guards bs (PWrite off src) \<Longrightarrow> guards bs (PWrite (off + n) (drop n src))"
  by (simp add: guards_def add.assoc)

lemma prefix_resize: "prefix bs data \<Longrightarrow> length bs \<le> n \<Longrightarrow> prefix bs (resize n data)"
  by (auto simp: prefix_iff_nth nth_resize)

lemma prefix_apply: "prefix bs data \<Longrightarrow> guards bs p \<Longrightarrow> prefix bs (apply_pend p data)"
  by (cases p) (auto simp: apply_pend_def prefix_overwrite guards_def intro: prefix_resize)

lemma prefix_torn:
  assumes "prefix bs data" and "guards bs (PWrite off src)"
  shows "prefix bs (apply_torn gran t off src data)"
proof -
  have "prefix bs (resize n d)" if "prefix bs d" "length d < n" for n d
    using that by (intro prefix_resize) (auto simp: prefix_iff_nth)
  then show ?thesis
    using assms prefix_overwrite guards_take guards_drop
    by (simp add: apply_torn_def Let_def split: tear.split)
qed

lemma prefix_crash_ops:
  "prefix bs data \<Longrightarrow> \<forall>p \<in> set ps. guards bs p \<Longrightarrow> prefix bs (crash_ops tearing f i ps data)"
proof (induction ps arbitrary: i data)
  case (Cons p ps)
  then show ?case
    by (auto intro!: Cons.IH simp: prefix_apply prefix_torn split: fate.split option.split pend.split prod.split)
qed simp

lemma prefix_fold: "prefix bs data \<Longrightarrow> \<forall>p \<in> set ps. guards bs p \<Longrightarrow> prefix bs (fold apply_pend ps data)"
  by (induction ps arbitrary: data) (auto simp: prefix_apply)

lemma prefix_torn_prefix:
  "prefix bs data \<Longrightarrow> length bs \<le> base \<Longrightarrow> \<forall>p \<in> set ps. guards bs p \<Longrightarrow>
    prefix bs (torn_prefix_ops k base ps data)"
proof (induction ps arbitrary: data)
  case (Cons p ps)
  have cut: "prefix bs (take n d)" if "prefix bs d" "length bs \<le> n" for n d
    using that by (auto simp: prefix_iff_nth)
  show ?case
    using Cons.prems
    by (auto intro!: Cons.IH cut prefix_overwrite guards_take simp: prefix_apply Let_def split: pend.split)
qed simp

section \<open>Inodes\<close>

lemma durable_push [simp]: "durable_after_sync (push_pend p nd) = apply_pend p (durable_after_sync nd)"
  by (simp add: durable_after_sync_def push_pend_def)

lemma image_push [simp]: "ino_image (push_pend p nd) = apply_pend p (ino_image nd)"
  by (simp add: push_pend_def)

lemma guarded_push: "guarded bs nd \<Longrightarrow> guards bs p \<Longrightarrow> guarded bs (push_pend p nd)"
  by (auto simp: guarded_def prefix_apply push_pend_def)

lemma guarded_durable: "guarded bs nd \<Longrightarrow> prefix bs (durable_after_sync nd)"
  by (simp add: guarded_def durable_after_sync_def prefix_fold)

lemma guards_beyond: "length bs \<le> off \<Longrightarrow> guards bs (PWrite off src)"
  by (simp add: guards_def)

lemma calm_guarded:
  assumes "calm c nd"
  shows "guarded c nd" and "covers (length c) nd"
proof -
  have wr: "guards c (PWrite off src)" if "harmless c (PWrite off src)" for off src
    unfolding guards_def
  proof (simp, intro allI impI)
    fix k assume "k < length src" and "off + k < length c"
    moreover have "take (length src) (drop off c) = src"
      using that by (simp add: harmless_def)
    ultimately show "src ! k = c ! (off + k)"
      by (metis add_leD1 less_imp_le nth_drop nth_take)
  qed
  have "guards c p" if "harmless c p" for p
    using that wr by (cases p) (auto simp: harmless_def guards_def)
  then show "guarded c nd"
    using assms by (auto simp: calm_def guarded_def)
  show "covers (length c) nd"
    using assms by (simp add: calm_def covers_def durable_after_sync_def fold_harmless)
qed

lemma covers_nth:
  "covers n nd \<longleftrightarrow> length (durable_after_sync nd) = length (ino_image nd) \<and>
    (\<forall>k < min n (length (ino_image nd)). durable_after_sync nd ! k = ino_image nd ! k)"
  by (auto simp: covers_def list_eq_iff_nth_eq)

lemma covers_write:
  assumes "covers n nd" and "off \<le> n"
  shows "covers (max n (off + length src)) (push_pend (PWrite off src) nd)"
  using assms by (auto simp: covers_nth apply_pend_def length_overwrite nth_overwrite)

lemma covers_set_len: "covers (length (ino_image nd)) nd \<Longrightarrow> covers m (push_pend (PSetLen m) nd)"
  by (auto simp: covers_nth apply_pend_def nth_resize)

lemma covers_set_len_0: "covers 0 (push_pend (PSetLen m) nd)"
  by (simp add: covers_def apply_pend_def)

lemma covers_held: "guarded bs nd \<Longrightarrow> length bs \<le> m \<Longrightarrow> covers (length bs) (push_pend (PSetLen m) nd)"
  using guarded_durable [of bs nd] by (auto simp: covers_nth apply_pend_def nth_resize guarded_def prefix_iff_nth)

lemma guarded_crash:
  assumes "guarded bs nd"
  shows "prefix bs (crash_ops tearing f i (ino_pending nd) (ino_durable nd))"
    and "prefix bs (torn_prefix_ops k (length (ino_durable nd)) (ino_pending nd) (ino_durable nd))"
    and "prefix bs (ino_durable nd)"
  using assms by (auto simp: guarded_def intro: prefix_crash_ops prefix_torn_prefix prefix_length_le)

section \<open>The contract\<close>

lemma cb_heldE:
  assumes "cb_held s p bs"
  obtains i nd where "cb_linked s p i" and "volatile s p = Some i" and "cb_inodes s i = Some nd" and "guarded bs nd"
  using assms by (auto simp: cb_held_def dest: cb_linked_volatile)

text \<open>What a file operation does to the facts about its file, from what it does to the inode.\<close>

lemma touched_log:
  assumes "cb_inodes s i = Some nd" and "touched i nd' s s'" and "volatile s p = Some i"
  shows "cb_view s' p = Some (ino_image nd')"
    and "guarded bs nd \<longrightarrow> guarded bs nd' \<Longrightarrow> cb_held s p bs \<Longrightarrow> cb_held s' p bs"
    and "covers n nd \<longrightarrow> covers m nd' \<Longrightarrow> cb_cover s p n \<Longrightarrow> cb_cover s' p m"
    and "cb_held s p bs \<Longrightarrow> guarded bs nd"
    and "covers m nd' \<Longrightarrow> cb_cover s' p m"
proof -
  have vol: "volatile s' p = Some i"
    using assms(2,3) by (simp add: touched_def volatile_def)
  have link: "cb_linked s p j \<Longrightarrow> cb_linked s' p j \<and> j = i" for j
    using assms(2,3) by (auto simp: touched_def cb_linked_def volatile_def)
  have nd': "cb_inodes s' i = Some nd'"
    using assms(2) by (simp add: touched_def)
  show "cb_view s' p = Some (ino_image nd')"
    using vol nd' by (simp add: cb_view_def)
  show "guarded bs nd" if "cb_held s p bs"
    using that assms(1) link by (auto simp: cb_held_def)
  then show "cb_held s' p bs" if "guarded bs nd \<longrightarrow> guarded bs nd'" "cb_held s p bs"
    using that nd' link by (auto simp: cb_held_def)
  show "cb_cover s' p m" if "covers m nd'"
    using that vol nd' by (simp add: cb_cover_def)
  then show "cb_cover s' p m" if "covers n nd \<longrightarrow> covers m nd'" "cb_cover s p n"
    using that assms(1,3) by (simp add: cb_cover_def)
qed

lemma crash_with_held:
  assumes "cb_held s p bs" and "\<And>i nd. guarded bs nd \<Longrightarrow> prefix bs (content i nd)"
  shows "cb_held (crash_with dirs keep content s) p bs"
proof -
  let ?s' = "crash_with dirs keep content s"
  obtain n i nd where n: "fmlookup (cb_names s) p = Some n" "nm_durable n = Some i" "nm_volatile n = Some i"
    and nd: "cb_inodes s i = Some nd" "guarded bs nd"
    using assms(1) by (auto simp: cb_held_def cb_linked_def)
  have "settle_entry keep n = n"
    using n by (simp add: settle_entry_def name_pending_def)
  then have q: "fmlookup (cb_names ?s') p = Some n"
    using n(1,2) by (simp add: crash_with_def lookup_settled Let_def)
  then have "i |\<in>| live_inodes (settled_names keep (cb_names s))"
    using n(2) unfolding live_iff by (auto simp: crash_with_def Let_def)
  then have "cb_inodes ?s' i = Some (from_content (content i nd))"
    using nd(1) by (simp add: crash_with_def Let_def)
  moreover have "guarded bs (from_content (content i nd))"
    using assms(2) [OF nd(2)] by (simp add: guarded_def from_content_def)
  ultimately show ?thesis
    using q n by (auto simp: cb_held_def cb_linked_def)
qed

lemma cb_crash_held:
  assumes "cb_crash s s'" and "cb_held s p bs"
  shows "cb_held s' p bs"
  using assms(1) unfolding cb_crash_def
proof (elim disjE exE)
  fix path k
  assume "crash_keep_torn_prefix path k s = Some s'"
  then show ?thesis
    using guarded_crash [of bs]
    by (auto simp: crash_keep_torn_prefix_def Let_def split: option.splits intro!: crash_with_held [OF assms(2)])
qed (use guarded_crash [of bs] in
      \<open>auto simp: crash_random_def crash_all_lost_def intro!: crash_with_held [OF assms(2)]\<close>)

lemma cb_remove_cases:
  assumes "cb_remove p s = (r, s')"
  obtains (fail) "r \<noteq> Inr ()" and "same_files s s'"
  | (gone) n change where "r = Inr ()" and "fmlookup (cb_names s) p = Some n"
      and "cb_names s' = fmupd p (n\<lparr>nm_volatile := None, nm_change := change\<rparr>) (cb_names s)"
      and "cb_inodes s' = cb_inodes s" and "cb_next_inode s' = cb_next_inode s" and "cb_hook s' = cb_hook s"
proof (cases "validate p False")
  case (Inl e)
  then show thesis
    using assms by (intro fail) (auto simp: cb_remove_def same_files_def)
next
  case (Inr u)
  show thesis
  proof (cases rule: check_cases [where s = s and op = "FRemove p"])
    case (fault e)
    then show thesis
      using assms Inr by (intro fail) (auto simp: cb_remove_def same_files_def)
  next
    case pass
    show thesis
    proof (cases "volatile s p")
      case None
      then show thesis
        using assms Inr pass by (intro fail) (auto simp: cb_remove_def same_files_def volatile_def)
    next
      case (Some i)
      then obtain n where "fmlookup (cb_names s) p = Some n"
        by (rule volatile_SomeE)
      then show thesis
        using assms Inr pass Some
        by (intro gone [of n "Suc (cb_next_change s)"])
          (auto simp: cb_remove_def volatile_def new_change_def relink_def Let_def)
    qed
  qed
qed

lemma cb_remove_failed:
  assumes "cb_inv s" and "cb_remove p s = (Inl e, s')"
  shows "crash.kept {} s s'"
  using assms(2) by (cases rule: cb_remove_cases) (auto intro: same_files_kept [OF _ assms(1)])

lemma cb_remove_kept:
  assumes "cb_inv s" and "cb_remove p s = (r, s')"
  shows "crash.kept {p} s s'" and "r = Inr () \<Longrightarrow> cb_view s' p = None"
proof -
  have "crash.kept {p} s s' \<and> (r = Inr () \<longrightarrow> cb_view s' p = None)"
    using assms(2)
  proof (cases rule: cb_remove_cases)
    case fail
    then show ?thesis
      using same_files_kept [OF fail(2) assms(1)] by simp
  next
    case (gone n change)
    have look: "fmlookup (cb_names s') q = fmlookup (cb_names s) q" if "q \<noteq> p" for q
      using that gone(3) by simp
    have "names_ok (cb_names s') (cb_inodes s') (cb_next_inode s')"
    proof (rule names_ok_sub)
      show "names_ok (cb_names s) (cb_inodes s) (cb_next_inode s')"
        using assms(1) gone(5) by (simp add: cb_inv_def)
      show "\<exists>m. fmlookup (cb_names s) q = Some m \<and> entry_ids k \<subseteq> entry_ids m"
        if "fmlookup (cb_names s') q = Some k" for q k
        using that gone(2,3) look [of q] by (cases "q = p") (auto simp: entry_ids_def)
      then show "cb_inodes s' i \<noteq> None" if "fmlookup (cb_names s') q = Some k" "i \<in> entry_ids k" for q k i
        using that assms(1) gone(4) unfolding cb_inv_def names_ok_def by (metis subsetD)
    qed
    then have "cb_inv s'"
      using assms(1) gone(6) by (simp add: cb_inv_def hook_ok_def)
    then have "crash.kept {p} s s'"
      by (rule crash_keptI)
        (use gone(4) look in \<open>auto simp: volatile_def cb_linked_def cb_absent_def\<close>)
    moreover have "cb_view s' p = None"
      using gone(3) by (simp add: cb_view_def volatile_def)
    ultimately show ?thesis by simp
  qed
  then show "crash.kept {p} s s'" and "r = Inr () \<Longrightarrow> cb_view s' p = None"
    by auto
qed

interpretation crash: log_medium crash_backing cb_inv cb_view cb_settled cb_synced cb_opened cb_crash cb_absent
  cb_held cb_cover
proof unfold_locales
  fix s h p assume "cb_inv s" and o: "cb_opened s h p"
  then obtain nd where "cb_inodes s (cf_inode h) = Some nd"
    by (rule cb_opened_inode)
  then show "\<exists>c. cb_view s p = Some c"
    using o by (simp add: cb_view_def cb_opened_def)
next
  fix s p c assume "cb_settled s p c"
  then show "cb_held s p c \<and> cb_cover s p (length c)"
    using calm_guarded by (auto simp: cb_settled_linked cb_held_def cb_cover_def dest: cb_linked_volatile)
next
  fix s p bs assume "cb_held s p bs"
  then show "\<exists>c. cb_view s p = Some c \<and> prefix bs c"
    by (auto elim!: cb_heldE simp: cb_view_def guarded_def)
next
  fix s p bs c assume "cb_held s p bs" and "cb_synced s p c"
  then show "cb_settled s p c"
    by (auto elim!: cb_heldE simp: cb_synced_def cb_settled_linked calm_def from_content_def)
next
  fix s s' p bs assume "cb_crash s s'" and "cb_held s p bs"
  then show "cb_held s' p bs" by (rule cb_crash_held)
next
  fix s p h c off d ru s'
  assume s: "cb_inv s" "cb_opened s h p" and c: "cb_view s p = Some c" and off: "off \<le> length c"
    and run: "f_write_at crash_backing h off d s = (ru, s')"
  obtain nd where nd: "cb_inodes s (cf_inode h) = Some nd"
    using s by (rule cb_opened_inode)
  have v: "volatile s p = Some (cf_inode h)" and img: "ino_image nd = c"
    using s(2) c nd by (auto simp: cb_opened_def cb_view_def)
  have "cf_write_at h off d s = (ru, s')"
    using run by (simp add: crash_backing_def)
  with nd obtain k nd' where t: "touched (cf_inode h) nd' s s'"
    and nd': "nd' = nd \<or> nd' = push_pend (PWrite off (take k d)) nd"
    and ok: "ru = Inr () \<longrightarrow> nd' = (if d = [] then nd else push_pend (PWrite off d) nd)"
    by (rule cf_write_at_spec)
  obtain j where j: "ru = Inr () \<longrightarrow> take j d = d" "ino_image nd' = overwrite off (take j d) c"
    "\<And>bs. length bs \<le> off \<Longrightarrow> guarded bs nd \<longrightarrow> guarded bs nd'"
    "\<And>n. off \<le> n \<Longrightarrow> covers n nd \<longrightarrow> covers (max n (off + length (take j d))) nd'"
  proof (cases "nd' = nd")
    case True
    have "ino_pending (push_pend q nd) \<noteq> ino_pending nd" for q
      by (simp add: push_pend_def)
    then have "ru = Inr () \<longrightarrow> d = []"
      using ok True by metis
    moreover have "overwrite off [] c = c"
      using off by (simp add: overwrite_def)
    ultimately show thesis
      using True img by (intro that [of 0]) (auto simp: max_def)
  next
    case False
    define j where "j = (if ru = Inr () then length d else k)"
    have "nd' = push_pend (PWrite off (take j d)) nd"
      using False nd' ok by (auto simp: j_def split: if_splits)
    then show thesis
      using img covers_write [of _ nd off "take j d"] by (intro that [of j])
        (auto simp: apply_pend_def j_def intro: guarded_push guards_beyond)
  qed
  note log = touched_log [OF nd t v]
  show "\<exists>k. (ru = Inr () \<longrightarrow> take k d = d) \<and> cb_view s' p = Some (overwrite off (take k d) c) \<and>
      (\<forall>bs. cb_held s p bs \<longrightarrow> length bs \<le> off \<longrightarrow> cb_held s' p bs) \<and>
      (\<forall>n. cb_cover s p n \<longrightarrow> off \<le> n \<longrightarrow> cb_cover s' p (max n (off + length (take k d))))"
    using j log(1) log(2) [OF j(3)] log(3) [OF j(4)]
    by (intro exI [of _ j]) (simp del: length_take)
next
  fix s p h c n ru s'
  assume s: "cb_inv s" "cb_opened s h p" and c: "cb_view s p = Some c"
    and run: "f_set_len crash_backing h n s = (ru, s')"
  obtain nd where nd: "cb_inodes s (cf_inode h) = Some nd"
    using s by (rule cb_opened_inode)
  have v: "volatile s p = Some (cf_inode h)" and img: "ino_image nd = c"
    using s(2) c nd by (auto simp: cb_opened_def cb_view_def)
  have t: "touched (cf_inode h) (if ru = Inr () then push_pend (PSetLen n) nd else nd) s s'"
    using cf_set_len_spec [OF nd] run by (simp add: crash_backing_def)
  note log = touched_log [OF nd t v]
  have len: "length bs \<le> n \<Longrightarrow> guards bs (PSetLen n)" for bs
    by (simp add: guards_def)
  show "cb_view s' p = Some (if ru = Inr () then resize n c else c) \<and>
      (\<forall>bs. cb_held s p bs \<longrightarrow> length bs \<le> n \<longrightarrow>
         cb_held s' p bs \<and> (ru = Inr () \<longrightarrow> cb_cover s' p (length bs))) \<and>
      (cb_cover s p (length c) \<longrightarrow> cb_cover s' p (if ru = Inr () then n else length c)) \<and>
      (ru = Inr () \<longrightarrow> cb_cover s' p 0)"
  proof (intro conjI allI impI)
    show "cb_cover s' p 0" if "ru = Inr ()"
      using that by (intro log(5)) (simp add: covers_set_len_0)
    show "cb_view s' p = Some (if ru = Inr () then resize n c else c)"
      using log(1) img by (simp add: apply_pend_def split: if_splits)
    show "cb_held s' p bs" if "cb_held s p bs" "length bs \<le> n" for bs
      using that guarded_push [OF _ len] by (intro log(2)) auto
    show "cb_cover s' p (length bs)" if "cb_held s p bs" "length bs \<le> n" "ru = Inr ()" for bs
      using that covers_held [OF log(4)] by (intro log(5)) simp
    show "cb_cover s' p (if ru = Inr () then n else length c)" if "cb_cover s p (length c)"
      using covers_set_len [of nd n] img by (intro log(3) [OF _ that]) auto
  qed
next
  fix s p h c ru s'
  assume s: "cb_inv s" "cb_opened s h p" and c: "cb_view s p = Some c"
    and run: "f_sync_data crash_backing h s = (ru, s')"
  obtain nd where nd: "cb_inodes s (cf_inode h) = Some nd"
    using s by (rule cb_opened_inode)
  have v: "volatile s p = Some (cf_inode h)" and img: "ino_image nd = c"
    using s(2) c nd by (auto simp: cb_opened_def cb_view_def)
  have "cf_sync_data h s = (ru, s')"
    using run by (simp add: crash_backing_def)
  with nd obtain nd' where t: "touched (cf_inode h) nd' s s'"
    and ok: "ru = Inr () \<longrightarrow> nd' = nd\<lparr>ino_durable := durable_after_sync nd, ino_pending := []\<rparr>"
    and bad: "ru \<noteq> Inr () \<longrightarrow> nd' = nd \<or> nd' = nd\<lparr>ino_pending := []\<rparr>"
    by (rule cf_sync_data_spec)
  note log = touched_log [OF nd t v]
  show "cb_view s' p = Some c \<and> (\<forall>bs. cb_held s p bs \<longrightarrow> cb_held s' p bs) \<and>
      (ru = Inr () \<longrightarrow> cb_cover s p (length c) \<longrightarrow> cb_synced s' p c)"
  proof (intro conjI allI impI)
    show "cb_view s' p = Some c"
      using log(1) ok bad img by (cases "ru = Inr ()") auto
    show "cb_held s' p bs" if "cb_held s p bs" for bs
      using ok bad guarded_durable [of bs nd]
      by (intro log(2) [OF _ that]) (cases "ru = Inr ()"; auto simp: guarded_def)
    show "cb_synced s' p c" if "ru = Inr ()" "cb_cover s p (length c)"
    proof -
      have "covers (length c) nd"
        using that(2) nd v by (simp add: cb_cover_def)
      then have "durable_after_sync nd = c"
        by (auto simp: covers_def img)
      then have "nd' = from_content c"
        using ok that(1) img by (simp add: from_content_def)
      then show ?thesis
        using t v by (simp add: cb_synced_def touched_def volatile_def)
    qed
  qed
next
  fix s p ru s'
  assume s: "cb_inv s" and run: "b_remove crash_backing p s = (ru, s')"
  then show "crash.kept {p} s s'"
    using cb_remove_kept(1) by (simp add: crash_backing_def)
next
  fix s p e s'
  assume s: "cb_inv s" and run: "b_remove crash_backing p s = (Inl e, s')"
  then show "crash.kept {} s s'"
    using cb_remove_failed by (simp add: crash_backing_def)
next
  fix s p s'
  assume s: "cb_inv s" and run: "b_remove crash_backing p s = (Inr (), s')"
  then show "cb_view s' p = None"
    using cb_remove_kept(2) by (simp add: crash_backing_def)
qed

end
