(* ===== verification/Journal_Barrier.thy ===== *)
theory Journal_Barrier
  imports Journal_Writer Crash_Log
begin

text \<open>
  What the journal writer promises. The invariant relates the writer to the files: every sealed
  segment is settled with exactly its header and its records, and the active one holds, safe from
  crashes, the records up to its synced offset, shows readers all accepted records, and is armed: the
  next successful data sync persists them, or else the writer knows that it has to rewrite them first.
  This theory states it for any medium that meets \<open>log_medium\<close> and shows that the durability barrier
  keeps it on every path, whatever fails; \<open>Journal_Safety\<close> does the same for the other operations.
\<close>

section \<open>Paths and images\<close>

lemma journal_segment_inj: "journal_segment i = journal_segment j \<longleftrightarrow> i = j"
proof
  assume "journal_segment i = journal_segment j"
  moreover have "journal_segment k = JOURNAL_DIR @ ''/'' @ (''seg-'' @ fmt_hex 16 k)" for k
    by (simp add: journal_segment_def)
  ultimately show "i = j"
    using parse_journal_segment_iff by (metis option.inject)
qed simp

lemma journal_segment_other:
  "journal_segment i \<noteq> DURABLE_PROOF_A" "journal_segment i \<noteq> DURABLE_PROOF_B"
  "journal_segment i \<noteq> JOURNAL_DURABLE_MARK" "DURABLE_PROOF_A \<noteq> journal_segment i"
  "DURABLE_PROOF_B \<noteq> journal_segment i" "JOURNAL_DURABLE_MARK \<noteq> journal_segment i"
  by (simp_all add: journal_segment_def JOURNAL_DIR_def DURABLE_PROOF_A_def DURABLE_PROOF_B_def
      JOURNAL_DURABLE_MARK_def)

lemma mark_not_proof: "JOURNAL_DURABLE_MARK \<noteq> DURABLE_PROOF_A" "JOURNAL_DURABLE_MARK \<noteq> DURABLE_PROOF_B"
  by (simp_all add: DURABLE_PROOF_A_def DURABLE_PROOF_B_def JOURNAL_DURABLE_MARK_def)

text \<open>The bytes of a segment with the given records.\<close>

definition seg_image :: "(bytes \<Rightarrow> u32) \<Rightarrow> uuid \<Rightarrow> segment_info \<Rightarrow> journal_record list \<Rightarrow> bytes" where
  "seg_image crc u i rs =
     segment_header_encode crc \<lparr>sg_segment_index = sg_index i, sg_volume_uuid = u, sg_base_sequence = sg_base i\<rparr>
     @ encode_log crc rs"

definition seg_wf :: "(bytes \<Rightarrow> u32) \<Rightarrow> uuid \<Rightarrow> segment_info \<Rightarrow> journal_record list \<Rightarrow> bool" where
  "seg_wf crc u i rs \<longleftrightarrow> log_ok (sg_base i) rs \<and> unat (sg_record_count i) = length rs \<and>
     sg_size i = length (seg_image crc u i rs)"

lemma seg_image_append: "seg_image crc u i (rs @ qs) = seg_image crc u i rs @ encode_log crc qs"
  by (simp add: seg_image_def)

lemma log_ok_bound: "log_ok s rs \<Longrightarrow> unat s + length rs < 2 ^ 64"
proof (induction rs arbitrary: s)
  case Nil
  then show ?case using unat_lt2p [of s] by simp
next
  case (Cons r rs)
  then have "unat (s + 1) = unat s + 1"
    using checked_add_SomeD [of s 1 "s + 1"] by auto
  moreover have "unat (s + 1) + length rs < 2 ^ 64"
    using Cons.prems by (intro Cons.IH) simp
  ultimately show ?case by simp
qed

lemma log_ok_sequence:
  "log_ok s rs \<Longrightarrow> r \<in> set rs \<Longrightarrow> unat s \<le> unat (jr_sequence r) \<and> unat (jr_sequence r) < unat s + length rs"
proof (induction rs arbitrary: s)
  case (Cons q rs)
  then have "unat (s + 1) = unat s + 1"
    using checked_add_SomeD [of s 1 "s + 1"] by auto
  then show ?case
    using Cons by fastforce
qed simp

text \<open>The active segment: \<open>ra1\<close> are the records up to the synced offset, \<open>ra2\<close> the pending ones.\<close>

definition act_path :: "('h, 'd) active_segment \<Rightarrow> string" where
  "act_path a = journal_segment (sg_index (ac_info a))"

definition act_wf ::
  "(bytes \<Rightarrow> u32) \<Rightarrow> uuid \<Rightarrow> ('h, 'd) active_segment \<Rightarrow> journal_record list \<Rightarrow> journal_record list \<Rightarrow> bool" where
  "act_wf crc u a ra1 ra2 \<longleftrightarrow> seg_wf crc u (ac_info a) (ra1 @ ra2) \<and>
     ac_write_offset a = length (seg_image crc u (ac_info a) (ra1 @ ra2)) \<and>
     ac_synced_offset a = length (seg_image crc u (ac_info a) ra1) \<and>
     (ac_unsynced a \<longleftrightarrow> ra2 \<noteq> [])"

section \<open>Counters\<close>

text \<open>Segments follow one another without a gap, except below the covered boundary \<open>holes\<close>.\<close>

definition bridged :: "u64 \<Rightarrow> u64 \<Rightarrow> u64 \<Rightarrow> bool" where
  "bridged holes b x \<longleftrightarrow> x = b \<or> (b \<le> holes + 1 \<and> x \<le> holes + 1)"

fun chain :: "u64 \<Rightarrow> u64 option \<Rightarrow> segment_info list \<Rightarrow> u64 \<Rightarrow> bool" where
  "chain holes e [] x = (case e of None \<Rightarrow> True | Some b \<Rightarrow> bridged holes b x)"
| "chain holes e (i # is) x \<longleftrightarrow>
     (case e of None \<Rightarrow> True | Some b \<Rightarrow> bridged holes b (sg_base i)) \<and>
     chain holes (Some (sg_base i + sg_record_count i)) is x"

text \<open>The part of the invariant that is about the writer alone.\<close>

definition counters ::
  "(bytes \<Rightarrow> u32) \<Rightarrow> journal_record list \<Rightarrow> journal_record list \<Rightarrow> ('h, 'd) journal_writer \<Rightarrow> bool" where
  "counters crc ra1 ra2 w \<longleftrightarrow>
     sorted_wrt (<) (map sg_index (all_segments w)) \<and>
     (\<forall>i \<in> set (all_segments w). sg_index i < jw_next_segment_index w) \<and>
     (\<forall>k. jw_creation_cleanup w = Some k \<longrightarrow> jw_active w = None \<and> k = jw_next_segment_index w) \<and>
     jw_next_sequence w = jw_appended_sequence w + 1 \<and>
     unat (jw_next_sequence w) = unat (jw_appended_sequence w) + 1 \<and>
     (\<forall>i \<in> set (jw_sealed w). unat (sg_base i) + unat (sg_record_count i) \<le> unat (jw_durable_sequence w) + 1) \<and>
     chain (jw_holes_allowed_below w) None (all_segments w) (jw_next_sequence w) \<and>
     (case jw_active w of
        None \<Rightarrow> ra1 = [] \<and> ra2 = [] \<and> jw_durable_sequence w = jw_appended_sequence w
      | Some a \<Rightarrow> act_wf crc (jw_volume_uuid w) a ra1 ra2 \<and>
          unat (sg_base (ac_info a)) + length (ra1 @ ra2) = unat (jw_next_sequence w) \<and>
          unat (jw_durable_sequence w) + 1 = unat (sg_base (ac_info a)) + length ra1)"

text \<open>What a barrier leaves of the writer.\<close>

definition same_log :: "('h, 'd) journal_writer \<Rightarrow> ('h, 'd) journal_writer \<Rightarrow> bool" where
  "same_log w w' \<longleftrightarrow>
     jw_volume_uuid w' = jw_volume_uuid w \<and> jw_segment_size w' = jw_segment_size w \<and>
     jw_next_sequence w' = jw_next_sequence w \<and> jw_appended_sequence w' = jw_appended_sequence w \<and>
     jw_sealed w' = jw_sealed w \<and> map_option ac_info (jw_active w') = map_option ac_info (jw_active w) \<and>
     jw_next_segment_index w' = jw_next_segment_index w \<and> jw_creation_cleanup w' = jw_creation_cleanup w \<and>
     jw_holes_allowed_below w' = jw_holes_allowed_below w"

lemma same_log_refl [simp]: "same_log w w"
  by (simp add: same_log_def)

lemma same_log_segments: "same_log w w' \<Longrightarrow> all_segments w' = all_segments w"
  by (cases "jw_active w"; cases "jw_active w'") (simp_all add: same_log_def all_segments_def)

lemma counters_active_fresh:
  assumes "counters crc ra1 ra2 w" and "jw_active w = Some a" and "i \<in> set (jw_sealed w)"
  shows "journal_segment (sg_index i) \<noteq> act_path a"
  using assms by (auto simp: counters_def all_segments_def act_path_def journal_segment_inj sorted_wrt_append)

lemma counters_acknowledge:
  assumes "counters crc ra1 ra2 w" and "jw_active w = Some a" and "same_log w w'" and "jw_active w' = Some a'"
    and "act_wf crc (jw_volume_uuid w) a' (ra1 @ ra2) []" and "jw_durable_sequence w' = jw_appended_sequence w"
  shows "counters crc (ra1 @ ra2) [] w'"
proof -
  have info: "ac_info a' = ac_info a"
    using assms(2,3,4) by (simp add: same_log_def)
  have "unat (jw_durable_sequence w) \<le> unat (jw_appended_sequence w)"
    using assms(1,2) by (auto simp: counters_def)
  then show ?thesis
    using assms same_log_segments [OF assms(3)] info
    by (fastforce simp: counters_def same_log_def)
qed

lemma counters_same:
  assumes "same_log w w'" and "jw_active w' = jw_active w" and "jw_durable_sequence w' = jw_durable_sequence w"
  shows "counters crc ra1 ra2 w' = counters crc ra1 ra2 w"
  using assms same_log_segments [OF assms(1)]
  by (cases "jw_active w") (simp_all add: counters_def same_log_def)

lemma counters_redirty:
  assumes "counters crc ra1 ra2 w" and "jw_active w = Some a" and "same_log w w'"
    and "jw_active w' = Some (a\<lparr>ac_needs_redirty := True\<rparr>)" and "jw_durable_sequence w' = jw_durable_sequence w"
  shows "counters crc ra1 ra2 w'"
  using assms same_log_segments [OF assms(3)] by (auto simp: counters_def same_log_def act_wf_def)

lemma jw_same: "\<exists>q. w = w\<lparr>jw_proof := q\<rparr>" "\<exists>h. w = w\<lparr>jw_mark := h\<rparr>"
  by (rule exI [of _ "jw_proof w"], simp) (rule exI [of _ "jw_mark w"], simp)

lemma chain_snoc:
  "chain holes e (is @ [i]) x \<longleftrightarrow>
     chain holes e is (sg_base i) \<and> bridged holes (sg_base i + sg_record_count i) x"
  by (induction "is" arbitrary: e) auto

section \<open>Rewriting a range\<close>

context log_medium
begin

lemma rewrite_loop_spec:
  assumes "rewrite_loop B H h off stop d s = (r, s')"
    and "inv s" and "opened s h p" and "view s p = Some c" and "stop \<le> length c" and "off \<le> stop"
    and "held s p bs" and "length bs \<le> off" and "cover s p off"
  shows "kept {p} s s' \<and> opened s' h p \<and> view s' p = Some c \<and> held s' p bs \<and>
    (\<forall>d'. r = Inr d' \<longrightarrow> cover s' p stop)"
  using assms
proof (induction "stop - off" arbitrary: off d s rule: less_induct)
  case less
  show ?case
  proof (cases "off < stop")
    case False
    then have "s' = s" and "off = stop"
      using less.prems(1,6) by (simp_all add: rewrite_loop.simps split: if_splits)
    then show ?thesis
      using less.prems kept_refl by simp
  next
    case True
    let ?len = "min (stop - off) REWRITE_CHUNK"
    obtain rr s1 where rd: "f_read_at B h off ?len s = (rr, s1)"
      by fastforce
    note k1 = read_kept [OF less.prems(2,3) rd] and v1 = read_keep [OF less.prems(2,3,4) rd]
    have s1: "inv s1" "opened s1 h p" "view s1 p = Some c" "held s1 p bs" "cover s1 p off"
      using k1 v1 less.prems(4,7,9) keptD(6,7) [of "{}" s s1 p] by auto
    have k01: "kept {p} s s1"
      using k1 kept_mono by blast
    show ?thesis
    proof (cases rr)
      case (Inl e)
      then show ?thesis
        using less.prems(1) True rd s1 k01 by (auto simp: rewrite_loop.simps [of B H h off] Let_def)
    next
      case (Inr chunk)
      have chunk: "chunk = take ?len (drop off c)" and len: "length chunk = ?len"
        using v1 Inr by auto
      have off: "off \<le> length c"
        using True less.prems(5) by simp
      obtain rw s2 where wr: "f_write_at B h off chunk s1 = (rw, s2)"
        by fastforce
      obtain k where k: "rw = Inr () \<longrightarrow> take k chunk = chunk" "view s2 p = Some (overwrite off (take k chunk) c)"
        "held s2 p bs" "cover s2 p (max off (off + length (take k chunk)))"
        using write_log [OF s1(1,2,3) off wr] s1(4,5) less.prems(8) by blast
      have "take k chunk = take (min k ?len) (drop off c)"
        by (simp add: chunk)
      then have "overwrite off (take k chunk) c = c"
        using overwrite_part [of off "min k ?len" c] less.prems(5) True by simp
      then have v2: "view s2 p = Some c"
        using k(2) by simp
      have k12: "kept {p} s1 s2" "opened s2 h p"
        using write_kept [OF s1(1,2) wr] by simp_all
      then have k02: "kept {p} s s2"
        using kept_trans [OF k01] by blast
      show ?thesis
      proof (cases rw)
        case (Inl e)
        then show ?thesis
          using less.prems(1) True rd Inr wr v2 k(3) k02 k12(2)
          by (auto simp: rewrite_loop.simps [of B H h off] Let_def)
      next
        case (Inr u)
        have run: "rewrite_loop B H h (off + ?len) stop (hs_write H d chunk) s2 = (r, s')"
          using less.prems(1) True rd \<open>rr = Inr chunk\<close> wr Inr
          by (simp add: rewrite_loop.simps [of B H h off] Let_def)
        have "0 < ?len"
          using True by (simp add: REWRITE_CHUNK_def)
        moreover have "cover s2 p (off + ?len)"
          using k(1,4) Inr len by simp
        ultimately have "kept {p} s2 s' \<and> opened s' h p \<and> view s' p = Some c \<and> held s' p bs \<and>
            (\<forall>d'. r = Inr d' \<longrightarrow> cover s' p stop)"
          using less.prems(5,8) True kept_inv [OF k02]
          by (intro less.hyps [OF _ run _ k12(2) v2 _ _ k(3)]) auto
        then show ?thesis
          using kept_trans [OF k02] by blast
      qed
    qed
  qed
qed

text \<open>Lifting errors does not change what a program does.\<close>

lemma io_coreE:
  assumes "io_core m s = (r, s')"
  obtains q where "m s = (q, s')" and "r = map_sum CoreIo id q"
  using assms by (auto simp: io_core_def split: prod.splits)

lemma io_core_Inr: "io_core m s = (Inr x, s') \<longleftrightarrow> m s = (Inr x, s')"
  by (auto simp: io_core_def map_sum_def split: prod.splits sum.splits)

section \<open>The active segment and its file\<close>

definition filed ::
  "(bytes \<Rightarrow> u32) \<Rightarrow> uuid \<Rightarrow> ('h, 'd) active_segment \<Rightarrow> journal_record list \<Rightarrow> journal_record list \<Rightarrow> 's \<Rightarrow> bool" where
  "filed crc u a ra1 ra2 s \<longleftrightarrow>
     opened s (ac_file a) (act_path a) \<and>
     held s (act_path a) (seg_image crc u (ac_info a) ra1) \<and>
     (\<exists>v. view s (act_path a) = Some v \<and> prefix (seg_image crc u (ac_info a) (ra1 @ ra2)) v \<and>
        (\<not> ac_needs_tail_cleanup a \<longrightarrow> v = seg_image crc u (ac_info a) (ra1 @ ra2)) \<and>
        (\<not> ac_needs_redirty a \<longrightarrow> cover s (act_path a) (length v))) \<and>
     (\<not> ac_unsynced a \<and> \<not> ac_needs_tail_cleanup a \<longrightarrow>
        settled s (act_path a) (seg_image crc u (ac_info a) (ra1 @ ra2)) \<and> \<not> ac_needs_redirty a)"

text \<open>The file operations see a file that starts with the accepted image.\<close>

lemma resize_prefix: "prefix img v \<Longrightarrow> resize (length img) v = img"
  by (auto simp: prefix_def resize_def)

lemma rearm_spec:
  assumes "filed crc u a ra1 ra2 s" and "act_wf crc u a ra1 ra2" and "inv s"
    and "ac_unsynced a \<or> ac_needs_tail_cleanup a" and "rearm B H a s = (r, s')"
  shows "kept {act_path a} s s'" and "filed crc u a ra1 ra2 s'"
    and "r = Inr () \<Longrightarrow> view s' (act_path a) = Some (seg_image crc u (ac_info a) (ra1 @ ra2)) \<and>
      cover s' (act_path a) (length (seg_image crc u (ac_info a) (ra1 @ ra2)))"
proof -
  let ?p = "act_path a" and ?h = "ac_file a"
  let ?img1 = "seg_image crc u (ac_info a) ra1" and ?img = "seg_image crc u (ac_info a) (ra1 @ ra2)"
  have off: "ac_write_offset a = length ?img" "ac_synced_offset a = length ?img1" "length ?img1 \<le> length ?img"
    using assms(2) by (simp_all add: act_wf_def seg_image_append)
  from assms(1) obtain v where f: "opened s ?h ?p" "held s ?p ?img1" "view s ?p = Some v" "prefix ?img v"
    "\<not> ac_needs_tail_cleanup a \<Longrightarrow> v = ?img" "\<not> ac_needs_redirty a \<Longrightarrow> cover s ?p (length v)"
    by (auto simp: filed_def)
  have again: "filed crc u a ra1 ra2 t"
    if "opened t ?h ?p" "held t ?p ?img1" "view t ?p = Some ?img" "\<not> ac_needs_redirty a \<longrightarrow> cover t ?p (length ?img)" for t
    using that assms(4) by (auto simp: filed_def)
  let ?first = "if ac_needs_tail_cleanup a \<or> ac_needs_redirty a
    then io_core (f_set_len B ?h (ac_write_offset a)) else io_return ()"
  have first: "kept {?p} s t \<and> opened t ?h ?p \<and> held t ?p ?img1 \<and>
      (q = Inr () \<and> view t ?p = Some ?img \<and>
         cover t ?p (if ac_needs_redirty a then length ?img1 else length ?img)
       \<or> (\<exists>e. q = Inl e) \<and> filed crc u a ra1 ra2 t)"
    if run: "?first s = (q, t)" for q t
  proof (cases "ac_needs_tail_cleanup a \<or> ac_needs_redirty a")
    case True
    then obtain q' where len: "f_set_len B ?h (length ?img) s = (q', t)" and q: "q = map_sum CoreIo id q'"
      using run off(1) by (auto elim: io_coreE)
    note k = set_len_kept [OF assms(3) f(1) len] and l = set_len_log [OF assms(3) f(1,3) len]
    have h: "held t ?p ?img1"
      using l f(2) off(3) by blast
    show ?thesis
    proof (cases q')
      case (Inl e)
      have "filed crc u a ra1 ra2 t"
        using l k h f(4-6) Inl assms(4) by (auto simp: filed_def)
      then show ?thesis
        using k h q Inl by auto
    next
      case (Inr x)
      have "view t ?p = Some ?img"
        using l Inr resize_prefix [OF f(4)] by simp
      moreover have "cover t ?p (if ac_needs_redirty a then length ?img1 else length ?img)"
        using l Inr f(2,6) off(3) by auto
      ultimately show ?thesis
        using k h q Inr by auto
    qed
  next
    case False
    then show ?thesis
      using run f kept_refl [OF assms(3)] by auto
  qed
  from assms(5) have "kept {?p} s s' \<and> filed crc u a ra1 ra2 s' \<and>
      (r = Inr () \<longrightarrow> view s' ?p = Some ?img \<and> cover s' ?p (length ?img))"
    unfolding rearm_def
  proof (cases rule: io_bindE)
    case (err e)
    then show ?thesis
      using first [OF err(1)] by auto
  next
    case (ok x s1)
    have s1: "kept {?p} s s1" "opened s1 ?h ?p" "held s1 ?p ?img1" "view s1 ?p = Some ?img"
      "cover s1 ?p (if ac_needs_redirty a then length ?img1 else length ?img)"
      using first [OF ok(1)] by auto
    show ?thesis
    proof (cases "ac_needs_redirty a")
      case False
      then show ?thesis
        using ok(2) s1 again [of s1] by auto
    next
      case True
      have run: "rewrite_verified_range B H ?h (length ?img1) (length ?img) (hs_finish H (ac_pending_fingerprint a)) s1
          = (r, s')"
        using ok(2) True off by simp
      obtain q where loop: "rewrite_loop B H ?h (length ?img1) (length ?img) (hs_new H) s1 = (q, s')"
        and q: "r = Inr () \<longrightarrow> (\<exists>d. q = Inr d)"
        using run unfolding rewrite_verified_range_def
        by (cases rule: io_bindE) (auto elim!: io_coreE simp: io_core_Inr split: if_splits)
      have "cover s1 ?p (length ?img1)"
        using s1(5) True by simp
      note l = rewrite_loop_spec [OF loop kept_inv [OF s1(1)] s1(2,4) _ off(3) s1(3) _ this]
      then have l': "kept {?p} s1 s'" "opened s' ?h ?p" "view s' ?p = Some ?img" "held s' ?p ?img1"
        "\<And>d'. q = Inr d' \<Longrightarrow> cover s' ?p (length ?img)"
        by simp_all
      have "filed crc u a ra1 ra2 s'"
        using True by (intro again [OF l'(2,4,3)]) simp
      then show ?thesis
        using l' q kept_trans [OF s1(1) l'(1)] by blast
    qed
  qed
  then show "kept {?p} s s'" and "filed crc u a ra1 ra2 s'"
    and "r = Inr () \<Longrightarrow> view s' ?p = Some ?img \<and> cover s' ?p (length ?img)"
    by blast+
qed

section \<open>The invariant\<close>

definition sealed_ok ::
  "(bytes \<Rightarrow> u32) \<Rightarrow> uuid \<Rightarrow> 's \<Rightarrow> segment_info list \<Rightarrow> journal_record list list \<Rightarrow> bool" where
  "sealed_ok crc u s segs rss \<longleftrightarrow>
     list_all2 (\<lambda>i rs. seg_wf crc u i rs \<and> settled s (journal_segment (sg_index i)) (seg_image crc u i rs)) segs rss"

definition mark_ok :: "'s \<Rightarrow> ('h, 'd) journal_writer \<Rightarrow> bool" where
  "mark_ok s w \<longleftrightarrow> (\<forall>h. jw_mark w = Some h \<longrightarrow> opened s h JOURNAL_DURABLE_MARK)"

definition jinv ::
  "(bytes \<Rightarrow> u32) \<Rightarrow> journal_record list list \<Rightarrow> journal_record list \<Rightarrow> journal_record list \<Rightarrow>
   's \<times> ('h, 'd) journal_writer \<Rightarrow> bool" where
  "jinv crc rss ra1 ra2 sw \<longleftrightarrow> (case sw of (s, w) \<Rightarrow>
     inv s \<and> sealed_ok crc (jw_volume_uuid w) s (jw_sealed w) rss \<and> mark_ok s w \<and> counters crc ra1 ra2 w \<and>
     (\<forall>a. jw_active w = Some a \<longrightarrow> filed crc (jw_volume_uuid w) a ra1 ra2 s))"

lemma sealed_kept:
  assumes "sealed_ok crc u s segs rss" and "kept P s s'" and "\<And>i. i \<in> set segs \<Longrightarrow> journal_segment (sg_index i) \<notin> P"
  shows "sealed_ok crc u s' segs rss"
  using assms(1,3) unfolding sealed_ok_def
  by (auto simp: list_all2_conv_all_nth intro!: keptD(2) [OF assms(2)])

lemma mark_kept: "mark_ok s w \<Longrightarrow> kept P s s' \<Longrightarrow> JOURNAL_DURABLE_MARK \<notin> P \<Longrightarrow> mark_ok s' w"
  by (simp add: mark_ok_def keptD(5))

lemma filed_kept: "filed crc u a ra1 ra2 s \<Longrightarrow> kept P s s' \<Longrightarrow> act_path a \<notin> P \<Longrightarrow> filed crc u a ra1 ra2 s'"
  by (auto simp: filed_def keptD)

section \<open>The barrier\<close>

lemma devE:
  assumes "dev m (s, w) = (r, sw')"
  obtains s' where "m s = (r, s')" and "sw' = (s', w)"
  using assms by (auto simp: dev_def split: prod.splits)

lemma modifies_advance: "modifies {DURABLE_PROOF_A, DURABLE_PROOF_B} (proof_advance B crc p)"
proof -
  have fixed: "modifies {q} (read_fixed B q sz foreign what accept)"
    for q sz foreign what and accept :: "bytes \<Rightarrow> format_error + 'r option"
    unfolding read_fixed_def
    by (intro modifies_open_then uses_bind uses_fmt uses_ops uses_if uses_match uses_basic modifies_if modifies_basic)
  have read: "modifies {DURABLE_PROOF_A, DURABLE_PROOF_B} (proof_read_copy B crc q u)"
    if "q \<in> {DURABLE_PROOF_A, DURABLE_PROOF_B}" for q u
    unfolding proof_read_copy_def by (rule modifies_mono [OF fixed]) (use that in auto)
  have put: "modifies {DURABLE_PROOF_A, DURABLE_PROOF_B} (proof_put B crc q)" for q
    unfolding proof_put_def by (rule modifies_mono [OF put_modifies]) auto
  show ?thesis
    unfolding proof_advance_def proof_load_def
    by (intro modifies_bind modifies_fmt modifies_ops modifies_if modifies_basic read put) simp_all
qed

text \<open>Publishing the proof touches the two copies only; the writer changes in its proof, or in the
  flag that its range has to be rewritten.\<close>

lemma publish_proof_spec:
  assumes "publish_proof B crc a (s, w) = (r, s', w')" and "inv s"
  shows "kept {DURABLE_PROOF_A, DURABLE_PROOF_B} s s' \<and>
    (r = Inr () \<and> (\<exists>q. w' = w\<lparr>jw_proof := q\<rparr>)
     \<or> (\<exists>e n. r = Inl e \<and> w' = w\<lparr>jw_active := Some (a\<lparr>ac_needs_redirty := True\<rparr>), jw_sync_failures := n\<rparr>))"
proof (cases "dp_durable_sequence (jw_proof w) < jw_appended_sequence w \<and> 0 < sg_record_count (ac_info a)")
  case False
  then show ?thesis
    using assms kept_refl by (auto simp: publish_proof_def io_bind_def ask_def jw_same)
next
  case True
  let ?c = "(jw_proof w)\<lparr>dp_durable_sequence := jw_appended_sequence w, dp_segment_index := sg_index (ac_info a),
    dp_durable_size := of_nat (ac_write_offset a)\<rparr>"
  obtain q s1 where run: "proof_advance B crc ?c s = (q, s1)"
    by fastforce
  have "kept {DURABLE_PROOF_A, DURABLE_PROOF_B} s s1"
    by (rule modifiesD [OF modifies_advance assms(2) run])
  then show ?thesis
    using assms(1) True run
    by (cases q) (auto simp: publish_proof_def io_bind_def io_match_def ask_def dev_def upd_def io_core_fmt_def
        sync_failed_def)
qed

lemma write_mark_spec:
  assumes "write_mark B crc m (s, w) = (r, s', w')" and "inv s" and "mark_ok s w"
  shows "r = Inr () \<and> kept {JOURNAL_DURABLE_MARK} s s' \<and> mark_ok s' w' \<and> (\<exists>h. w' = w\<lparr>jw_mark := h\<rparr>)"
proof -
  let ?d = "durable_mark_encode crc m"
  have put: "kept {JOURNAL_DURABLE_MARK} t t' \<and> opened t' h JOURNAL_DURABLE_MARK"
    if "inv t" "opened t h JOURNAL_DURABLE_MARK" "f_write_at B h 0 ?d t = (q, t')" for t h q t'
    using write_kept [OF that] by blast
  show ?thesis
  proof (cases "jw_mark w")
    case (Some h)
    obtain q t where "f_write_at B h 0 ?d s = (q, t)"
      by fastforce
    with put [OF assms(2) _ this] show ?thesis
      using assms(1,3) Some
      by (cases q) (auto simp: write_mark_def io_bind_def io_match_def ask_def dev_def mark_ok_def jw_same)
  next
    case None
    obtain q t where o: "b_open B JOURNAL_DURABLE_MARK True s = (q, t)"
      by fastforce
    note k = open_kept [OF assms(2) o]
    show ?thesis
    proof (cases q)
      case (Inl e)
      then show ?thesis
        using assms(1) None o k
        by (auto simp: write_mark_def io_bind_def io_match_def ask_def dev_def mark_ok_def jw_same)
    next
      case (Inr h)
      obtain q' t' where w: "f_write_at B h 0 ?d t = (q', t')"
        by fastforce
      have "opened t h JOURNAL_DURABLE_MARK"
        using open_opened [OF assms(2)] o Inr by simp
      from put [OF kept_inv [OF k] this w] show ?thesis
        using assms(1) None o Inr w kept_trans [OF k]
        by (cases q') (auto simp: write_mark_def io_bind_def io_match_def ask_def dev_def upd_def mark_ok_def)
    qed
  qed
qed

lemma jinv_kept:
  assumes "jinv crc rss ra1 ra2 (s, w)" and "kept P s s'"
    and "\<And>i. i \<in> set (jw_sealed w) \<Longrightarrow> journal_segment (sg_index i) \<notin> P" and "JOURNAL_DURABLE_MARK \<notin> P"
    and "jw_sealed w' = jw_sealed w" and "jw_volume_uuid w' = jw_volume_uuid w" and "jw_mark w' = jw_mark w"
    and "counters crc rb1 rb2 w'" and "\<And>a. jw_active w' = Some a \<Longrightarrow> filed crc (jw_volume_uuid w) a rb1 rb2 s'"
  shows "jinv crc rss rb1 rb2 (s', w')"
proof -
  have "sealed_ok crc (jw_volume_uuid w) s' (jw_sealed w) rss" and "mark_ok s' w"
    using assms(1) by (auto simp: jinv_def intro: sealed_kept [OF _ assms(2,3)] mark_kept [OF _ assms(2,4)])
  then show ?thesis
    using assms(5-) kept_inv [OF assms(2)] by (simp add: jinv_def mark_ok_def)
qed

lemma mark_jinv:
  assumes "jinv crc rss ra1 ra2 (s, w)" and "write_mark B crc m (s, w) = (r, s', w')"
  shows "r = Inr () \<and> jinv crc rss ra1 ra2 (s', w') \<and> same_log w w' \<and> jw_active w' = jw_active w \<and>
    jw_durable_sequence w' = jw_durable_sequence w"
proof -
  have J: "inv s" "mark_ok s w"
    using assms(1) by (simp_all add: jinv_def)
  from write_mark_spec [OF assms(2) this] obtain h where r: "r = Inr ()"
    and k: "kept {JOURNAL_DURABLE_MARK} s s'" and m: "mark_ok s' w'" and w': "w' = w\<lparr>jw_mark := h\<rparr>"
    by blast
  have "counters crc ra1 ra2 w'"
    using assms(1) counters_same [of w w' crc ra1 ra2] by (simp add: jinv_def w' same_log_def)
  moreover have "sealed_ok crc (jw_volume_uuid w) s' (jw_sealed w) rss"
    using assms(1) by (intro sealed_kept [OF _ k]) (auto simp: jinv_def journal_segment_other)
  moreover have "filed crc (jw_volume_uuid w) a ra1 ra2 s'" if "jw_active w = Some a" for a
    using assms(1) that by (intro filed_kept [OF _ k]) (auto simp: jinv_def act_path_def journal_segment_other)
  ultimately show ?thesis
    using r m kept_inv [OF k] by (simp add: jinv_def w' same_log_def)
qed

text \<open>A failed data sync or proof publication leaves a segment that has to be rewritten.\<close>

lemma redirty_jinv:
  assumes J: "jinv crc rss ra1 ra2 (s, w)" and a: "jw_active w = Some a" 
    and f: "filed crc (jw_volume_uuid w) (a\<lparr>ac_needs_redirty := True\<rparr>) ra1 ra2 s'"
    and k: "kept P s s'" and P: "\<And>i. i \<in> set (jw_sealed w) \<Longrightarrow> journal_segment (sg_index i) \<notin> P"
    "JOURNAL_DURABLE_MARK \<notin> P"
  shows "jinv crc rss ra1 ra2 (s', w\<lparr>jw_active := Some (a\<lparr>ac_needs_redirty := True\<rparr>), jw_sync_failures := n\<rparr>)"
    and "same_log w (w\<lparr>jw_active := Some (a\<lparr>ac_needs_redirty := True\<rparr>), jw_sync_failures := n\<rparr>)"
proof -
  let ?w' = "w\<lparr>jw_active := Some (a\<lparr>ac_needs_redirty := True\<rparr>), jw_sync_failures := n\<rparr>"
  show same: "same_log w ?w'"
    using a by (simp add: same_log_def)
  have "counters crc ra1 ra2 ?w'"
    using J by (intro counters_redirty [OF _ a same]) (simp_all add: jinv_def)
  then show "jinv crc rss ra1 ra2 (s', ?w')"
    using f by (intro jinv_kept [OF J k P]) simp_all
qed

lemma sync_active_spec:
  assumes J: "jinv crc rss ra1 ra2 (s, w)" and run: "sync_active B crc H (s, w) = (r, s', w')"
  shows "same_log w w' \<and>
    (case r of
       Inl _ \<Rightarrow> jinv crc rss ra1 ra2 (s', w')
     | Inr _ \<Rightarrow> jinv crc rss (ra1 @ ra2) [] (s', w') \<and> jw_durable_sequence w' = jw_appended_sequence w \<and>
         (\<forall>a. jw_active w' = Some a \<longrightarrow> \<not> ac_needs_tail_cleanup a))"
proof (cases "jw_active w")
  case None
  then have "r = Inr ()" "s' = s" "w' = w"
    using run by (simp_all add: sync_active_def io_bind_def ask_def)
  then show ?thesis
    using J None by (auto simp: jinv_def counters_def)
next
  case (Some a)
  let ?u = "jw_volume_uuid w" and ?p = "act_path a"
  let ?img = "seg_image crc ?u (ac_info a) (ra1 @ ra2)"
  have wf: "act_wf crc ?u a ra1 ra2" and f: "filed crc ?u a ra1 ra2 s" and inv: "inv s"
    and cnt: "counters crc ra1 ra2 w"
    using J Some by (auto simp: jinv_def counters_def)
  have P: "journal_segment (sg_index i) \<notin> {?p}" "journal_segment (sg_index i) \<notin> {DURABLE_PROOF_A, DURABLE_PROOF_B}"
    "journal_segment (sg_index i) \<notin> {?p, DURABLE_PROOF_A, DURABLE_PROOF_B}"
    if "i \<in> set (jw_sealed w)" for i
    using counters_active_fresh [OF cnt Some that] by (simp_all add: journal_segment_other)
  have M: "JOURNAL_DURABLE_MARK \<notin> {?p, DURABLE_PROOF_A, DURABLE_PROOF_B}"
    by (simp add: act_path_def journal_segment_other mark_not_proof)
  show ?thesis
  proof (cases "ac_unsynced a \<or> ac_needs_tail_cleanup a")
    case False
    then have "r = Inr ()" "s' = s" "w' = w" "ra2 = []"
      using run Some wf by (simp_all add: sync_active_def io_bind_def ask_def act_wf_def)
    then show ?thesis
      using J Some False by (auto simp: jinv_def counters_def intro: word_unat_eq_iff [THEN iffD2])
  next
    case pending: True
    obtain q1 s1 where r1: "rearm B H a s = (q1, s1)"
      by fastforce
    note re = rearm_spec [OF f wf inv pending r1]
    have inv1: "inv s1"
      using kept_inv [OF re(1)] .
    show ?thesis
    proof (cases q1)
      case (Inl e)
      then have "r = Inl e" "s' = s1" "w' = w"
        using run Some pending r1 by (auto simp: sync_active_def io_bind_def ask_def dev_def)
      moreover have "jinv crc rss ra1 ra2 (s1, w)"
        using M re(2) Some cnt by (intro jinv_kept [OF J re(1) P(1)]) auto
      ultimately show ?thesis
        by simp
    next
      case (Inr x)
      then have s1: "view s1 ?p = Some ?img" "cover s1 ?p (length ?img)"
        using re(3) by auto
      have op: "opened s1 (ac_file a) ?p" and held: "held s1 ?p (seg_image crc ?u (ac_info a) ra1)"
        using re(2) by (simp_all add: filed_def)
      obtain q2 s2 where r2: "f_sync_data B (ac_file a) s1 = (q2, s2)"
        by fastforce
      note sl = sync_log [OF inv1 op s1(1) r2] and sk = sync_data_kept [OF inv1 op r2]
      have k2: "kept {?p} s s2"
        using kept_trans [OF re(1)] sk by blast
      have v2: "view s2 ?p = Some ?img" and h2: "held s2 ?p (seg_image crc ?u (ac_info a) ra1)"
        and o2: "opened s2 (ac_file a) ?p"
        using sl held sk by blast+
      have redirty: "filed crc ?u (a\<lparr>ac_needs_redirty := True\<rparr>) ra1 ra2 t"
        if "view t ?p = Some ?img" "held t ?p (seg_image crc ?u (ac_info a) ra1)" "opened t (ac_file a) ?p" for t
        using that pending by (auto simp: filed_def act_path_def)
      show ?thesis
      proof (cases q2)
        case (Inl e)
        then have "r = Inl (CoreIo e)" "s' = s2"
          and w': "w' = w\<lparr>jw_active := Some (a\<lparr>ac_needs_redirty := True\<rparr>), jw_sync_failures := jw_sync_failures w + 1\<rparr>"
          using run Some pending r1 \<open>q1 = Inr x\<close> r2
          by (auto simp: sync_active_def io_bind_def io_match_def ask_def dev_def upd_def io_core_def sync_failed_def)
        then show ?thesis
          using redirty_jinv [OF J Some redirty [OF v2 h2 o2] k2 P(1)] M by simp
      next
        case (Inr y)
        have settled2: "settled s2 ?p ?img"
          using sl s1(2) Inr h2 held_synced [OF kept_inv [OF k2]] by auto
        obtain q3 s3 w3 where r3: "publish_proof B crc a (s2, w) = (q3, s3, w3)"
          by (metis prod.exhaust)
        note pub = publish_proof_spec [OF r3 kept_inv [OF k2]]
        have k23: "kept {DURABLE_PROOF_A, DURABLE_PROOF_B} s2 s3" and p: "?p \<notin> {DURABLE_PROOF_A, DURABLE_PROOF_B}"
          using pub by (simp_all add: act_path_def journal_segment_other)
        have k3: "kept {?p, DURABLE_PROOF_A, DURABLE_PROOF_B} s s3"
          by (rule kept_trans [OF kept_mono [OF k2] kept_mono [OF k23]]) auto
        have s3: "settled s3 ?p ?img" "view s3 ?p = Some ?img" "opened s3 (ac_file a) ?p"
          "held s3 ?p (seg_image crc ?u (ac_info a) ra1)"
          using keptD [OF k23 p] settled2 v2 o2 h2 by simp_all
        show ?thesis
        proof (cases q3)
          case (Inl e)
          then obtain n where "r = Inl e" "s' = s3"
            and "w' = w\<lparr>jw_active := Some (a\<lparr>ac_needs_redirty := True\<rparr>), jw_sync_failures := n\<rparr>"
            using run Some pending r1 \<open>q1 = Inr x\<close> r2 \<open>q2 = Inr y\<close> r3 pub
            by (auto simp: sync_active_def io_bind_def io_match_def ask_def dev_def io_core_def)
          then show ?thesis
            using redirty_jinv [OF J Some redirty [OF s3(2,4,3)] k3 P(3) M] by simp
        next
          case (Inr z)
          define a' where "a' = a\<lparr>ac_unsynced := False, ac_needs_tail_cleanup := False, ac_needs_redirty := False,
            ac_pending_fingerprint := hs_new H, ac_synced_offset := ac_write_offset a\<rparr>"
          from pub Inr obtain q where w3: "w3 = w\<lparr>jw_proof := q\<rparr>"
            by auto
          let ?w4 = "w\<lparr>jw_proof := q, jw_active := Some a', jw_durable_sequence := jw_appended_sequence w\<rparr>"
          have r4: "write_mark B crc \<lparr>dm_segment_index = sg_index (ac_info a),
              dm_durable_size = of_nat (ac_write_offset a)\<rparr> (s3, ?w4) = (r, s', w')"
            using run Some pending r1 \<open>q1 = Inr x\<close> r2 \<open>q2 = Inr y\<close> r3 Inr w3
            by (elim disjE; simp add: sync_active_def io_bind_def io_match_def ask_def dev_def upd_def io_core_def a'_def)
          have same: "same_log w ?w4"
            using Some by (simp add: same_log_def a'_def)
          have "act_wf crc ?u a' (ra1 @ ra2) []"
            using wf by (simp add: act_wf_def a'_def)
          then have cnt4: "counters crc (ra1 @ ra2) [] ?w4"
            by (intro counters_acknowledge [OF cnt Some same]) simp_all
          have "filed crc ?u a' (ra1 @ ra2) [] s3"
            using s3 settled_held [OF kept_inv [OF k3] s3(1)] by (simp add: filed_def a'_def act_path_def)
          then have "jinv crc rss (ra1 @ ra2) [] (s3, ?w4)"
            using cnt4 by (intro jinv_kept [OF J k3 P(3) M]) auto
          from mark_jinv [OF this r4] show ?thesis
            using same by (auto simp: same_log_def a'_def)
        qed
      qed
    qed
  qed
qed

end

end
