(* ===== verification/Journal_Safety.thy ===== *)
theory Journal_Safety
  imports Journal_Barrier
begin

text \<open>
  The invariant of \<open>Journal_Barrier\<close> through the remaining operations of the journal writer: sealing
  and creating segments, appending, flushing and reclaiming, on their success and failure paths. It implies the writer's own sanitizer,
  and it places every acknowledged record in a prefix of its segment that no crash can take away.
  \<open>Journal_Run\<close> draws the conclusions for whole runs.
\<close>

section \<open>Evaluating programs over the pair\<close>

lemma bind_ask: "io_bind (ask f) g (s, w) = g (f w) (s, w)"
  by (simp add: io_bind_def ask_def)

lemma bind_upd: "io_bind (upd f) g (s, w) = g () (s, f w)"
  by (simp add: io_bind_def upd_def)

lemma bind_pure: "io_bind (io_pure (Inl e)) f = io_fail e" "io_bind (io_pure (Inr x)) f = f x"
  "io_bind (io_return x) f = f x"
  by (simp_all add: fun_eq_iff io_bind_def)

lemma bind_dev_core:
  "io_bind (dev (io_core m)) f (s, w) =
     (case m s of (q, t) \<Rightarrow> (case map_sum CoreIo id q of Inl e \<Rightarrow> (Inl e, t, w) | Inr x \<Rightarrow> f x (t, w)))"
  by (auto simp: io_bind_def dev_def io_core_def split: prod.split sum.split)

lemma match_dev_core:
  "io_match (dev (io_core m)) g f (s, w) =
     (case m s of (q, t) \<Rightarrow> (case q of Inl e \<Rightarrow> g (CoreIo e) (t, w) | Inr x \<Rightarrow> f x (t, w)))"
  by (auto simp: io_match_def dev_def io_core_def split: prod.split sum.split)

section \<open>The directory of the segments\<close>

lemma hex_digits_no_slash: "CHR ''/'' \<notin> set (hex_digits n)"
proof (induction n rule: hex_digits.induct)
  case (1 n)
  have "CHR ''/'' \<noteq> hex_char d" if "d < 16" for d
  proof
    assume "CHR ''/'' = hex_char d"
    then have "hex_val (CHR ''/'') = Some d"
      using hex_val_char [OF that] by simp
    then show False
      by (simp add: hex_val_def Let_def)
  qed
  then show ?case
    using 1 by (subst hex_digits.simps) (auto split: if_splits)
qed

lemma rfind_append: "c \<notin> set ys \<Longrightarrow> rfind c (xs @ c # ys) = Some (length xs)"
  by (induction xs) (auto simp: rfind_None [THEN iffD2])

lemma parent_journal_segment: "parent (journal_segment i) = JOURNAL_DIR"
proof -
  have "CHR ''/'' \<notin> set (''seg-'' @ fmt_hex 16 i)"
    using hex_digits_no_slash by (auto simp: fmt_hex_def Let_def)
  from rfind_append [OF this, of JOURNAL_DIR] show ?thesis
    by (simp add: parent_def journal_segment_def)
qed

section \<open>Segments and their last sequence\<close>

lemma last_sequence_nat:
  assumes "unat (sg_base i) + unat (sg_record_count i) < 2 ^ 64"
  shows "unat (last_sequence i) = unat (sg_base i) + unat (sg_record_count i) - 1"
proof (cases "0 < sg_record_count i")
  case True
  have sum: "unat (sg_base i + sg_record_count i) = unat (sg_base i) + unat (sg_record_count i)"
    using assms by (simp add: unat_word_ariths)
  moreover have "1 \<le> sg_base i + sg_record_count i"
    using True sum by (simp add: word_le_nat_alt word_less_nat_alt)
  ultimately show ?thesis
    using True by (simp add: last_sequence_def unat_sub)
next
  case False
  then have "unat (sg_record_count i) = 0"
    by (simp add: word_less_nat_alt)
  then show ?thesis
    using False by (auto simp: last_sequence_def saturating_sub_def unat_sub word_le_nat_alt word_less_nat_alt)
qed

lemma chain_covered_tail:
  assumes "chain holes (Some b) segs x" and "holes \<le> ck" and "unat ck + 1 < unat b"
    and "\<forall>i \<in> set segs. unat (sg_base i) + unat (sg_record_count i) < 2 ^ 64"
  shows "\<forall>i \<in> set segs. ck < last_sequence i"
  using assms
proof (induction segs arbitrary: b)
  case (Cons i segs)
  have "unat (holes + 1) \<le> unat holes + 1"
    by (simp add: unat_word_ariths)
  then have "\<not> b \<le> holes + 1"
    using Cons.prems(2,3) by (simp add: word_le_nat_alt)
  then have b: "sg_base i = b"
    using Cons.prems(1) by (simp add: bridged_def)
  have sum: "unat (sg_base i + sg_record_count i) = unat (sg_base i) + unat (sg_record_count i)"
    using Cons.prems(4) by (simp add: unat_word_ariths)
  have "\<forall>i \<in> set segs. ck < last_sequence i"
    using Cons.prems b sum by (intro Cons.IH [of "sg_base i + sg_record_count i"]) auto
  moreover have "ck < last_sequence i"
    using last_sequence_nat [of i] Cons.prems(3,4) b by (simp add: word_less_nat_alt)
  ultimately show ?case
    by simp
qed simp

text \<open>Above the covered boundary segments are contiguous, so the covered ones come first.\<close>

lemma chain_covered:
  assumes "chain holes e segs x" and "holes \<le> ck"
    and "\<forall>i \<in> set segs. unat (sg_base i) + unat (sg_record_count i) < 2 ^ 64"
  shows "sorted_wrt (\<lambda>i j. ck < last_sequence i \<longrightarrow> ck < last_sequence j) segs"
  using assms
proof (induction segs arbitrary: e)
  case (Cons i segs)
  have "\<forall>j \<in> set segs. ck < last_sequence j" if "ck < last_sequence i"
  proof (rule chain_covered_tail [of holes "sg_base i + sg_record_count i"])
    show "unat ck + 1 < unat (sg_base i + sg_record_count i)"
      using that last_sequence_nat [of i] Cons.prems(3) by (simp add: word_less_nat_alt unat_word_ariths)
  qed (use Cons.prems in auto)
  then show ?case
    using Cons.prems Cons.IH [of "Some (sg_base i + sg_record_count i)"] by auto
qed simp

lemma chain_split: "chain holes e (xs @ ys) x \<Longrightarrow> \<exists>y. chain holes e xs y"
proof (induction xs arbitrary: e)
  case Nil
  have "chain holes e [] (case e of None \<Rightarrow> x | Some b \<Rightarrow> b)"
    by (auto simp: bridged_def split: option.split)
  then show ?case ..
qed fastforce

lemma counters_chain:
  "counters crc ra1 ra2 w \<Longrightarrow> chain (jw_holes_allowed_below w) None (all_segments w) (jw_next_sequence w)"
  unfolding counters_def by blast

lemma chain_drop: "chain holes e segs x \<Longrightarrow> chain holes None (drop k segs) x"
proof (induction segs arbitrary: e k)
  case (Cons i segs)
  then show ?case
    by (cases k) auto
qed simp

section \<open>The loop of the sanitizer\<close>

lemma check_segments_ok:
  assumes "sorted_wrt (<) (map (sg_index \<circ> fst) xs)"
    and "\<forall>x \<in> set xs. sg_index (fst x) < jw_next_segment_index w \<and> SEGMENT_HEADER_SIZE \<le> sg_size (fst x) \<and>
      unat (sg_base (fst x)) + unat (sg_record_count (fst x)) < 2 ^ 64"
    and "\<forall>i. (i, False) \<in> set xs \<longrightarrow> unat (sg_base i) + unat (sg_record_count i) \<le> unat (jw_durable_sequence w) + 1"
    and "chain (jw_holes_allowed_below w) e (map fst xs) x"
    and "case prev of None \<Rightarrow> True | Some p \<Rightarrow> \<forall>x \<in> set xs. p < sg_index (fst x)"
  shows "check_segments w prev e xs"
  using assms
proof (induction xs arbitrary: prev e)
  case (Cons y xs)
  obtain i act where y: "y = (i, act)"
    by fastforce
  have "check_segments w (Some (sg_index i)) (Some (sg_base i + sg_record_count i)) xs"
    using Cons.prems y by (intro Cons.IH) auto
  moreover have "last_sequence i \<le> jw_durable_sequence w" if "\<not> act" "0 < sg_record_count i"
    using last_sequence_nat [of i] Cons.prems(2,3) y that by (auto simp: word_le_nat_alt)
  ultimately show ?case
    using Cons.prems y by (auto simp: bridged_def split: option.splits)
qed simp

context log_medium
begin

section \<open>Sealing\<close>

lemma seal_active_spec:
  assumes J: "jinv crc rss ra1 ra2 (s, w)" and run: "seal_active B crc H (s, w) = (r, s', w')"
  shows "case r of
      Inl _ \<Rightarrow> jinv crc rss ra1 ra2 (s', w') \<and> same_log w w'
    | Inr _ \<Rightarrow> jinv crc (if jw_active w = None then rss else rss @ [ra1 @ ra2]) [] [] (s', w') \<and>
        jw_active w' = None \<and> jw_sealed w' = all_segments w \<and>
        jw_volume_uuid w' = jw_volume_uuid w \<and> jw_next_sequence w' = jw_next_sequence w \<and>
        jw_appended_sequence w' = jw_appended_sequence w \<and>
        jw_next_segment_index w' = jw_next_segment_index w \<and> jw_creation_cleanup w' = jw_creation_cleanup w \<and>
        jw_holes_allowed_below w' = jw_holes_allowed_below w"
proof -
  obtain q s1 w1 where r1: "sync_active B crc H (s, w) = (q, s1, w1)"
    by (metis prod.exhaust)
  note sa = sync_active_spec [OF J r1]
  show ?thesis
  proof (cases q)
    case (Inl e)
    then show ?thesis
      using run r1 sa by (auto simp: seal_active_def io_bind_def)
  next
    case (Inr x)
    have J1: "jinv crc rss (ra1 @ ra2) [] (s1, w1)" and d1: "jw_durable_sequence w1 = jw_appended_sequence w"
      and same: "same_log w w1" and clean: "\<And>a. jw_active w1 = Some a \<Longrightarrow> \<not> ac_needs_tail_cleanup a"
      using sa Inr by auto
    let ?w2 = "case jw_active w1 of Some a \<Rightarrow> w1\<lparr>jw_active := None, jw_sealed := jw_sealed w1 @ [ac_info a]\<rparr> | None \<Rightarrow> w1"
    have out: "r = Inr ()" "s' = s1" "w' = ?w2"
      using run r1 Inr by (cases "jw_active w1"; auto simp: seal_active_def io_bind_def upd_def)+
    show ?thesis
    proof (cases "jw_active w1")
      case None
      then have none: "jw_active w = None" and "ra1 = [] \<and> ra2 = []"
        using same J1 by (auto simp: same_log_def jinv_def counters_def)
      then show ?thesis
        using out J1 same None by (simp add: same_log_def all_segments_def)
    next
      case (Some a)
      then obtain a0 where a0: "jw_active w = Some a0" "ac_info a0 = ac_info a"
        using same by (cases "jw_active w") (auto simp: same_log_def)
      have cnt: "counters crc (ra1 @ ra2) [] w1" and f: "filed crc (jw_volume_uuid w1) a (ra1 @ ra2) [] s1"
        and sealed: "sealed_ok crc (jw_volume_uuid w1) s1 (jw_sealed w1) rss" and inv: "inv s1" and mark: "mark_ok s1 w1"
        using J1 Some by (simp_all add: jinv_def)
      have wf: "act_wf crc (jw_volume_uuid w1) a (ra1 @ ra2) []"
        and base: "unat (sg_base (ac_info a)) + length (ra1 @ ra2) = unat (jw_next_sequence w1)"
        using cnt Some by (simp_all add: counters_def)
      have seg: "seg_wf crc (jw_volume_uuid w1) (ac_info a) (ra1 @ ra2)"
        using wf by (simp add: act_wf_def)
      have "settled s1 (act_path a) (seg_image crc (jw_volume_uuid w1) (ac_info a) (ra1 @ ra2))"
        using f wf clean [OF Some] by (simp add: filed_def act_wf_def)
      then have sealed2: "sealed_ok crc (jw_volume_uuid w1) s1 (jw_sealed w1 @ [ac_info a]) (rss @ [ra1 @ ra2])"
        using sealed seg by (auto simp: sealed_ok_def act_path_def list_all2_appendI)
      have w': "w' = w1\<lparr>jw_active := None, jw_sealed := jw_sealed w1 @ [ac_info a]\<rparr>"
        using out Some by simp
      have segs: "all_segments w' = all_segments w1"
        using Some by (simp add: w' all_segments_def)
      have "unat (sg_base (ac_info a)) + unat (sg_record_count (ac_info a)) = unat (jw_durable_sequence w1) + 1"
        using seg cnt Some by (simp add: seg_wf_def counters_def)
      then have "counters crc [] [] w'"
        using cnt segs d1 same Some by (auto simp: counters_def w' same_log_def)
      then have "jinv crc (rss @ [ra1 @ ra2]) [] [] (s', w')"
        using inv mark sealed2 out(2) by (simp add: jinv_def w' mark_ok_def)
      then show ?thesis
        using out(1) a0 same Some by (simp add: w' same_log_def all_segments_def)
    qed
  qed
qed

section \<open>Creating a segment\<close>

lemma next_segment_fresh:
  assumes "counters crc ra1 ra2 w" and "i \<in> set (jw_sealed w)"
  shows "journal_segment (sg_index i) \<noteq> journal_segment (jw_next_segment_index w)"
proof -
  have "sg_index i < jw_next_segment_index w"
    using assms by (auto simp: counters_def all_segments_def)
  then show ?thesis
    by (simp add: journal_segment_inj)
qed

lemma cleanup_cases:
  assumes "cleanup_failed_creation B (s, w) = (r, s', w')" and "jw_creation_cleanup w = Some k"
    and "b_remove B (journal_segment k) s = (q1, s1)" and "b_sync_dir B JOURNAL_DIR s1 = (q2, s2)"
  shows "r \<noteq> Inr () \<and> w' = w \<and> (s' = s1 \<or> s' = s2) \<or> s' = s2 \<and> w' = w\<lparr>jw_creation_cleanup := None\<rparr>"
proof -
  define rm where "rm = io_match (b_remove B (journal_segment k)) (\<lambda>e. if e = NotFound then io_return () else io_fail e) io_return"
  have "\<exists>q. rm s = (q, s1)"
    using assms(3) by (cases q1; cases "q1 = Inl NotFound") (simp_all add: rm_def io_match_def)
  then obtain q where q: "rm s = (q, s1)" ..
  have "io_bind (dev (io_core rm)) (\<lambda>_. io_bind (dev (io_core (b_sync_dir B JOURNAL_DIR)))
      (\<lambda>_. upd (\<lambda>w. w\<lparr>jw_creation_cleanup := None\<rparr>))) (s, w) = (r, s', w')"
    using assms(1,2) by (simp only: cleanup_failed_creation_def bind_ask rm_def option.case)
  then have "(case map_sum CoreIo id q of Inl e \<Rightarrow> (Inl e, s1, w) | Inr _ \<Rightarrow>
      (case map_sum CoreIo id q2 of Inl e \<Rightarrow> (Inl e, s2, w)
       | Inr _ \<Rightarrow> (Inr (), s2, w\<lparr>jw_creation_cleanup := None\<rparr>))) = (r, s', w')"
    by (simp only: bind_dev_core q assms(4) prod.case upd_def fst_conv snd_conv)
  then show ?thesis
    by (cases q; cases q2; simp only: map_sum.simps sum.case prod.inject sum.distinct) blast+
qed

lemma cleanup_spec:
  assumes J: "jinv crc rss ra1 ra2 (s, w)" and run: "cleanup_failed_creation B (s, w) = (r, s', w')"
  shows "jinv crc rss ra1 ra2 (s', w') \<and> (w' = w \<or> w' = w\<lparr>jw_creation_cleanup := None\<rparr>) \<and>
    (r = Inr () \<longrightarrow> jw_creation_cleanup w' = None)"
proof (cases "jw_creation_cleanup w")
  case None
  then show ?thesis
    using run J by (auto simp: cleanup_failed_creation_def io_bind_def ask_def)
next
  case (Some k)
  have cnt: "counters crc ra1 ra2 w" and inv: "inv s" and none: "jw_active w = None"
    and k: "k = jw_next_segment_index w"
    using J Some by (auto simp: jinv_def counters_def)
  let ?p = "journal_segment k"
  have cleared: "counters crc ra1 ra2 (w\<lparr>jw_creation_cleanup := None\<rparr>)"
    using cnt none by (auto simp: counters_def all_segments_def)
  have keep: "jinv crc rss ra1 ra2 (t, w')" if "kept {?p} s t" "w' = w \<or> w' = w\<lparr>jw_creation_cleanup := None\<rparr>" for t w'
  proof (rule jinv_kept [OF J that(1)])
    show "journal_segment (sg_index i) \<notin> {?p}" if "i \<in> set (jw_sealed w)" for i
      using next_segment_fresh [OF cnt that] k by simp
    show "counters crc ra1 ra2 w'"
      using cnt cleared that(2) by blast
  qed (use none that(2) in \<open>auto simp: journal_segment_other\<close>)
  obtain q1 s1 where r1: "b_remove B ?p s = (q1, s1)"
    by fastforce
  obtain q2 s2 where r2: "b_sync_dir B JOURNAL_DIR s1 = (q2, s2)"
    by fastforce
  have k1: "kept {?p} s s1"
    by (rule remove_kept [OF inv r1])
  have k2: "kept {?p} s s2"
    by (rule kept_trans [OF k1 kept_mono [OF sync_dir_kept [OF kept_inv [OF k1] r2]]]) simp
  from cleanup_cases [OF run Some r1 r2] show ?thesis
    using keep [OF k1] keep [OF k2] by auto
qed

lemma uses_sync_dir: "uses h p (b_sync_dir B d)"
  unfolding uses_def using sync_dir_kept kept_mono [of "{}" _ _ "{p}"] keptD(5) [of "{}"] by blast

lemma uses_allocate: "uses h p (f_allocate_range B h off n)"
  unfolding f_allocate_range_def by (intro uses_if uses_bind uses_ops uses_basic)

lemma io_bind_match: "io_bind m f = io_match m io_fail f"
  by (auto simp: fun_eq_iff io_bind_def io_match_def split: prod.split sum.split)

lemma create_segment_modifies: "modifies {journal_segment i} (create_segment B crc u i base)"
  unfolding create_segment_def io_bind_match [of "b_open B (journal_segment i) True"]
  by (intro modifies_open_then uses_bind uses_ops uses_allocate uses_sync_dir uses_basic modifies_basic)

lemma allocate_spec:
  assumes "inv s" and "opened s h p" and "view s p = Some c" and "off \<le> length c"
    and "f_allocate_range B h off n s = (r, s')"
  shows "\<exists>c'. view s' p = Some c' \<and> (c' = c \<or> length c < off + n \<and> c' = resize (off + n) c) \<and>
    (r = Inr () \<longrightarrow> off + n \<le> length c') \<and>
    (\<forall>bs. held s p bs \<longrightarrow> length bs \<le> off \<longrightarrow> held s' p bs) \<and>
    (cover s p (length c) \<longrightarrow> cover s' p (length c'))"
proof (cases "2 ^ 64 \<le> off + n")
  case True
  then show ?thesis
    using assms by (auto simp: f_allocate_range_def)
next
  case False
  obtain q1 s1 where r1: "f_len B h s = (q1, s1)"
    by fastforce
  note k1 = len_kept [OF assms(1,2) r1] and l1 = len_keep [OF assms(1,2) r1]
  have s1: "inv s1" "opened s1 h p" "view s1 p = Some c"
    "\<And>bs. held s p bs \<Longrightarrow> held s1 p bs" "\<And>k. cover s p k \<Longrightarrow> cover s1 p k"
    using k1 l1 assms(3) keptD(6,7) [of "{}" s s1 p] by auto
  show ?thesis
  proof (cases "q1 = Inr (length c) \<and> length c < off + n")
    case True
    obtain q2 s2 where r2: "f_set_len B h (off + n) s1 = (q2, s2)"
      by fastforce
    have "r = q2" "s' = s2"
      using assms(5) False True r1 r2 by (auto simp: f_allocate_range_def io_bind_def)
    then show ?thesis
      using set_len_log [OF s1(1,2,3) r2] True s1(4,5)
      by (cases "q2 = Inr ()") (auto intro: trans_le_add1)
  next
    case False
    then have "s' = s1" and "r = Inr () \<longrightarrow> off + n \<le> length c"
      using assms(5) r1 l1 assms(3) \<open>\<not> 2 ^ 64 \<le> off + n\<close>
      by (cases q1; auto simp: f_allocate_range_def io_bind_def split: if_splits)+
    then show ?thesis
      using s1 by auto
  qed
qed

text \<open>A created segment is on disk with its header before the writer uses it.\<close>

lemma segment_header_length:
  "length (sg_volume_uuid h) = 16 \<Longrightarrow> length (segment_header_encode crc h) = SEGMENT_HEADER_SIZE"
  by (simp add: segment_header_encode_def SEGMENT_HEADER_SIZE_def finish_with_crc_def codec_simps)

lemma create_segment_settled:
  assumes "inv s" and "create_segment B crc u i base s = (Inr h, s')" and "length u = 16"
  shows "opened s' h (journal_segment i) \<and> settled s' (journal_segment i)
    (segment_header_encode crc \<lparr>sg_segment_index = i, sg_volume_uuid = u, sg_base_sequence = base\<rparr>)"
proof -
  let ?p = "journal_segment i"
  let ?hd = "segment_header_encode crc \<lparr>sg_segment_index = i, sg_volume_uuid = u, sg_base_sequence = base\<rparr>"
  from assms(2) obtain s1 s2 s3 s4 s5 where
    r1: "b_open B ?p True s = (Inr h, s1)" and r2: "f_set_len B h 0 s1 = (Inr (), s2)"
    and r3: "f_allocate_range B h 0 SEGMENT_HEADER_SIZE s2 = (Inr (), s3)"
    and r4: "f_write_at B h 0 ?hd s3 = (Inr (), s4)" and r5: "f_sync_data B h s4 = (Inr (), s5)"
    and r6: "b_sync_dir B JOURNAL_DIR s5 = (Inr (), s')"
    unfolding create_segment_def by (auto elim!: io_bind_InrE)
  have s1: "inv s1" "opened s1 h ?p"
    using open_inv [OF assms(1) r1] open_opened [OF assms(1) r1] by simp_all
  obtain c1 where c1: "view s1 ?p = Some c1"
    using opened_view [OF s1] by blast
  have s2: "inv s2" "opened s2 h ?p" "view s2 ?p = Some []" "cover s2 ?p 0"
    using set_len_kept [OF s1 r2] set_len_log [OF s1 c1 r2] kept_inv by (auto simp: resize_def)
  obtain c3 where c3: "view s3 ?p = Some c3" "length c3 = SEGMENT_HEADER_SIZE" "cover s3 ?p (length c3)"
    using allocate_spec [OF s2(1-3) _ r3] s2(4) by (auto simp: resize_def)
  have s3: "inv s3" "opened s3 h ?p"
    using usesD [OF uses_allocate s2(1,2) r3] kept_inv by blast+
  have s4: "inv s4" "opened s4 h ?p"
    using write_kept [OF s3 r4] kept_inv by blast+
  obtain k where k: "take k ?hd = ?hd" "view s4 ?p = Some (overwrite 0 (take k ?hd) c3)"
    "cover s4 ?p (max (length c3) (0 + length (take k ?hd)))"
    using write_log [OF s3 c3(1) _ r4] c3(3) by auto
  have v4: "view s4 ?p = Some ?hd" "cover s4 ?p (length ?hd)"
    using k c3(2) segment_header_length [of _ crc] assms(3) by (simp_all add: overwrite_def)
  have s5: "inv s5" "opened s5 h ?p" "synced s5 ?p ?hd"
    using sync_data_kept [OF s4 r5] kept_inv sync_log [OF s4 v4(1) r5] v4(2) by blast+
  show ?thesis
    using sync_dir_settles [OF s5(1,3)] r6 usesD [OF uses_sync_dir s5(1,2) r6]
    by (simp add: parent_journal_segment)
qed

section \<open>Rolling\<close>

text \<open>The records of the journal, oldest first, and what every operation leaves of the counters.\<close>

definition logged :: "(bytes \<Rightarrow> u32) \<Rightarrow> journal_record list \<Rightarrow> 's \<times> ('h, 'd) journal_writer \<Rightarrow> bool" where
  "logged crc L sw \<longleftrightarrow> (\<exists>rss ra1 ra2. jinv crc rss ra1 ra2 sw \<and> concat rss @ ra1 @ ra2 = L)"

definition settles :: "('h, 'd) journal_writer \<Rightarrow> ('h, 'd) journal_writer \<Rightarrow> bool" where
  "settles w w' \<longleftrightarrow>
     jw_volume_uuid w' = jw_volume_uuid w \<and> jw_holes_allowed_below w' = jw_holes_allowed_below w \<and>
     jw_next_sequence w' = jw_next_sequence w \<and> jw_appended_sequence w' = jw_appended_sequence w \<and>
     jw_durable_sequence w \<le> jw_durable_sequence w'"

lemma settles_refl [simp]: "settles w w"
  by (simp add: settles_def)

lemma settles_trans: "settles w w' \<Longrightarrow> settles w' w'' \<Longrightarrow> settles w w''"
  by (auto simp: settles_def)

lemma loggedI: "jinv crc rss ra1 ra2 sw \<Longrightarrow> concat rss @ ra1 @ ra2 = L \<Longrightarrow> logged crc L sw"
  unfolding logged_def by blast

lemma counters_durable_le: "counters crc ra1 ra2 w \<Longrightarrow> jw_durable_sequence w \<le> jw_appended_sequence w"
  by (cases "jw_active w") (auto simp: counters_def word_le_nat_alt)

lemma counters_durable_eq:
  assumes "counters crc ra1 ra2 w" and "counters crc ra1 ra2 w'" and "same_log w w'"
  shows "jw_durable_sequence w' = jw_durable_sequence w"
proof (cases "jw_active w")
  case None
  then have "jw_active w' = None"
    using assms(3) by (simp add: same_log_def)
  with None show ?thesis
    using assms by (auto simp: counters_def same_log_def)
next
  case (Some a)
  then obtain a' where a': "jw_active w' = Some a'" "ac_info a' = ac_info a"
    using assms(3) by (cases "jw_active w'") (auto simp: same_log_def)
  have "unat (jw_durable_sequence w') + 1 = unat (jw_durable_sequence w) + 1"
    using assms(1,2) Some a' by (simp add: counters_def)
  then show ?thesis
    by (simp add: word_unat_eq_iff)
qed

lemma same_log_settles:
  assumes "same_log w w'" and "jw_durable_sequence w \<le> jw_durable_sequence w'"
  shows "settles w w'"
  using assms by (simp add: settles_def same_log_def)

lemma seal_settles:
  assumes J: "jinv crc rss ra1 ra2 (s, w)" and run: "seal_active B crc H (s, w) = (r, s', w')"
  shows "logged crc (concat rss @ ra1 @ ra2) (s', w') \<and> settles w w'"
proof (cases r)
  case (Inl e)
  then have J': "jinv crc rss ra1 ra2 (s', w')" and "same_log w w'"
    using seal_active_spec [OF J run] by simp_all
  moreover from this have "jw_durable_sequence w' = jw_durable_sequence w"
    using J by (intro counters_durable_eq [of crc ra1 ra2]) (simp_all add: jinv_def)
  ultimately show ?thesis
    by (simp add: loggedI same_log_settles)
next
  case (Inr x)
  let ?rss = "if jw_active w = None then rss else rss @ [ra1 @ ra2]"
  have J': "jinv crc ?rss [] [] (s', w')" and none: "jw_active w' = None"
    and same: "jw_volume_uuid w' = jw_volume_uuid w" "jw_next_sequence w' = jw_next_sequence w"
      "jw_appended_sequence w' = jw_appended_sequence w" "jw_holes_allowed_below w' = jw_holes_allowed_below w"
    using seal_active_spec [OF J run] Inr by simp_all
  have cnt: "counters crc ra1 ra2 w" and cnt': "counters crc [] [] w'"
    using J J' by (simp_all add: jinv_def)
  have "jw_active w = None \<Longrightarrow> ra1 = [] \<and> ra2 = []"
    using cnt by (simp add: counters_def)
  then have "concat ?rss @ [] @ [] = concat rss @ ra1 @ ra2"
    by simp
  moreover have "jw_durable_sequence w' = jw_appended_sequence w"
    using cnt' none same by (simp add: counters_def)
  ultimately show ?thesis
    using loggedI [OF J'] same counters_durable_le [OF cnt] by (simp add: settles_def)
qed

text \<open>A fresh active segment after the sealed ones.\<close>

lemma fresh_jinv:
  assumes J: "jinv crc rss [] [] (s, w)" and none: "jw_active w = None" and c: "jw_creation_cleanup w = None"
    and i: "jw_next_segment_index w = i" "checked_add i 1 = Some n"
    and u: "length (jw_volume_uuid w) = 16"
    and k: "kept {journal_segment i} s s'" and h: "opened s' h (journal_segment i)"
    and st: "settled s' (journal_segment i) (segment_header_encode crc
      \<lparr>sg_segment_index = i, sg_volume_uuid = jw_volume_uuid w, sg_base_sequence = jw_next_sequence w\<rparr>)"
  shows "jinv crc rss [] [] (s', w\<lparr>jw_next_segment_index := n, jw_active := Some (fresh_segment H i (jw_next_sequence w) h)\<rparr>)"
proof -
  let ?a = "fresh_segment H i (jw_next_sequence w) h"
  let ?w = "w\<lparr>jw_next_segment_index := n, jw_active := Some ?a\<rparr>"
  let ?hd = "segment_header_encode crc
      \<lparr>sg_segment_index = i, sg_volume_uuid = jw_volume_uuid w, sg_base_sequence = jw_next_sequence w\<rparr>"
  have cnt: "counters crc [] [] w"
    using J by (simp add: jinv_def)
  have n: "unat n = unat i + 1"
    using checked_add_SomeD [OF i(2)] by auto
  have img: "seg_image crc (jw_volume_uuid w) (ac_info ?a) [] = ?hd" and path: "act_path ?a = journal_segment i"
    by (simp_all add: seg_image_def fresh_segment_def act_path_def)
  have wf: "act_wf crc (jw_volume_uuid w) ?a [] []"
    using img segment_header_length [of _ crc] u
    by (simp add: act_wf_def seg_wf_def) (simp add: fresh_segment_def)
  have segs: "all_segments ?w = all_segments w @ [ac_info ?a]" and old: "all_segments w = jw_sealed w"
    using none by (simp_all add: all_segments_def)
  have lt: "x < i" if "x \<in> sg_index ` set (jw_sealed w)" for x
    using cnt that old i(1) by (auto simp: counters_def)
  have "counters crc [] [] ?w"
    unfolding counters_def segs old
  proof (intro conjI)
    show "sorted_wrt (<) (map sg_index (jw_sealed w @ [ac_info ?a]))"
      using cnt old lt by (auto simp: counters_def sorted_wrt_append fresh_segment_def)
    show "\<forall>j \<in> set (jw_sealed w @ [ac_info ?a]). sg_index j < jw_next_segment_index ?w"
      using lt n by (fastforce simp: fresh_segment_def word_less_nat_alt)
    show "chain (jw_holes_allowed_below ?w) None (jw_sealed w @ [ac_info ?a]) (jw_next_sequence ?w)"
      using cnt old by (auto simp: counters_def chain_snoc fresh_segment_def bridged_def)
  qed (use cnt c none wf in \<open>auto simp: counters_def fresh_segment_def\<close>)
  moreover have "filed crc (jw_volume_uuid w) ?a [] [] s'"
    using h st settled_held [OF kept_inv [OF k] st] settled_view [OF kept_inv [OF k] st]
    unfolding filed_def path append_Nil img by (simp add: fresh_segment_def)
  ultimately show ?thesis
    using next_segment_fresh [OF cnt] i(1)
    by (intro jinv_kept [OF J k]) (auto simp: journal_segment_other)
qed

text \<open>A creation that failed leaves a name to be removed.\<close>

lemma failed_creation_jinv:
  assumes J: "jinv crc rss [] [] (s, w)" and none: "jw_active w = None"
    and i: "jw_next_segment_index w = i" and k: "kept {journal_segment i} s s'"
  shows "jinv crc rss [] [] (s', w\<lparr>jw_creation_cleanup := Some i\<rparr>)"
proof -
  have cnt: "counters crc [] [] w"
    using J by (simp add: jinv_def)
  have "counters crc [] [] (w\<lparr>jw_creation_cleanup := Some i\<rparr>)"
    using cnt none i by (auto simp: counters_def all_segments_def)
  then show ?thesis
    using next_segment_fresh [OF cnt] i none
    by (intro jinv_kept [OF J k]) (auto simp: journal_segment_other)
qed

lemma cleanup_settles:
  assumes "logged crc L (s, w)" and "cleanup_failed_creation B (s, w) = (r, s', w')"
  shows "logged crc L (s', w') \<and> settles w w' \<and> jw_sealed w' = jw_sealed w \<and>
    jw_next_segment_index w' = jw_next_segment_index w \<and> (r = Inr () \<longrightarrow> jw_creation_cleanup w' = None)"
proof -
  obtain rss ra1 ra2 where J: "jinv crc rss ra1 ra2 (s, w)" "concat rss @ ra1 @ ra2 = L"
    using assms(1) by (auto simp: logged_def)
  from cleanup_spec [OF J(1) assms(2)] show ?thesis
    using loggedI [OF _ J(2), of crc "(s', w')"] by (auto simp: settles_def)
qed

lemma roll_create:
  assumes J: "jinv crc rss [] [] (s, w)" and none: "jw_active w = None" and c: "jw_creation_cleanup w = None"
    and i: "jw_next_segment_index w = i" "checked_add i 1 = Some n" and u: "length (jw_volume_uuid w) = 16"
    and run: "io_match (dev (io_core (create_segment B crc (jw_volume_uuid w) i (jw_next_sequence w))))
       (\<lambda>e. io_bind (upd (\<lambda>w. w\<lparr>jw_creation_cleanup := Some i\<rparr>)) (\<lambda>_.
          io_match (cleanup_failed_creation B) (\<lambda>_. io_fail e) (\<lambda>_. io_fail e)))
       (\<lambda>file. io_bind (upd (\<lambda>w. w\<lparr>jw_next_segment_index := n,
            jw_active := Some (fresh_segment H i (jw_next_sequence w) file)\<rparr>)) (\<lambda>_.
          write_mark B crc m)) (s, w) = (r, s', w')"
  shows "jinv crc rss [] [] (s', w') \<and> settles w w' \<and> (r = Inr () \<longrightarrow> jw_active w' \<noteq> None)"
proof -
  obtain q t where cr: "create_segment B crc (jw_volume_uuid w) i (jw_next_sequence w) s = (q, t)"
    by fastforce
  have inv: "inv s"
    using J by (simp add: jinv_def)
  have k: "kept {journal_segment i} s t"
    by (rule modifiesD [OF create_segment_modifies inv cr])
  show ?thesis
  proof (cases q)
    case (Inl e)
    let ?w = "w\<lparr>jw_creation_cleanup := Some i\<rparr>"
    have run': "io_match (cleanup_failed_creation B) (\<lambda>_. io_fail (CoreIo e)) (\<lambda>_. io_fail (CoreIo e)) (t, ?w) = (r, s', w')"
      using run cr Inl by (simp add: match_dev_core bind_upd)
    then obtain q' where cl: "cleanup_failed_creation B (t, ?w) = (q', s', w')" and "r \<noteq> Inr ()"
      by (cases rule: io_matchE) auto
    with cleanup_spec [OF failed_creation_jinv [OF J none i(1) k] cl] show ?thesis
      by (auto simp: settles_def)
  next
    case (Inr h)
    have st: "opened t h (journal_segment i)" "settled t (journal_segment i) (segment_header_encode crc
      \<lparr>sg_segment_index = i, sg_volume_uuid = jw_volume_uuid w, sg_base_sequence = jw_next_sequence w\<rparr>)"
      using create_segment_settled [OF inv _ u] cr Inr by blast+
    let ?w = "w\<lparr>jw_next_segment_index := n, jw_active := Some (fresh_segment H i (jw_next_sequence w) h)\<rparr>"
    have J': "jinv crc rss [] [] (t, ?w)"
      by (rule fresh_jinv [OF J none c i u k st])
    have "write_mark B crc m (t, ?w) = (r, s', w')"
      using run cr Inr by (simp add: match_dev_core bind_upd)
    from mark_jinv [OF J' this] show ?thesis
      by (simp add: settles_def same_log_def)
  qed
qed

lemma roll_spec:
  assumes L: "logged crc L (s, w)" and u: "length (jw_volume_uuid w) = 16" and run: "roll B crc H (s, w) = (r, s', w')"
  shows "logged crc L (s', w') \<and> settles w w' \<and> (r = Inr () \<longrightarrow> jw_active w' \<noteq> None)"
proof (cases "checked_add (jw_next_segment_index w) 1")
  case None
  then show ?thesis
    using run L by (auto simp: roll_def bind_ask bind_pure ok_or_def)
next
  case (Some n)
  let ?i = "jw_next_segment_index w"
  let ?tail = "io_bind (seal_active B crc H) (\<lambda>_. io_bind (ask id) (\<lambda>w.
     io_match (dev (io_core (create_segment B crc (jw_volume_uuid w) ?i (jw_next_sequence w))))
       (\<lambda>e. io_bind (upd (\<lambda>w. w\<lparr>jw_creation_cleanup := Some ?i\<rparr>)) (\<lambda>_.
          io_match (cleanup_failed_creation B) (\<lambda>_. io_fail e) (\<lambda>_. io_fail e)))
       (\<lambda>file. io_bind (upd (\<lambda>w. w\<lparr>jw_next_segment_index := n,
            jw_active := Some (fresh_segment H ?i (jw_next_sequence w) file)\<rparr>)) (\<lambda>_.
          write_mark B crc \<lparr>dm_segment_index = ?i, dm_durable_size = of_nat SEGMENT_HEADER_SIZE\<rparr>))))"
  have "io_bind (cleanup_failed_creation B) (\<lambda>_. ?tail) (s, w) = (r, s', w')"
    using run Some by (simp add: roll_def bind_ask bind_pure ok_or_def)
  then show ?thesis
  proof (cases rule: io_bindE)
    case (err e)
    then show ?thesis
      using cleanup_settles [OF L err(1)] by simp
  next
    case (ok x sw1)
    obtain s1 w1 where sw1: "sw1 = (s1, w1)"
      by fastforce
    from cleanup_settles [OF L ok(1) [unfolded sw1]]
    have L1: "logged crc L (s1, w1)" and st1: "settles w w1" and i1: "jw_next_segment_index w1 = ?i"
      and c1: "jw_creation_cleanup w1 = None"
      by simp_all
    obtain rss ra1 ra2 where J1: "jinv crc rss ra1 ra2 (s1, w1)" "concat rss @ ra1 @ ra2 = L"
      using L1 by (auto simp: logged_def)
    from ok(2) [unfolded sw1] show ?thesis
    proof (cases rule: io_bindE)
      case (err e)
      then show ?thesis
        using seal_settles [OF J1(1) err(1)] J1(2) settles_trans [OF st1] by simp
    next
      case (ok x sw2)
      obtain s2 w2 where sw2: "sw2 = (s2, w2)"
        by fastforce
      note seal = ok(1) [unfolded sw2]
      from seal_settles [OF J1(1) seal] have L2: "logged crc L (s2, w2)" and st2: "settles w w2"
        using J1(2) settles_trans [OF st1] by simp_all
      have none: "jw_active w2 = None" and c2: "jw_creation_cleanup w2 = None" and i2: "jw_next_segment_index w2 = ?i"
        using seal_active_spec [OF J1(1) seal] c1 i1 by simp_all
      obtain rss2 where J2: "jinv crc rss2 [] [] (s2, w2)" "concat rss2 = L"
        using L2 none by (auto simp: logged_def jinv_def counters_def)
      from roll_create [OF J2(1) none c2 i2 Some _ ok(2) [unfolded sw2 bind_ask id_apply]] show ?thesis
        using J2(2) u st2 settles_trans [OF st2] loggedI by (fastforce simp: settles_def)
    qed
  qed
qed

section \<open>Appending\<close>

lemma seg_image_cong: "sg_index i = sg_index j \<Longrightarrow> sg_base i = sg_base j \<Longrightarrow> seg_image crc u i = seg_image crc u j"
  by (simp add: fun_eq_iff seg_image_def)

text \<open>The file between the start of an append and its outcome.\<close>

definition torn ::
  "(bytes \<Rightarrow> u32) \<Rightarrow> uuid \<Rightarrow> ('h, 'd) active_segment \<Rightarrow> journal_record list \<Rightarrow> journal_record list \<Rightarrow> bytes \<Rightarrow> 's \<Rightarrow> bool" where
  "torn crc u a ra1 ra2 v s \<longleftrightarrow> inv s \<and> opened s (ac_file a) (act_path a) \<and>
     held s (act_path a) (seg_image crc u (ac_info a) ra1) \<and> view s (act_path a) = Some v \<and>
     prefix (seg_image crc u (ac_info a) (ra1 @ ra2)) v \<and>
     (\<not> ac_needs_redirty a \<longrightarrow> cover s (act_path a) (length v))"

lemma torn_filed: "torn crc u a ra1 ra2 v s \<Longrightarrow> filed crc u (a\<lparr>ac_needs_tail_cleanup := True\<rparr>) ra1 ra2 s"
  by (auto simp: torn_def filed_def act_path_def)

lemma filed_torn: "filed crc u a ra1 ra2 s \<Longrightarrow> inv s \<Longrightarrow> \<exists>v. torn crc u a ra1 ra2 v s \<and>
    (\<not> ac_needs_tail_cleanup a \<longrightarrow> v = seg_image crc u (ac_info a) (ra1 @ ra2))"
  by (auto simp: torn_def filed_def)

lemma torn_set_len:
  assumes T: "torn crc u a ra1 ra2 v s" and wf: "act_wf crc u a ra1 ra2"
    and run: "f_set_len B (ac_file a) (ac_write_offset a) s = (r, s')"
  shows "kept {act_path a} s s' \<and>
    torn crc u a ra1 ra2 (if r = Inr () then seg_image crc u (ac_info a) (ra1 @ ra2) else v) s'"
proof -
  let ?p = "act_path a" and ?img = "seg_image crc u (ac_info a) (ra1 @ ra2)"
  have t: "inv s" "opened s (ac_file a) ?p" "view s ?p = Some v" "prefix ?img v"
    "held s ?p (seg_image crc u (ac_info a) ra1)" "\<not> ac_needs_redirty a \<longrightarrow> cover s ?p (length v)"
    using T by (simp_all add: torn_def)
  have off: "ac_write_offset a = length ?img" "length (seg_image crc u (ac_info a) ra1) \<le> length ?img"
    using wf by (simp_all add: act_wf_def seg_image_append)
  note k = set_len_kept [OF t(1,2) run] and l = set_len_log [OF t(1,2,3) run]
  have h: "held s' ?p (seg_image crc u (ac_info a) ra1)"
    using l t(5) off by simp
  show ?thesis
    using k kept_inv [of "{?p}" s s'] l h t(4,6) off resize_prefix [OF t(4)]
    by (auto simp: torn_def)
qed

lemma torn_allocate:
  assumes T: "torn crc u a ra1 ra2 (seg_image crc u (ac_info a) (ra1 @ ra2)) s" and wf: "act_wf crc u a ra1 ra2"
    and run: "f_allocate_range B (ac_file a) (ac_write_offset a) n s = (r, s')" and "0 < n"
  shows "\<exists>v. kept {act_path a} s s' \<and> torn crc u a ra1 ra2 v s' \<and>
    (r = Inr () \<longrightarrow> length v = ac_write_offset a + n)"
proof -
  let ?p = "act_path a" and ?img = "seg_image crc u (ac_info a) (ra1 @ ra2)"
  have t: "inv s" "opened s (ac_file a) ?p" "view s ?p = Some ?img"
    "held s ?p (seg_image crc u (ac_info a) ra1)" "\<not> ac_needs_redirty a \<longrightarrow> cover s ?p (length ?img)"
    using T by (simp_all add: torn_def)
  have off: "ac_write_offset a = length ?img" "length (seg_image crc u (ac_info a) ra1) \<le> length ?img"
    using wf by (simp_all add: act_wf_def seg_image_append)
  have k: "kept {?p} s s'" "opened s' (ac_file a) ?p"
    using usesD [OF uses_allocate t(1,2) run] by simp_all
  obtain v where v: "view s' ?p = Some v" "v = ?img \<or> v = resize (length ?img + n) ?img"
      "r = Inr () \<longrightarrow> length ?img + n \<le> length v"
      "held s' ?p (seg_image crc u (ac_info a) ra1)" "cover s ?p (length ?img) \<longrightarrow> cover s' ?p (length v)"
    using allocate_spec [OF t(1-3) _ run] off t(4) by auto
  have "prefix ?img v"
    using v(2) by (auto simp: resize_def)
  then have "torn crc u a ra1 ra2 v s'"
    using k kept_inv v t(5) by (auto simp: torn_def)
  moreover have "length v = ac_write_offset a + n" if "r = Inr ()"
    using that v(2,3) off \<open>0 < n\<close> by auto
  ultimately show ?thesis
    using k(1) by blast
qed

lemma torn_write:
  assumes T: "torn crc u a ra1 ra2 v s" and wf: "act_wf crc u a ra1 ra2"
    and run: "f_write_at B (ac_file a) (ac_write_offset a) d s = (r, s')"
    and len: "length v = ac_write_offset a + length d"
  shows "\<exists>v'. kept {act_path a} s s' \<and> torn crc u a ra1 ra2 v' s' \<and>
    (r = Inr () \<longrightarrow> v' = seg_image crc u (ac_info a) (ra1 @ ra2) @ d)"
proof -
  let ?p = "act_path a" and ?img = "seg_image crc u (ac_info a) (ra1 @ ra2)"
  have t: "inv s" "opened s (ac_file a) ?p" "view s ?p = Some v" "prefix ?img v"
    "held s ?p (seg_image crc u (ac_info a) ra1)" "\<not> ac_needs_redirty a \<longrightarrow> cover s ?p (length v)"
    using T by (simp_all add: torn_def)
  have off: "ac_write_offset a = length ?img" "length (seg_image crc u (ac_info a) ra1) \<le> length ?img"
    using wf by (simp_all add: act_wf_def seg_image_append)
  note k = write_kept [OF t(1,2) run]
  obtain k' where w: "r = Inr () \<longrightarrow> take k' d = d" "view s' ?p = Some (overwrite (length ?img) (take k' d) v)"
    "\<forall>bs. held s ?p bs \<longrightarrow> length bs \<le> length ?img \<longrightarrow> held s' ?p bs"
    "\<forall>n. cover s ?p n \<longrightarrow> length ?img \<le> n \<longrightarrow> cover s' ?p (max n (length ?img + length (take k' d)))"
    using write_log [OF t(1-3) _ run] off len by (metis le_add1)
  let ?v = "overwrite (length ?img) (take k' d) v"
  have ov: "?v = ?img @ take k' d @ drop (length ?img + length (take k' d)) v"
    using t(4) len off by (auto simp: overwrite_def Let_def prefix_def)
  have lv: "length ?v = length v"
    using len off by (simp add: ov)
  have "torn crc u a ra1 ra2 ?v s'"
    using k kept_inv w(2,3) t(5,6) off len lv w(4) [rule_format, of "length v"]
    by (auto simp: torn_def ov)
  moreover have "?v = ?img @ d" if "r = Inr ()"
    using that w(1) len off by (subst ov) simp
  ultimately show ?thesis
    using k w(2) by blast
qed

lemma tail_jinv:
  assumes J: "jinv crc rss ra1 ra2 (s, w)" and a: "jw_active w = Some a" and k: "kept {act_path a} s s'"
    and T: "torn crc (jw_volume_uuid w) a ra1 ra2 v s'"
  shows "jinv crc rss ra1 ra2 (s', w\<lparr>jw_active := Some (a\<lparr>ac_needs_tail_cleanup := True\<rparr>)\<rparr>)"
proof -
  let ?w = "w\<lparr>jw_active := Some (a\<lparr>ac_needs_tail_cleanup := True\<rparr>)\<rparr>"
  have cnt: "counters crc ra1 ra2 w"
    using J by (simp add: jinv_def)
  have "counters crc ra1 ra2 ?w"
    using cnt a by (auto simp: counters_def all_segments_def act_wf_def)
  then show ?thesis
    using counters_active_fresh [OF cnt a] torn_filed [OF T]
    by (intro jinv_kept [OF J k]) (auto simp: act_path_def journal_segment_other)
qed

lemma write_record_spec:
  assumes J: "jinv crc rss ra1 ra2 (s, w)" and a: "jw_active w = Some a" and d: "d \<noteq> []"
    and run: "write_record B a d (s, w) = (r, s', w')"
  shows "kept {act_path a} s s' \<and>
    (case r of
       Inl _ \<Rightarrow> jinv crc rss ra1 ra2 (s', w') \<and> settles w w'
     | Inr _ \<Rightarrow> w' = w\<lparr>jw_active := Some (a\<lparr>ac_needs_tail_cleanup := True\<rparr>)\<rparr> \<and>
         torn crc (jw_volume_uuid w) a ra1 ra2 (seg_image crc (jw_volume_uuid w) (ac_info a) (ra1 @ ra2) @ d) s')"
proof -
  let ?u = "jw_volume_uuid w" and ?p = "act_path a"
  let ?img = "seg_image crc ?u (ac_info a) (ra1 @ ra2)"
  let ?w = "w\<lparr>jw_active := Some (a\<lparr>ac_needs_tail_cleanup := True\<rparr>)\<rparr>"
  have inv: "inv s" and wf: "act_wf crc ?u a ra1 ra2" and f: "filed crc ?u a ra1 ra2 s"
    using J a by (auto simp: jinv_def counters_def)
  obtain v where v: "torn crc ?u a ra1 ra2 v s" "\<not> ac_needs_tail_cleanup a \<longrightarrow> v = ?img"
    using filed_torn [OF f inv] by blast
  have w: "settles w ?w"
    by (simp add: settles_def)
  let ?first = "if ac_needs_tail_cleanup a then dev (io_core (f_set_len B (ac_file a) (ac_write_offset a))) else io_return ()"
  from run [unfolded write_record_def] show ?thesis
  proof (cases rule: io_bindE)
    case (err e)
    then obtain q where q: "ac_needs_tail_cleanup a" "f_set_len B (ac_file a) (ac_write_offset a) s = (Inl q, s')" "w' = w"
      by (auto simp: dev_def io_core_def map_sum_def split: if_splits prod.splits sum.splits)
    have "w\<lparr>jw_active := Some (a\<lparr>ac_needs_tail_cleanup := True\<rparr>)\<rparr> = w"
      using a q(1) by simp
    then show ?thesis
      using torn_set_len [OF v(1) wf q(2)] tail_jinv [OF J a] err(2) q(3) by auto
  next
    case (ok x sw1)
    obtain s1 where s1: "sw1 = (s1, w)" and k1: "kept {?p} s s1" and T1: "torn crc ?u a ra1 ra2 ?img s1"
    proof (cases "ac_needs_tail_cleanup a")
      case True
      then obtain t where t: "f_set_len B (ac_file a) (ac_write_offset a) s = (Inr (), t)" "sw1 = (t, w)"
        using ok(1) by (auto simp: dev_def io_core_def map_sum_def split: prod.splits sum.splits)
      then show ?thesis
        using that [OF t(2)] torn_set_len [OF v(1) wf t(1)] by simp
    next
      case False
      then show ?thesis
        using that [of s] ok(1) v kept_refl [OF inv] by simp
    qed
    obtain q2 s2 where r2: "f_allocate_range B (ac_file a) (ac_write_offset a) (length d) s1 = (q2, s2)"
      by fastforce
    obtain v2 where v2: "kept {?p} s1 s2" "torn crc ?u a ra1 ra2 v2 s2"
      "q2 = Inr () \<longrightarrow> length v2 = ac_write_offset a + length d"
      using torn_allocate [OF T1 wf r2] d by auto
    have k2: "kept {?p} s s2"
      by (rule kept_trans [OF k1 v2(1)])
    show ?thesis
    proof (cases q2)
      case (Inl e)
      then have "r = Inl (CoreIo e)" "s' = s2" "w' = ?w"
        using ok(2) s1 r2 by (simp_all add: bind_upd bind_dev_core)
      then show ?thesis
        using tail_jinv [OF J a k2 v2(2)] k2 w by simp
    next
      case (Inr y)
      obtain q3 s3 where r3: "f_write_at B (ac_file a) (ac_write_offset a) d s2 = (q3, s3)"
        by fastforce
      obtain v3 where v3: "kept {?p} s2 s3" "torn crc ?u a ra1 ra2 v3 s3" "q3 = Inr () \<longrightarrow> v3 = ?img @ d"
        using torn_write [OF v2(2) wf r3] v2(3) Inr by auto
      have k3: "kept {?p} s s3"
        by (rule kept_trans [OF k2 v3(1)])
      have "r = map_sum CoreIo id q3" "s' = s3" "w' = ?w"
        using ok(2) s1 r2 Inr r3 by (simp_all add: bind_upd bind_dev_core dev_def io_core_def)
      then show ?thesis
        using tail_jinv [OF J a k3 v3(2)] k3 v3 w by (cases q3) simp_all
    qed
  qed
qed

lemma accept_jinv:
  assumes J: "jinv crc rss ra1 ra2 (s, w)" and a: "jw_active w = Some a" and k: "kept {act_path a} s s'"
    and T: "torn crc (jw_volume_uuid w) a ra1 ra2
      (seg_image crc (jw_volume_uuid w) (ac_info a) (ra1 @ ra2) @ encode_record crc q) s'"
    and q: "jr_sequence q = jw_next_sequence w" "length (jr_payload q) \<le> unat MAX_PAYLOAD"
    and n: "checked_add (jw_next_sequence w) 1 = Some n"
  shows "jinv crc rss ra1 (ra2 @ [q]) (s', w\<lparr>jw_active := Some (accept_record H a (encode_record crc q)),
    jw_next_sequence := n, jw_appended_sequence := jw_next_sequence w\<rparr>)"
proof -
  let ?u = "jw_volume_uuid w" and ?a = "accept_record H a (encode_record crc q)"
  let ?w = "w\<lparr>jw_active := Some ?a, jw_next_sequence := n, jw_appended_sequence := jw_next_sequence w\<rparr>"
  have cnt: "counters crc ra1 ra2 w"
    using J by (simp add: jinv_def)
  have wf: "act_wf crc ?u a ra1 ra2" and base: "unat (sg_base (ac_info a)) + length (ra1 @ ra2) = unat (jw_next_sequence w)"
    and dur: "unat (jw_durable_sequence w) + 1 = unat (sg_base (ac_info a)) + length ra1"
    using cnt a by (simp_all add: counters_def)
  have n': "n = jw_next_sequence w + 1" "unat n = unat (jw_next_sequence w) + 1"
    using checked_add_SomeD [OF n] by auto
  have img: "seg_image crc ?u (ac_info ?a) = seg_image crc ?u (ac_info a)" and path: "act_path ?a = act_path a"
    by (auto intro!: seg_image_cong simp: accept_record_def act_path_def)
  have seq: "sg_base (ac_info a) + of_nat (length (ra1 @ ra2)) = jw_next_sequence w"
    using arg_cong [OF base, of "of_nat :: nat \<Rightarrow> u64"] by simp
  have log: "log_ok (sg_base (ac_info a)) (ra1 @ ra2 @ [q])"
    using wf q n seq n'(1) log_ok_append [of "sg_base (ac_info a)" "ra1 @ ra2" "[q]"]
    by (simp add: act_wf_def seg_wf_def)
  have count: "unat (sg_record_count (ac_info a) + 1) = length (ra1 @ ra2) + 1"
    using wf log_ok_bound [OF log] by (simp add: act_wf_def seg_wf_def unat_word_ariths)
  have wf': "act_wf crc ?u ?a ra1 (ra2 @ [q])"
    using wf log count img
    by (simp add: act_wf_def seg_wf_def seg_image_append) (simp add: accept_record_def)
  have segs: "all_segments ?w = jw_sealed w @ [ac_info ?a]" "all_segments w = jw_sealed w @ [ac_info a]"
    using a by (simp_all add: all_segments_def)
  have same: "sg_index (ac_info ?a) = sg_index (ac_info a)" "sg_base (ac_info ?a) = sg_base (ac_info a)"
    "sg_record_count (ac_info ?a) = sg_record_count (ac_info a) + 1"
    by (simp_all add: accept_record_def)
  have "unat (sg_record_count (ac_info a)) = length (ra1 @ ra2)"
    using wf by (simp add: act_wf_def seg_wf_def)
  from arg_cong [OF this, of "of_nat :: nat \<Rightarrow> u64"]
  have "sg_record_count (ac_info a) = of_nat (length (ra1 @ ra2))"
    by simp
  then have "sg_base (ac_info a) + sg_record_count (ac_info a) = jw_next_sequence w"
    using seq by simp
  then have ends: "sg_base (ac_info ?a) + sg_record_count (ac_info ?a) = n"
    using n'(1) same by (simp add: algebra_simps)
  have "counters crc ra1 (ra2 @ [q]) ?w"
    unfolding counters_def segs
  proof (intro conjI)
    show "sorted_wrt (<) (map sg_index (jw_sealed w @ [ac_info ?a]))"
      using cnt segs(2) same by (simp add: counters_def)
    show "\<forall>j \<in> set (jw_sealed w @ [ac_info ?a]). sg_index j < jw_next_segment_index ?w"
      using cnt segs(2) same by (auto simp: counters_def)
    show "chain (jw_holes_allowed_below ?w) None (jw_sealed w @ [ac_info ?a]) (jw_next_sequence ?w)"
      using cnt segs(2) same ends by (simp add: counters_def chain_snoc bridged_def)
  qed (use cnt a wf' base dur n' same in \<open>auto simp: counters_def\<close>)
  moreover have "filed crc ?u ?a ra1 (ra2 @ [q]) s'"
    using T unfolding filed_def path img
    by (simp add: torn_def seg_image_append) (simp add: accept_record_def)
  ultimately show ?thesis
    using counters_active_fresh [OF cnt a]
    by (intro jinv_kept [OF J k]) (auto simp: act_path_def journal_segment_other)
qed

lemma append_spec:
  assumes L: "logged crc L (s, w)" and u: "length (jw_volume_uuid w) = 16"
    and pay: "length payload \<le> unat MAX_PAYLOAD"
    and run: "append_record B crc H unit_index payload (s, w) = (r, s', w')"
  shows "jw_volume_uuid w' = jw_volume_uuid w \<and> jw_holes_allowed_below w' = jw_holes_allowed_below w \<and>
    jw_durable_sequence w \<le> jw_durable_sequence w' \<and>
    (case r of
       Inl _ \<Rightarrow> logged crc L (s', w') \<and> jw_appended_sequence w' = jw_appended_sequence w
     | Inr sequence \<Rightarrow> sequence = jw_next_sequence w \<and> jw_appended_sequence w' = sequence \<and>
         logged crc (L @ [\<lparr>jr_sequence = sequence, jr_unit_index = unit_index, jr_payload = payload\<rparr>]) (s', w'))"
proof (cases "check_append w (length payload)")
  case (Inl e)
  then show ?thesis
    using run L by (auto simp: append_record_def bind_ask bind_pure)
next
  case (Inr nr)
  obtain n rl where nr: "nr = (n, rl)"
    by fastforce
  have n: "checked_add (jw_next_sequence w) 1 = Some n"
    using Inr nr by (auto simp: check_append_def Let_def split: option.splits if_splits)
  let ?q = "\<lparr>jr_sequence = jw_next_sequence w, jr_unit_index = unit_index, jr_payload = payload\<rparr>"
  let ?bytes = "encode_record crc ?q"
  let ?put = "\<lambda>a. io_bind (write_record B a ?bytes) (\<lambda>_.
    io_bind (upd (\<lambda>w'. w'\<lparr>jw_active := Some (accept_record H a ?bytes),
      jw_next_sequence := n, jw_appended_sequence := jw_next_sequence w\<rparr>)) (\<lambda>_.
    io_return (jw_next_sequence w)))"
  have "io_bind (if rl then roll B crc H else io_return ()) (\<lambda>_. io_bind (ask jw_active) (\<lambda>active.
      case active of None \<Rightarrow> io_fail (CoreCorrupt ''active segment after roll'') | Some a \<Rightarrow> ?put a)) (s, w) = (r, s', w')"
    using run Inr nr by (simp add: append_record_def bind_ask bind_pure Let_def)
  then show ?thesis
  proof (cases rule: io_bindE)
    case (err e)
    then have "roll B crc H (s, w) = (Inl e, s', w')"
      by (cases rl) simp_all
    then show ?thesis
      using roll_spec [OF L u] err(2) by (auto simp: settles_def)
  next
    case (ok x sw1)
    obtain s1 w1 where sw1: "sw1 = (s1, w1)"
      by fastforce
    have 1: "logged crc L (s1, w1)" "settles w w1"
      using ok(1) sw1 L roll_spec [OF L u, of H "Inr x" s1 w1] by (cases rl; simp)+
    then have same: "jw_volume_uuid w1 = jw_volume_uuid w" "jw_next_sequence w1 = jw_next_sequence w"
      "jw_holes_allowed_below w1 = jw_holes_allowed_below w" "jw_durable_sequence w \<le> jw_durable_sequence w1"
      "jw_appended_sequence w1 = jw_appended_sequence w"
      by (simp_all add: settles_def)
    have "jw_active w \<noteq> None" if "\<not> rl"
      using that Inr nr by (auto simp: check_append_def Let_def split: option.splits if_splits)
    then have "jw_active w1 \<noteq> None"
      using ok(1) sw1 roll_spec [OF L u, of H "Inr x" s1 w1] by (cases rl) simp_all
    then obtain a where Some: "jw_active w1 = Some a"
      by auto
    show ?thesis
    proof -
      obtain rss ra1 ra2 where J: "jinv crc rss ra1 ra2 (s1, w1)" "concat rss @ ra1 @ ra2 = L"
        using 1(1) by (auto simp: logged_def)
      have ne: "?bytes \<noteq> []"
        by (metis length_encode_record list.size(3) add_is_0 zero_neq_numeral)
      have "?put a (s1, w1) = (r, s', w')"
        using ok(2) sw1 Some by (simp add: bind_ask)
      then show ?thesis
      proof (cases rule: io_bindE)
        case (err e)
        then show ?thesis
          using write_record_spec [OF J(1) Some ne err(1)] loggedI [OF _ J(2), of crc "(s', w')"] same
          by (auto simp: settles_def)
      next
        case (ok y sw2)
        obtain s2 w2 where sw2: "sw2 = (s2, w2)"
          by fastforce
        note W = write_record_spec [OF J(1) Some ne ok(1) [unfolded sw2]]
        let ?w = "w1\<lparr>jw_active := Some (accept_record H a ?bytes), jw_next_sequence := n,
          jw_appended_sequence := jw_next_sequence w1\<rparr>"
        have out: "r = Inr (jw_next_sequence w)" "s' = s2" "w' = ?w"
          using ok(2) sw2 W same by (simp_all add: bind_upd)
        have "jinv crc rss ra1 (ra2 @ [?q]) (s2, ?w)"
          using W pay n same by (intro accept_jinv [OF J(1) Some]) simp_all
        then have "logged crc (L @ [?q]) (s', w')"
          using out(2,3) by (intro loggedI) (auto simp flip: J(2))
        then show ?thesis
          using out same by simp
      qed
    qed
  qed
qed

section \<open>Flushing\<close>

lemma sync_spec:
  assumes L: "logged crc L (s, w)" and run: "sync B crc H (s, w) = (r, s', w')"
  shows "logged crc L (s', w') \<and> settles w w' \<and>
    (\<forall>n. r = Inr n \<longrightarrow> n = jw_appended_sequence w \<and> jw_durable_sequence w' = n)"
  using run unfolding sync_def
proof (cases rule: io_bindE)
  case (err e)
  then show ?thesis
    using cleanup_settles [OF L err(1)] by simp
next
  case (ok x sw1)
  obtain s1 w1 where sw1: "sw1 = (s1, w1)"
    by fastforce
  have 1: "logged crc L (s1, w1)" "settles w w1"
    using cleanup_settles [OF L] ok(1) sw1 by blast+
  obtain rss ra1 ra2 where J: "jinv crc rss ra1 ra2 (s1, w1)" "concat rss @ ra1 @ ra2 = L"
    using 1(1) by (auto simp: logged_def)
  from ok(2) [unfolded sw1] show ?thesis
  proof (cases rule: io_bindE)
    case (err e)
    note S = sync_active_spec [OF J(1) err(1)]
    have "jw_durable_sequence w' = jw_durable_sequence w1"
      using S J(1) by (intro counters_durable_eq [of crc ra1 ra2]) (simp_all add: jinv_def)
    then show ?thesis
      using S err(2) loggedI [OF _ J(2), of crc "(s', w')"] settles_trans [OF 1(2) same_log_settles] by simp
  next
    case (ok y sw2)
    obtain s2 w2 where sw2: "sw2 = (s2, w2)"
      by fastforce
    note S = sync_active_spec [OF J(1) ok(1) [unfolded sw2]]
    have d: "jw_durable_sequence w2 = jw_appended_sequence w2" "jw_appended_sequence w2 = jw_appended_sequence w1"
      using S by (simp_all add: same_log_def)
    have "w2\<lparr>jw_durable_sequence := jw_appended_sequence w2\<rparr> = w2"
      by (simp flip: d(1))
    then have out: "r = Inr (jw_durable_sequence w2)" "s' = s2" "w' = w2"
      using ok(2) sw2 by (auto simp: bind_upd ask_def)
    have "jw_durable_sequence w1 \<le> jw_durable_sequence w2"
      using J(1) d counters_durable_le [of crc ra1 ra2 w1] by (simp add: jinv_def)
    then have "settles w w2"
      using S settles_trans [OF 1(2) same_log_settles] by blast
    moreover have "logged crc L (s2, w2)"
      using S J(2) by (intro loggedI [of crc rss "ra1 @ ra2" "[]"]) simp_all
    ultimately show ?thesis
      using out d by (auto simp: settles_def)
  qed
qed

section \<open>Reclaiming\<close>

lemma delete_loop_stopped:
  "err \<noteq> None \<or> (\<forall>i \<in> set segs. ck < last_sequence i) \<Longrightarrow>
   delete_loop B ck segs ks n err s = ((ks @ segs, n, err), s)"
  by (induction segs arbitrary: ks) (auto simp: not_le)

lemma delete_loop_spec:
  assumes "inv s" and "sorted_wrt (\<lambda>i j. ck < last_sequence i \<longrightarrow> ck < last_sequence j) segs"
    and "delete_loop B ck segs ks n None s = ((ks', n', err), s')"
  shows "\<exists>k. ks' = ks @ drop k segs \<and> (\<forall>i \<in> set (take k segs). last_sequence i \<le> ck) \<and>
    kept ((journal_segment \<circ> sg_index) ` set (take k segs)) s s'"
  using assms
proof (induction segs arbitrary: ks n s)
  case Nil
  then show ?case
    using kept_refl by auto
next
  case (Cons i segs)
  show ?case
  proof (cases "last_sequence i \<le> ck")
    case False
    then have "\<forall>j \<in> set (i # segs). ck < last_sequence j"
      using Cons.prems(2) by (auto simp: not_le)
    then have "delete_loop B ck (i # segs) ks n None s = ((ks @ i # segs, n, None), s)"
      by (intro delete_loop_stopped) blast
    then show ?thesis
      using Cons.prems(1,3) kept_refl by (intro exI [of _ 0]) auto
  next
    case True
    let ?p = "journal_segment (sg_index i)"
    obtain q s1 where rm: "b_remove B ?p s = (q, s1)"
      by fastforce
    show ?thesis
    proof (cases q)
      case (Inl e)
      have "delete_loop B ck segs (ks @ [i]) n (Some e) s1 = (((ks @ [i]) @ segs, n, Some e), s1)"
        by (rule delete_loop_stopped) simp
      then have "ks' = ks @ i # segs" "s' = s1"
        using Cons.prems(3) True rm Inl by simp_all
      then show ?thesis
        using remove_failed [OF Cons.prems(1)] rm Inl by (intro exI [of _ 0]) auto
    next
      case (Inr x)
      have k1: "kept {?p} s s1"
        by (rule remove_kept [OF Cons.prems(1) rm])
      have "delete_loop B ck segs ks (Suc n) None s1 = ((ks', n', err), s')"
        using Cons.prems(3) True rm Inr by simp
      from Cons.IH [OF kept_inv [OF k1] _ this] obtain k where k: "ks' = ks @ drop k segs"
        "\<forall>j \<in> set (take k segs). last_sequence j \<le> ck"
        "kept ((journal_segment \<circ> sg_index) ` set (take k segs)) s1 s'"
        using Cons.prems(2) by auto
      have "kept ((journal_segment \<circ> sg_index) ` set (take (Suc k) (i # segs))) s s'"
        by (rule kept_trans [OF kept_mono [OF k1] kept_mono [OF k(3)]]) auto
      then show ?thesis
        using k True by (intro exI [of _ "Suc k"]) simp
    qed
  qed
qed

text \<open>Dropping a prefix of the sealed segments whose files are gone.\<close>

lemma drop_jinv:
  assumes J: "jinv crc rss ra1 ra2 (s, w)" and k: "kept ((journal_segment \<circ> sg_index) ` set (take k (jw_sealed w))) s s'"
  shows "jinv crc (drop k rss) ra1 ra2 (s', w\<lparr>jw_sealed := drop k (jw_sealed w)\<rparr>)"
proof -
  let ?P = "(journal_segment \<circ> sg_index) ` set (take k (jw_sealed w))"
  let ?w = "w\<lparr>jw_sealed := drop k (jw_sealed w)\<rparr>"
  have cnt: "counters crc ra1 ra2 w" and inv: "inv s" and mark: "mark_ok s w"
    and sealed: "sealed_ok crc (jw_volume_uuid w) s (jw_sealed w) rss"
    and f: "\<And>a. jw_active w = Some a \<Longrightarrow> filed crc (jw_volume_uuid w) a ra1 ra2 s"
    using J by (simp_all add: jinv_def)
  have sorted: "sorted_wrt (<) (map sg_index (take k (jw_sealed w) @ drop k (jw_sealed w)))"
    using cnt by (simp add: counters_def all_segments_def sorted_wrt_append)
  have fresh: "journal_segment (sg_index i) \<notin> ?P" if "i \<in> set (drop k (jw_sealed w))" for i
    using sorted that by (fastforce simp del: append_take_drop_id simp: sorted_wrt_append journal_segment_inj)
  have "sealed_ok crc (jw_volume_uuid w) s (drop k (jw_sealed w)) (drop k rss)"
    using sealed by (simp add: sealed_ok_def list_all2_dropI)
  then have "sealed_ok crc (jw_volume_uuid w) s' (drop k (jw_sealed w)) (drop k rss)"
    by (rule sealed_kept [OF _ k fresh])
  moreover have "JOURNAL_DURABLE_MARK \<notin> ?P"
    by (auto simp: journal_segment_other)
  then have "mark_ok s' ?w"
    using mark_kept [OF mark k] by (simp add: mark_ok_def)
  moreover have "filed crc (jw_volume_uuid w) a ra1 ra2 s'" if "jw_active w = Some a" for a
    by (rule filed_kept [OF f [OF that] k]) (use counters_active_fresh [OF cnt that] in \<open>force dest!: in_set_takeD\<close>)
  moreover have "counters crc ra1 ra2 ?w"
  proof -
    have segs: "all_segments ?w = drop (min k (length (jw_sealed w))) (all_segments w)"
      by (simp add: all_segments_def min_def)
    have "set (all_segments ?w) \<subseteq> set (all_segments w)"
      unfolding segs by (rule set_drop_subset)
    moreover have "sorted_wrt (<) (map sg_index (all_segments ?w))"
      using cnt unfolding segs counters_def by (simp add: drop_map [symmetric] sorted_wrt_drop)
    moreover have "chain (jw_holes_allowed_below w) None (all_segments ?w) (jw_next_sequence w)"
      unfolding segs by (rule chain_drop [OF counters_chain [OF cnt]])
    ultimately show ?thesis
      using cnt by (cases "jw_active w") (auto simp: counters_def dest: in_set_dropD)
  qed
  ultimately show ?thesis
    using kept_inv [OF k] by (simp add: jinv_def)
qed

lemma sealed_wf: "sealed_ok crc u s segs rss \<Longrightarrow> list_all2 (seg_wf crc u) segs rss"
  unfolding sealed_ok_def by (erule list_all2_mono) simp

lemma sealed_bound:
  assumes "list_all2 (seg_wf crc u) segs rss"
  shows "\<forall>i \<in> set segs. unat (sg_base i) + unat (sg_record_count i) < 2 ^ 64"
  using assms by (induction rule: list_all2_induct) (auto simp: seg_wf_def dest: log_ok_bound)

lemma covered_records:
  assumes "list_all2 (seg_wf crc u) segs rss" and "\<forall>i \<in> set segs. last_sequence i \<le> ck"
  shows "\<forall>q \<in> set (concat rss). jr_sequence q \<le> ck"
  using assms
proof (induction rule: list_all2_induct)
  case (Cons i segs rs rss)
  have "jr_sequence q \<le> ck" if "q \<in> set rs" for q
  proof -
    have log: "log_ok (sg_base i) rs" and n: "unat (sg_record_count i) = length rs"
      using Cons.hyps(1) by (simp_all add: seg_wf_def)
    have "unat (jr_sequence q) < unat (sg_base i) + length rs"
      using log_ok_sequence [OF log that] by simp
    moreover have "unat (last_sequence i) = unat (sg_base i) + length rs - 1"
      using last_sequence_nat [of i] log_ok_bound [OF log] n by simp
    ultimately show ?thesis
      using Cons.prems by (auto simp: word_le_nat_alt)
  qed
  then show ?case
    using Cons by auto
qed simp

lemma delete_spec:
  assumes L: "logged crc L (s, w)" and holes: "jw_holes_allowed_below w \<le> ck"
    and run: "delete_covered B ck (s, w) = (r, s', w')"
  shows "settles w w' \<and> (\<exists>D L'. L = D @ L' \<and> (\<forall>q \<in> set D. jr_sequence q \<le> ck) \<and> logged crc L' (s', w'))"
  using run unfolding delete_covered_def
proof (cases rule: io_bindE)
  case (err e)
  then show ?thesis
    using cleanup_settles [OF L err(1)] by (intro conjI exI [of _ "[]"] exI [of _ L]) simp_all
next
  case (ok x sw1)
  obtain s1 w1 where sw1: "sw1 = (s1, w1)"
    by fastforce
  have 1: "logged crc L (s1, w1)" "settles w w1"
    using cleanup_settles [OF L] ok(1) sw1 by blast+
  obtain rss ra1 ra2 where J: "jinv crc rss ra1 ra2 (s1, w1)" "concat rss @ ra1 @ ra2 = L"
    using 1(1) by (auto simp: logged_def)
  have cnt: "counters crc ra1 ra2 w1" and inv: "inv s1"
    and sealed: "list_all2 (seg_wf crc (jw_volume_uuid w1)) (jw_sealed w1) rss"
    using J(1) by (auto simp: jinv_def intro: sealed_wf)
  obtain ks n er t where loop': "delete_loop B ck (jw_sealed w1) [] 0 None s1 = ((ks, n, er), t)"
    by (metis prod.exhaust)
  with ok(2) sw1 have loop: "delete_loop B ck (jw_sealed w1) [] 0 None s1 = ((ks, n, er), s')"
    and w': "w' = w1\<lparr>jw_sealed := ks\<rparr>"
    by simp_all
  note bound = sealed_bound [OF sealed]
  obtain y where "chain (jw_holes_allowed_below w1) None (jw_sealed w1) y"
    using counters_chain [OF cnt] unfolding all_segments_def using chain_split by blast
  moreover have "jw_holes_allowed_below w1 \<le> ck"
    using holes 1(2) by (simp add: settles_def)
  ultimately have "sorted_wrt (\<lambda>i j. ck < last_sequence i \<longrightarrow> ck < last_sequence j) (jw_sealed w1)"
    using bound by (intro chain_covered) blast+
  from delete_loop_spec [OF inv this loop] obtain k where k: "ks = drop k (jw_sealed w1)"
    "\<forall>i \<in> set (take k (jw_sealed w1)). last_sequence i \<le> ck"
    "kept ((journal_segment \<circ> sg_index) ` set (take k (jw_sealed w1))) s1 s'"
    by auto
  have "\<forall>q \<in> set (concat (take k rss)). jr_sequence q \<le> ck"
    by (rule covered_records [OF list_all2_takeI [OF sealed] k(2)])
  moreover have "L = concat (take k rss) @ concat (drop k rss) @ ra1 @ ra2"
    using J(2) by (metis append_assoc append_take_drop_id concat_append)
  moreover have "logged crc (concat (drop k rss) @ ra1 @ ra2) (s', w')"
    using drop_jinv [OF J(1) k(3)] k(1) w' by (intro loggedI) simp_all
  moreover have "settles w w'"
    using 1(2) by (simp add: settles_def w')
  ultimately show ?thesis
    by blast
qed

section \<open>The sanitizer\<close>

lemma active_end:
  assumes "counters crc ra1 ra2 w" and "jw_active w = Some a"
  shows "sg_base (ac_info a) + sg_record_count (ac_info a) = jw_next_sequence w"
proof -
  have "unat (sg_base (ac_info a)) + unat (sg_record_count (ac_info a)) = unat (jw_next_sequence w)"
    using assms by (simp add: counters_def act_wf_def seg_wf_def)
  from arg_cong [OF this, of "of_nat :: nat \<Rightarrow> u64"] show ?thesis
    by simp
qed

lemma seg_image_header: "length u = 16 \<Longrightarrow> SEGMENT_HEADER_SIZE \<le> length (seg_image crc u i rs)"
  using segment_header_length [of _ crc] by (simp add: seg_image_def)

lemma jinv_segments:
  assumes J: "jinv crc rss ra1 ra2 (s, w)" and u: "length (jw_volume_uuid w) = 16"
  shows "\<forall>i \<in> set (all_segments w). SEGMENT_HEADER_SIZE \<le> sg_size i \<and> unat (sg_base i) + unat (sg_record_count i) < 2 ^ 64"
proof -
  have wf: "SEGMENT_HEADER_SIZE \<le> sg_size i \<and> unat (sg_base i) + unat (sg_record_count i) < 2 ^ 64"
    if "seg_wf crc (jw_volume_uuid w) i rs" for i rs
    using that seg_image_header [OF u] log_ok_bound by (auto simp: seg_wf_def)
  have "\<exists>rs. seg_wf crc (jw_volume_uuid w) i rs" if "i \<in> set (jw_sealed w)" for i
    using J that by (auto simp: jinv_def sealed_ok_def list_all2_conv_all_nth in_set_conv_nth)
  moreover have "\<exists>rs. seg_wf crc (jw_volume_uuid w) (ac_info a) rs" if "jw_active w = Some a" for a
    using J that by (auto simp: jinv_def counters_def act_wf_def)
  ultimately show ?thesis
    using wf by (cases "jw_active w") (auto simp: all_segments_def)
qed

lemma jinv_check:
  assumes J: "jinv crc rss ra1 ra2 (s, w)" and u: "length (jw_volume_uuid w) = 16"
  shows "check_invariants B s w"
proof -
  let ?xs = "map (\<lambda>i. (i, False)) (jw_sealed w) @ (case jw_active w of Some a \<Rightarrow> [(ac_info a, True)] | None \<Rightarrow> [])"
  have cnt: "counters crc ra1 ra2 w" and inv: "inv s"
    using J by (simp_all add: jinv_def)
  have fst: "map fst ?xs = all_segments w"
    by (cases "jw_active w") (simp_all add: all_segments_def comp_def)
  have sealed: "unat (sg_base i) + unat (sg_record_count i) \<le> unat (jw_durable_sequence w) + 1"
    if "(i, False) \<in> set ?xs" for i
    using cnt that by (cases "jw_active w") (auto simp: counters_def)
  have segs: "check_segments w None None ?xs"
  proof (rule check_segments_ok)
    show "sorted_wrt (<) (map (sg_index \<circ> fst) ?xs)"
      using cnt fst unfolding counters_def map_map [symmetric] by simp
    show "chain (jw_holes_allowed_below w) None (map fst ?xs) (jw_next_sequence w)"
      unfolding fst by (rule counters_chain [OF cnt])
    show "\<forall>x \<in> set ?xs. sg_index (fst x) < jw_next_segment_index w \<and> SEGMENT_HEADER_SIZE \<le> sg_size (fst x) \<and>
        unat (sg_base (fst x)) + unat (sg_record_count (fst x)) < 2 ^ 64"
    proof
      fix x
      assume "x \<in> set ?xs"
      then have "fst x \<in> set (all_segments w)"
        unfolding fst [symmetric] set_map by (rule imageI)
      then show "sg_index (fst x) < jw_next_segment_index w \<and> SEGMENT_HEADER_SIZE \<le> sg_size (fst x) \<and>
          unat (sg_base (fst x)) + unat (sg_record_count (fst x)) < 2 ^ 64"
        using jinv_segments [OF J u] cnt unfolding counters_def by blast
    qed
    show "\<forall>i. (i, False) \<in> set ?xs \<longrightarrow> unat (sg_base i) + unat (sg_record_count i) \<le> unat (jw_durable_sequence w) + 1"
      using sealed by blast
  qed simp
  have active: "jw_next_sequence w = sg_base (ac_info a) + sg_record_count (ac_info a) \<and>
      ac_write_offset a = sg_size (ac_info a) \<and> ac_synced_offset a \<le> ac_write_offset a \<and>
      (\<not> ac_needs_tail_cleanup a \<longrightarrow>
         (case fst (f_len B (ac_file a) s) of Inr len \<Rightarrow> len = ac_write_offset a | Inl _ \<Rightarrow> True)) \<and>
      (if ac_unsynced a then ac_synced_offset a < ac_write_offset a
       else ac_synced_offset a = ac_write_offset a \<and> jw_durable_sequence w = jw_appended_sequence w)"
    if a: "jw_active w = Some a" for a
  proof -
    let ?u = "jw_volume_uuid w" and ?p = "act_path a"
    have wf: "act_wf crc ?u a ra1 ra2" and f: "filed crc ?u a ra1 ra2 s"
      and dur: "unat (jw_durable_sequence w) + 1 = unat (sg_base (ac_info a)) + length ra1"
        "unat (sg_base (ac_info a)) + length (ra1 @ ra2) = unat (jw_appended_sequence w) + 1"
      using J a by (auto simp: jinv_def counters_def)
    have off: "ac_write_offset a = sg_size (ac_info a)" "ac_write_offset a = length (seg_image crc ?u (ac_info a) (ra1 @ ra2))"
      "ac_write_offset a = ac_synced_offset a + length (encode_log crc ra2)" "ac_unsynced a \<longleftrightarrow> ra2 \<noteq> []"
      using wf by (simp_all add: act_wf_def seg_wf_def seg_image_append)
    have "ac_synced_offset a < ac_write_offset a" if "ra2 \<noteq> []"
      using that off(3) by (cases ra2) simp_all
    moreover have "len = ac_write_offset a" if len: "f_len B (ac_file a) s = (Inr len, s')" and "\<not> ac_needs_tail_cleanup a" for len s'
      using len_keep [OF inv _ len, of ?p] f off(2) that(2) by (auto simp: filed_def)
    moreover have "jw_durable_sequence w = jw_appended_sequence w" if "ra2 = []"
      using dur that by (simp add: word_unat_eq_iff)
    ultimately show ?thesis
      using off active_end [OF cnt a] by (cases "f_len B (ac_file a) s") (auto split: sum.split)
  qed
  have rest: "case jw_creation_cleanup w of Some k \<Rightarrow> jw_active w = None \<and> k = jw_next_segment_index w | None \<Rightarrow> True"
    "jw_next_sequence w = jw_appended_sequence w + 1"
    "jw_active w = None \<Longrightarrow> jw_durable_sequence w = jw_appended_sequence w"
    using cnt unfolding counters_def by (auto split: option.split)
  show ?thesis
    unfolding check_invariants_def
    using rest counters_durable_le [OF cnt] segs active by (cases "jw_active w") auto
qed

section \<open>Crashes\<close>

lemma held_crashes:
  assumes "crash\<^sup>*\<^sup>* s s'" and "inv s" and "held s p bs"
  shows "inv s' \<and> held s' p bs"
  using assms by (induction rule: rtranclp_induct) (auto intro: crash_inv crash_held)

text \<open>The acknowledged records are in a crash-proof prefix of their segment.\<close>

lemma logged_held:
  assumes L: "logged crc L (s, w)" and q: "q \<in> set L" "jr_sequence q \<le> jw_durable_sequence w"
  shows "\<exists>i rs. i \<in> set (all_segments w) \<and> log_ok (sg_base i) rs \<and> q \<in> set rs \<and>
    held s (journal_segment (sg_index i)) (seg_image crc (jw_volume_uuid w) i rs)"
proof -
  obtain rss ra1 ra2 where J: "jinv crc rss ra1 ra2 (s, w)" and L': "L = concat rss @ ra1 @ ra2"
    using L by (auto simp: logged_def)
  consider (sealed) "q \<in> set (concat rss)" | (synced) "q \<in> set ra1" | (pending) "q \<in> set ra2"
    using q(1) unfolding L' set_append by blast
  then show ?thesis
  proof cases
    case sealed
    then obtain j where "j < length rss" "q \<in> set (rss ! j)"
      by (metis UN_E in_set_conv_nth set_concat)
    then show ?thesis
      using J settled_held
      by (intro exI [of _ "jw_sealed w ! j"] exI [of _ "rss ! j"])
        (auto simp: jinv_def sealed_ok_def list_all2_conv_all_nth seg_wf_def all_segments_def)
  next
    case synced
    then obtain a where a: "jw_active w = Some a"
      using J by (cases "jw_active w") (auto simp: jinv_def counters_def)
    then show ?thesis
      using J synced
      by (intro exI [of _ "ac_info a"] exI [of _ ra1])
        (auto simp: jinv_def counters_def filed_def act_wf_def seg_wf_def log_ok_append act_path_def all_segments_def)
  next
    case pending
    then obtain a where a: "jw_active w = Some a"
      using J by (cases "jw_active w") (auto simp: jinv_def counters_def)
    have log: "log_ok (sg_base (ac_info a)) (ra1 @ ra2)"
      and dur: "unat (jw_durable_sequence w) + 1 = unat (sg_base (ac_info a)) + length ra1"
      using J a by (auto simp: jinv_def counters_def act_wf_def seg_wf_def)
    have n: "unat (sg_base (ac_info a) + of_nat (length ra1)) = unat (sg_base (ac_info a)) + length ra1"
      using log_ok_bound [OF log] by (simp add: unat_word_ariths unat_of_nat)
    have "unat (sg_base (ac_info a)) + length ra1 \<le> unat (jr_sequence q)"
      using log_ok_sequence [of "sg_base (ac_info a) + of_nat (length ra1)" ra2 q] log pending n
      by (simp add: log_ok_append)
    then show ?thesis
      using q(2) dur by (simp add: word_le_nat_alt)
  qed
qed

end

end
