(* ===== verification/Journal_Run.thy ===== *)
theory Journal_Run
  imports Journal_Safety
begin

text \<open>
  Whole runs of the journal writer on the crash-simulating backing: any interleaving of appends,
  flushes and reclaims, each of which may succeed or fail anywhere, from the state in which recovery
  constructs the writer. The properties say that an acknowledged record survives, that a flush
  acknowledges everything appended before it, and that the writer's own sanitizer never fires.
\<close>

section \<open>Runs\<close>

text \<open>What recovery hands to \<open>resume\<close>, a hypothesis of the properties below since \<open>recovery.rs\<close> is not
  modelled: sealed segments that are settled on disk with exactly their
  header and records, in order, below the next index, not past the durable sequence, and contiguous
  above the boundary \<open>holes\<close> that the checkpoint covers.\<close>

definition recovered ::
  "(bytes \<Rightarrow> u32) \<Rightarrow> uuid \<Rightarrow> crash_state \<Rightarrow> u64 \<Rightarrow> u64 \<Rightarrow> u64 \<Rightarrow> segment_info list \<Rightarrow> journal_record list list \<Rightarrow> bool" where
  "recovered crc u s holes durable next_index segs rss \<longleftrightarrow>
     cb_inv s \<and> length u = 16 \<and> durable \<noteq> - 1 \<and>
     list_all2 (\<lambda>i rs. seg_wf crc u i rs \<and> cb_settled s (journal_segment (sg_index i)) (seg_image crc u i rs)) segs rss \<and>
     sorted_wrt (<) (map sg_index segs) \<and>
     (\<forall>i \<in> set segs. sg_index i < next_index \<and>
        unat (sg_base i) + unat (sg_record_count i) \<le> unat durable + 1) \<and>
     chain holes None segs (durable + 1)"

text \<open>The log of a run holds the records of the recovered segments and every record an append has
  returned a sequence for; \<open>ck\<close> is the highest checkpoint up to which segments may have been
  reclaimed. A caller appends payloads within the format's bound and never reclaims below the covered
  boundary it declared.\<close>

inductive journal_run ::
  "('s, 'h) backing \<Rightarrow> (bytes \<Rightarrow> u32) \<Rightarrow> 'd hasher \<Rightarrow> 's \<times> ('h, 'd) journal_writer \<Rightarrow> journal_record list \<Rightarrow>
   's \<times> ('h, 'd) journal_writer \<Rightarrow> journal_record list \<Rightarrow> u64 \<Rightarrow> bool"
  for B crc H sw0 L0 where
  resumed: "journal_run B crc H sw0 L0 sw0 L0 0"
| appended: "journal_run B crc H sw0 L0 sw L ck \<Longrightarrow> length payload \<le> unat MAX_PAYLOAD \<Longrightarrow>
    append_record B crc H unit_index payload sw = (Inr n, sw') \<Longrightarrow>
    journal_run B crc H sw0 L0 sw' (L @ [\<lparr>jr_sequence = n, jr_unit_index = unit_index, jr_payload = payload\<rparr>]) ck"
| append_failed: "journal_run B crc H sw0 L0 sw L ck \<Longrightarrow> length payload \<le> unat MAX_PAYLOAD \<Longrightarrow>
    append_record B crc H unit_index payload sw = (Inl e, sw') \<Longrightarrow> journal_run B crc H sw0 L0 sw' L ck"
| flushed: "journal_run B crc H sw0 L0 sw L ck \<Longrightarrow> sync B crc H sw = (r, sw') \<Longrightarrow> journal_run B crc H sw0 L0 sw' L ck"
| reclaimed: "journal_run B crc H sw0 L0 sw L ck \<Longrightarrow> jw_holes_allowed_below (snd sw) \<le> c \<Longrightarrow>
    delete_covered B c sw = (r', sw') \<Longrightarrow> journal_run B crc H sw0 L0 sw' L (max ck c)"

section \<open>The invariant of runs\<close>

context log_medium
begin

definition tracks ::
  "(bytes \<Rightarrow> u32) \<Rightarrow> uuid \<Rightarrow> u64 \<Rightarrow> 's \<times> ('h, 'd) journal_writer \<Rightarrow> journal_record list \<Rightarrow> u64 \<Rightarrow> bool" where
  "tracks crc u d sw L ck \<longleftrightarrow>
     jw_volume_uuid (snd sw) = u \<and> d \<le> jw_durable_sequence (snd sw) \<and> (\<forall>q \<in> set L. jr_sequence q \<le> jw_appended_sequence (snd sw)) \<and>
     (\<exists>L'. logged crc L' sw \<and> (\<forall>q \<in> set L. ck < jr_sequence q \<longrightarrow> q \<in> set L'))"

lemma logged_next: "logged crc L (s, w) \<Longrightarrow> jw_appended_sequence w < jw_next_sequence w"
  by (auto simp: logged_def jinv_def counters_def word_less_nat_alt)

lemma run_tracks:
  assumes "journal_run B crc H sw0 L0 sw L ck" and "tracks crc u d sw0 L0 0" and "length u = 16"
  shows "tracks crc u d sw L ck"
  using assms
proof (induction rule: journal_run.induct)
  case resumed
  then show ?case by simp
next
  case (appended sw L ck payload unit_index n sw')
  obtain s w s' w' where sw: "sw = (s, w)" "sw' = (s', w')"
    by fastforce
  let ?q = "\<lparr>jr_sequence = n, jr_unit_index = unit_index, jr_payload = payload\<rparr>"
  obtain L' where L': "logged crc L' (s, w)" "\<forall>q \<in> set L. ck < jr_sequence q \<longrightarrow> q \<in> set L'"
    and u: "jw_volume_uuid w = u" "d \<le> jw_durable_sequence w" and le: "\<forall>q \<in> set L. jr_sequence q \<le> jw_appended_sequence w"
    using appended sw by (auto simp: tracks_def)
  note A = append_spec [OF L'(1) _ appended.hyps(2) appended.hyps(3) [unfolded sw]]
  have n: "n = jw_next_sequence w" "jw_appended_sequence w' = n" "jw_volume_uuid w' = u" "d \<le> jw_durable_sequence w'"
    "logged crc (L' @ [?q]) (s', w')"
    using A u appended.prems(2) by auto
  then have "jr_sequence q \<le> jw_appended_sequence w'" if "q \<in> set L" for q
    using le that logged_next [OF L'(1)] by fastforce
  then show ?case
    using n L'(2) sw unfolding tracks_def by fastforce
next
  case (append_failed sw L ck payload unit_index e sw')
  obtain s w s' w' where sw: "sw = (s, w)" "sw' = (s', w')"
    by fastforce
  obtain L' where L': "logged crc L' (s, w)" "\<forall>q \<in> set L. ck < jr_sequence q \<longrightarrow> q \<in> set L'"
    and u: "jw_volume_uuid w = u" "d \<le> jw_durable_sequence w" and le: "\<forall>q \<in> set L. jr_sequence q \<le> jw_appended_sequence w"
    using append_failed sw by (auto simp: tracks_def)
  note A = append_spec [OF L'(1) _ append_failed.hyps(2) append_failed.hyps(3) [unfolded sw]]
  then show ?case
    using u append_failed.prems(2) L'(2) le sw by (auto simp: tracks_def)
next
  case (flushed sw L ck r sw')
  obtain s w s' w' where sw: "sw = (s, w)" "sw' = (s', w')"
    by fastforce
  obtain L' where L': "logged crc L' (s, w)" "\<forall>q \<in> set L. ck < jr_sequence q \<longrightarrow> q \<in> set L'"
    and u: "jw_volume_uuid w = u" "d \<le> jw_durable_sequence w" and le: "\<forall>q \<in> set L. jr_sequence q \<le> jw_appended_sequence w"
    using flushed sw by (auto simp: tracks_def)
  show ?case
    using sync_spec [OF L'(1) flushed.hyps(2) [unfolded sw]] u L'(2) le sw by (auto simp: tracks_def settles_def)
next
  case (reclaimed sw L ck c r' sw')
  obtain s w s' w' where sw: "sw = (s, w)" "sw' = (s', w')"
    by fastforce
  obtain L' where L': "logged crc L' (s, w)" "\<forall>q \<in> set L. ck < jr_sequence q \<longrightarrow> q \<in> set L'"
    and u: "jw_volume_uuid w = u" "d \<le> jw_durable_sequence w" and le: "\<forall>q \<in> set L. jr_sequence q \<le> jw_appended_sequence w"
    using reclaimed sw by (auto simp: tracks_def)
  have "jw_holes_allowed_below w \<le> c"
    using reclaimed.hyps(2) sw by simp
  from delete_spec [OF L'(1) this reclaimed.hyps(3) [unfolded sw]] obtain D K
    where K: "settles w w'" "L' = D @ K" "\<forall>q \<in> set D. jr_sequence q \<le> c" "logged crc K (s', w')"
    by blast
  have "q \<in> set K" if "q \<in> set L" "max ck c < jr_sequence q" for q
    using that L'(2) K(2,3) by fastforce
  then show ?case
    using K(1,4) u le sw unfolding tracks_def settles_def by auto
qed

lemma resume_logged:
  assumes "inv s" and "sealed_ok crc u s segs rss" and "sorted_wrt (<) (map sg_index segs)" and "durable \<noteq> - 1"
    and "\<forall>i \<in> set segs. sg_index i < next_index \<and> unat (sg_base i) + unat (sg_record_count i) \<le> unat durable + 1"
    and "chain holes None segs (durable + 1)"
  shows "logged crc (concat rss) (s, allow_covered_holes_below holes (resume u seg_size durable next_index segs pf))"
proof (rule loggedI)
  have "1 + durable \<noteq> 0"
    using assms(4) by (metis add.commute eq_neg_iff_add_eq_0)
  from unatSuc [OF this] have "unat (durable + 1) = unat durable + 1"
    by (simp add: add.commute)
  then show "jinv crc rss [] [] (s, allow_covered_holes_below holes (resume u seg_size durable next_index segs pf))"
    using assms by (simp add: jinv_def mark_ok_def counters_def allow_covered_holes_below_def resume_def all_segments_def)
qed simp

end

section \<open>An example journal\<close>

text \<open>A disk with one sealed segment of one record, and the writer resumed on it.\<close>

definition demo_uuid :: uuid where
  "demo_uuid = replicate 16 0"

definition demo_hasher :: "u64 hasher" where
  "demo_hasher = \<lparr>hs_new = 0, hs_write = (\<lambda>d bs. d + of_nat (sum_list (map unat bs))), hs_finish = id\<rparr>"

definition demo_record :: journal_record where
  "demo_record = \<lparr>jr_sequence = 1, jr_unit_index = 7, jr_payload = [9]\<rparr>"

definition demo_segment :: segment_info where
  "demo_segment = \<lparr>sg_index = 0, sg_base = 1, sg_record_count = 1, sg_size = 81\<rparr>"

definition demo_disk :: crash_state where
  "demo_disk = crash_new\<lparr>
     cb_inodes := [0 \<mapsto> from_content (seg_image demo_crc demo_uuid demo_segment [demo_record])],
     cb_names := fmupd (journal_segment 0) \<lparr>nm_durable = Some 0, nm_volatile = Some 0, nm_change = 0\<rparr> fmempty,
     cb_next_inode := 1\<rparr>"

definition demo_start :: "crash_state \<times> (crash_file, u64) journal_writer" where
  "demo_start = (demo_disk, allow_covered_holes_below 0 (resume demo_uuid 4096 1 1 [demo_segment] (proof_initial demo_uuid)))"

text \<open>One more append and a flush, whatever they return.\<close>

definition demo_end :: "crash_state \<times> (crash_file, u64) journal_writer" where
  "demo_end = snd (sync crash_backing demo_crc demo_hasher
     (snd (append_record crash_backing demo_crc demo_hasher 8 [5] demo_start)))"

lemma demo_path: "validate (journal_segment 0) False = Inr ()"
  by code_simp

lemma demo_recovered: "recovered demo_crc demo_uuid demo_disk 0 1 1 [demo_segment] [[demo_record]]"
proof -
  have inv: "cb_inv demo_disk"
    using demo_path by (auto simp: cb_inv_def hook_ok_def names_ok_def demo_disk_def crash_new_def entry_ids_def)
  have "length (segment_header_encode demo_crc h) = 48" if "length (sg_volume_uuid h) = 16" for h
    using crash.segment_header_length [OF that] by (simp add: SEGMENT_HEADER_SIZE_def)
  then have wf: "seg_wf demo_crc demo_uuid demo_segment [demo_record]"
    by (simp add: seg_wf_def seg_image_def demo_uuid_def demo_segment_def demo_record_def checked_add_def MAX_PAYLOAD_def)
  have "cb_settled demo_disk (journal_segment 0) (seg_image demo_crc demo_uuid demo_segment [demo_record])"
    by (simp add: cb_settled_def demo_disk_def calm_def from_content_def)
  then show ?thesis
    using inv wf by (simp add: recovered_def demo_segment_def demo_uuid_def bridged_def)
qed

lemma demo_run:
  "\<exists>L. journal_run crash_backing demo_crc demo_hasher demo_start [demo_record] demo_end L 0 \<and> demo_record \<in> set L"
proof -
  let ?run = "journal_run crash_backing demo_crc demo_hasher demo_start [demo_record]"
  obtain r sw where a: "append_record crash_backing demo_crc demo_hasher 8 [5] demo_start = (r, sw)"
    by (metis surj_pair)
  have len: "length [5 :: byte] \<le> unat MAX_PAYLOAD"
    by (simp add: MAX_PAYLOAD_def)
  have "\<exists>L. ?run sw L 0 \<and> demo_record \<in> set L"
  proof (cases r)
    case (Inl e)
    from journal_run.append_failed [OF journal_run.resumed len a [unfolded this]] show ?thesis
      by (intro exI [of _ "[demo_record]"]) simp
  next
    case (Inr n)
    from journal_run.appended [OF journal_run.resumed len a [unfolded this]] show ?thesis
      by (intro exI conjI) auto
  qed
  then show ?thesis
    using journal_run.flushed [of crash_backing demo_crc demo_hasher demo_start "[demo_record]" sw] a
    unfolding demo_end_def by (metis prod.collapse snd_conv)
qed

section \<open>Properties\<close>

lemma recovered_tracks:
  assumes "recovered crc u s holes durable next_index segs rss"
  shows "crash.tracks crc u durable (s, allow_covered_holes_below holes (resume u seg_size durable next_index segs pf)) (concat rss) 0"
    and "length u = 16"
proof -
  let ?w = "allow_covered_holes_below holes (resume u seg_size durable next_index segs pf)"
  have seq: "jr_sequence q \<le> durable" if q: "q \<in> set (concat rss)" for q
  proof -
    obtain j where j: "j < length rss" "q \<in> set (rss ! j)"
      using q by (metis in_set_conv_nth set_concat UN_E)
    then have wf: "seg_wf crc u (segs ! j) (rss ! j)" and "segs ! j \<in> set segs"
      using assms by (auto simp: recovered_def list_all2_conv_all_nth)
    then have "unat (sg_base (segs ! j)) + length (rss ! j) \<le> unat durable + 1"
      using assms unfolding recovered_def seg_wf_def by metis
    moreover have "unat (jr_sequence q) < unat (sg_base (segs ! j)) + length (rss ! j)"
      using wf j(2) log_ok_sequence unfolding seg_wf_def by blast
    ultimately show ?thesis
      by (simp add: word_le_nat_alt)
  qed
  have "crash.logged crc (concat rss) (s, ?w)"
    using assms by (intro crash.resume_logged) (auto simp: recovered_def crash.sealed_ok_def)
  moreover have "jw_volume_uuid ?w = u" and "jw_appended_sequence ?w = durable" and "jw_durable_sequence ?w = durable"
    by (simp_all add: allow_covered_holes_below_def resume_def)
  ultimately show "crash.tracks crc u durable (s, ?w) (concat rss) 0"
    using seq unfolding crash.tracks_def snd_conv by (metis order_refl)
  show "length u = 16"
    using assms by (simp add: recovered_def)
qed

lemmas run_logged = crash.run_tracks [OF _ recovered_tracks]

text \<open>A segment file that starts with an image scans to the records of the image, whatever follows.\<close>

lemma scan_image:
  assumes "prefix (seg_image crc u i rs) c" and "log_ok (sg_base i) rs" and "q \<in> set rs" and "length u = 16"
  shows "segment_header_decode crc c = Inr \<lparr>sg_segment_index = sg_index i, sg_volume_uuid = u, sg_base_sequence = sg_base i\<rparr>"
    and "q \<in> set (fst (scan_segment_bounded crc (drop SEGMENT_HEADER_SIZE c) (sg_base i) dl))"
proof -
  let ?h = "\<lparr>sg_segment_index = sg_index i, sg_volume_uuid = u, sg_base_sequence = sg_base i\<rparr>"
  obtain t where c: "c = segment_header_encode crc ?h @ encode_log crc rs @ t"
    using assms(1) by (auto simp: prefix_def seg_image_def)
  show "segment_header_decode crc c = Inr ?h"
    using segment_header_decode_encode [of ?h crc "encode_log crc rs @ t"] assms(4) c by simp
  have len: "length (segment_header_encode crc ?h) = SEGMENT_HEADER_SIZE"
    using assms(4) by (simp add: crash.segment_header_length)
  let ?b = "drop SEGMENT_HEADER_SIZE c"
  have b: "drop 0 ?b = encode_log crc rs @ t"
    using len c by simp
  obtain out oc where out: "scan_segment_bounded crc ?b (sg_base i) dl = (out, oc)"
    by fastforce
  then have "scan_loop crc ?b dl rs (length (encode_log crc rs)) (sg_base i + of_nat (length rs)) = (out, oc)"
    using scan_loop_log [OF assms(2) b, of dl "[]"] by (simp add: scan_segment_bounded_def)
  moreover have "length (encode_log crc rs) \<le> length ?b"
    using b by simp
  ultimately have "\<exists>qs. out = rs @ qs"
    using scan_loop_sound by blast
  then show "q \<in> set (fst (scan_segment_bounded crc ?b (sg_base i) dl))"
    using out assms(3) by auto
qed

text \<open>C4: An acknowledged journal record survives. Take any run of the writer from a recovered journal,
  with any mixture of succeeding and failing appends, flushes and reclaims, and then any number of
  crashes. Every record of the log that the durable sequence covers and no reclaim's checkpoint covers
  is still on disk: some segment the writer lists is visible with its own header, and the recovery
  scan of that segment returns the record, whatever tail the crash left behind it.\<close>

theorem journal_acknowledged:
  assumes "recovered crc u s0 holes durable next_index segs rss"
    and "journal_run crash_backing crc H (s0, allow_covered_holes_below holes (resume u seg_size durable next_index segs pf))
      (concat rss) (s, w) L ck"
    and "cb_crash\<^sup>*\<^sup>* s s'"
    and "q \<in> set L" and "ck < jr_sequence q" and "jr_sequence q \<le> jw_durable_sequence w"
  shows "\<exists>i c. i \<in> set (all_segments w) \<and> cb_view s' (journal_segment (sg_index i)) = Some c \<and>
    segment_header_decode crc c =
      Inr \<lparr>sg_segment_index = sg_index i, sg_volume_uuid = u, sg_base_sequence = sg_base i\<rparr> \<and>
    (\<forall>dl. q \<in> set (fst (scan_segment_bounded crc (drop SEGMENT_HEADER_SIZE c) (sg_base i) dl)))"
proof -
  have u: "length u = 16"
    using recovered_tracks(2) [OF assms(1)] .
  obtain L' where L': "crash.logged crc L' (s, w)" "q \<in> set L'" "jw_volume_uuid w = u"
    using run_logged [OF assms(2,1,1)] assms(4,5) by (auto simp: crash.tracks_def)
  then have inv: "cb_inv s"
    by (auto simp: crash.logged_def crash.jinv_def)
  obtain i rs where i: "i \<in> set (all_segments w)" "log_ok (sg_base i) rs" "q \<in> set rs"
    "cb_held s (journal_segment (sg_index i)) (seg_image crc u i rs)"
    using crash.logged_held [OF L'(1,2) assms(6)] L'(3) by auto
  then obtain c where "cb_view s' (journal_segment (sg_index i)) = Some c" "prefix (seg_image crc u i rs) c"
    using crash.held_crashes [OF assms(3) inv] crash.held_view by blast
  then show ?thesis
    using i(1) scan_image [OF _ i(2,3) u] by blast
qed

theorem journal_acknowledged_witness:
  "\<exists>i c. i \<in> set (all_segments (snd demo_end)) \<and>
    cb_view (crash_all_lost (fst demo_end)) (journal_segment (sg_index i)) = Some c \<and>
    segment_header_decode demo_crc c =
      Inr \<lparr>sg_segment_index = sg_index i, sg_volume_uuid = demo_uuid, sg_base_sequence = sg_base i\<rparr> \<and>
    (\<forall>dl. demo_record \<in> set (fst (scan_segment_bounded demo_crc (drop SEGMENT_HEADER_SIZE c) (sg_base i) dl)))"
proof -
  obtain s w where e: "demo_end = (s, w)"
    by fastforce
  obtain L where run: "journal_run crash_backing demo_crc demo_hasher
      (demo_disk, allow_covered_holes_below 0 (resume demo_uuid 4096 1 1 [demo_segment] (proof_initial demo_uuid)))
      (concat [[demo_record]]) (s, w) L 0" and L: "demo_record \<in> set L"
    using demo_run e by (auto simp: demo_start_def)
  have "cb_crash\<^sup>*\<^sup>* s (crash_all_lost s)"
    by (rule r_into_rtranclp) (simp add: cb_crash_def)
  moreover have "jr_sequence demo_record \<le> jw_durable_sequence w"
    using run_logged [OF run demo_recovered demo_recovered] by (simp add: crash.tracks_def demo_record_def)
  moreover have "0 < jr_sequence demo_record"
    by (simp add: demo_record_def)
  ultimately show ?thesis
    unfolding e fst_conv snd_conv by (intro journal_acknowledged [OF demo_recovered run _ L])
qed

text \<open>C5: A flush acknowledges everything appended before it. In any run from a recovered journal,
  when \<open>sync\<close> returns, it returns the writer's new durable sequence, which no record of the log
  exceeds, and with no append since it equals the appended sequence; when it fails, the durable
  sequence has not moved back.\<close>

theorem journal_flush_covers:
  assumes "recovered crc u s0 holes durable next_index segs rss"
    and "journal_run crash_backing crc H (s0, allow_covered_holes_below holes (resume u seg_size durable next_index segs pf))
      (concat rss) (s, w) L ck"
    and "sync crash_backing crc H (s, w) = (r, s', w')"
  shows "(case r of
      Inr n \<Rightarrow> jw_durable_sequence w' = n \<and> jw_appended_sequence w' = n \<and> (\<forall>q \<in> set L. jr_sequence q \<le> n)
    | Inl e \<Rightarrow> jw_appended_sequence w' = jw_appended_sequence w) \<and>
    jw_durable_sequence w \<le> jw_durable_sequence w'"
proof -
  obtain L' where L': "crash.logged crc L' (s, w)" and le: "\<forall>q \<in> set L. jr_sequence q \<le> jw_appended_sequence w"
    using run_logged [OF assms(2,1,1)] by (auto simp: crash.tracks_def)
  show ?thesis
    using crash.sync_spec [OF L' assms(3)] le by (auto simp: crash.settles_def split: sum.splits)
qed

theorem journal_flush_covers_witness:
  "\<exists>sw. sync crash_backing demo_crc demo_hasher demo_start = (Inr 1, sw) \<and> jw_durable_sequence (snd sw) = 1 \<and>
    jr_sequence demo_record \<le> 1"
proof -
  obtain s w where start: "demo_start = (s, w)"
    by fastforce
  have "\<exists>sw. sync crash_backing demo_crc demo_hasher demo_start = (Inr 1, sw)"
    by (simp add: demo_start_def sync_def cleanup_failed_creation_def sync_active_def allow_covered_holes_below_def
      resume_def io_bind_def io_return_def ask_def upd_def)
  then obtain s' w' where sync: "sync crash_backing demo_crc demo_hasher (s, w) = (Inr 1, s', w')"
    using start by auto
  have "journal_run crash_backing demo_crc demo_hasher
      (demo_disk, allow_covered_holes_below 0 (resume demo_uuid 4096 1 1 [demo_segment] (proof_initial demo_uuid)))
      (concat [[demo_record]]) (s, w) (concat [[demo_record]]) 0"
    using journal_run.resumed start by (simp add: demo_start_def)
  from journal_flush_covers [OF demo_recovered this sync] show ?thesis
    using sync start by auto
qed

text \<open>C8: The writer's sanitizer \<open>check_invariants\<close>, which a debug build runs inside the operations,
  never fires: it holds in every state a run from a recovered journal reaches.\<close>

theorem journal_invariants:
  assumes "recovered crc u s0 holes durable next_index segs rss"
    and "journal_run crash_backing crc H (s0, allow_covered_holes_below holes (resume u seg_size durable next_index segs pf))
      (concat rss) (s, w) L ck"
  shows "check_invariants crash_backing s w"
proof -
  have "\<exists>L'. crash.logged crc L' (s, w)" "jw_volume_uuid w = u"
    using run_logged [OF assms(2,1,1)] by (auto simp: crash.tracks_def)
  then show ?thesis
    using crash.jinv_check recovered_tracks(2) [OF assms(1)] by (auto simp: crash.logged_def)
qed

theorem journal_invariants_witness: "check_invariants crash_backing (fst demo_end) (snd demo_end)"
proof -
  obtain s w where e: "demo_end = (s, w)"
    by fastforce
  obtain L where run: "journal_run crash_backing demo_crc demo_hasher
      (demo_disk, allow_covered_holes_below 0 (resume demo_uuid 4096 1 1 [demo_segment] (proof_initial demo_uuid)))
      (concat [[demo_record]]) (s, w) L 0"
    using demo_run e by (auto simp: demo_start_def)
  show ?thesis
    unfolding e fst_conv snd_conv by (rule journal_invariants [OF demo_recovered run])
qed

end
