(* ===== verification/Spec2Isabelle.thy ===== *)
theory Spec2Isabelle
  imports Checkpoint Allocation Catalog Canary Slot Superblock Layout Footprint Init Overlay Lru_Cache Endpoint_Limits Checked Breaker Drain Journal_Run
begin

text \<open>
  \<^bold>\<open>Verification of maki\<close>, a block device that stores only ciphertext. A write is encrypted by a
  provider, appended to a journal, published in an in-memory overlay, and later copied by a checkpoint
  to its slot in a shard file; a flush is acknowledged after the journal and a proof of its durable
  length have been synced. Small metadata files exist in two copies (A/B) with a generation number.
  Everything reaches the disk through the traits \<open>Backing\<close> and \<open>BackingFile\<close>, and the promises that
  matter are about what is still there after a crash.

  \<^bold>\<open>How the model is built.\<close> A Rust function is a HOL function of the same name. \<open>Result\<close> is a sum with
  the error on the left; a method that does I/O has type \<open>('s, 'e, 'a) io\<close>, from a state of the backing
  to a result and a new state, which is also returned when the call fails. Machine integers are words
  of their width, with \<open>checked_add\<close> and the like written out in \<open>Prelude\<close>; file offsets and lengths are
  natural numbers. Code outside the repository is a parameter: the checksum \<open>crc\<close> (crc32fast), the
  fingerprint \<open>H\<close> (\<open>DefaultHasher\<close>), the provider behind the checks, the clock as an argument. No
  property assumes anything about \<open>crc\<close> or \<open>H\<close> unless its statement says so.

  \<^bold>\<open>The on-disk format\<close> (\<open>crates/maki-format\<close>).
  \<^item> \<open>Codec\<close>: the byte reader and writer and the checksum framing of \<open>codec.rs\<close>, the errors of \<open>error.rs\<close>.
  \<^item> \<open>Checkpoint\<close>, \<open>Allocation\<close>, \<open>Catalog\<close>, \<open>Canary\<close>, \<open>Slot\<close>, \<open>Superblock\<close>: one theory per record, with
    its codec, its well-formedness predicate, and that decoding inverts encoding. \<open>Ab_Record\<close> is the
    trait \<open>AbRecord\<close> as a record of operations; its laws are the locale \<open>ab_codec\<close>, interpreted for each
    of the four A/B records.
  \<^item> \<open>Geometry\<close>: the checked computation of the device geometry of \<open>geometry.rs\<close>.
  \<^item> \<open>Path\<close>, \<open>Layout\<close>: path validation (\<open>maki-backing/src/path.rs\<close>) and every name of the layout
    (\<open>lib.rs\<close>), with injectivity and the parsers.
  \<^item> \<open>Journal_Format\<close>: records, segment headers, the durable mark and the bounded scanner of \<open>journal.rs\<close>;
    \<open>Footprint\<close>: its space accounting. The scanner is shown exact (what it returns is literally in the
    buffer, and its verdict names the first byte that is not) and complete on cut logs; the
    constant-time projection of an append equals appending one record at a time.
  \<^item> \<open>Ab_Store\<close> (\<open>ab.rs\<close>), \<open>Durable_Proof\<close> (\<open>durable_proof.rs\<close>), \<open>Superblock_Load\<close> (\<open>superblock.rs\<close>), \<open>Init\<close>
    (\<open>init.rs\<close>): the programs over the backing. \<open>Endpoint_Limits\<close>: the JSON budget of
    \<open>endpoint_limits.rs\<close>.

  \<^bold>\<open>The backing\<close> (\<open>crates/maki-backing\<close>, \<open>crates/maki-test-support\<close>).
  \<^item> \<open>Backing\<close>: the two traits as one record of operations, and their contract for a single file, the
    locale \<open>ab_medium\<close>: what readers see (\<open>view\<close>), what no crash can change (\<open>settled\<close>), what a directory
    sync would settle (\<open>synced\<close>), and which handle refers to which path (\<open>opened\<close>).
  \<^item> \<open>Directory\<close>: the contract for a whole tree (\<open>ab_directory\<close>), in which each operation leaves every
    other path alone; \<open>modifies\<close> and \<open>keeps\<close> are its frame rules. \<open>Log_Medium\<close>: the contract for files
    that grow (\<open>log_medium\<close>), with a crash-proof prefix (\<open>held\<close>) and the range that the next successful
    data sync persists (\<open>cover\<close>).
  \<^item> \<open>Mem_Backing\<close> (\<open>mem.rs\<close>) and \<open>Crash_Backing\<close> (\<open>crash_backing.rs\<close>) model the two backings of the
    repository that are pure code: volatile and durable state, fault hooks, torn writes, lost dirty
    pages after a failed sync, and every kind of crash. Both meet \<open>ab_directory\<close>; \<open>Crash_Log\<close> shows that
    the second one also meets \<open>log_medium\<close>. The protocol theorems are proved once inside the locales and
    stated for \<open>crash_backing\<close> through the interpretations.

  \<^bold>\<open>The storage protocols.\<close> \<open>Ab_Store\<close> and \<open>Ab_Crash\<close>: over any history of stores, failures and
  crashes, a load returns a generation at least as new as the last acknowledged one (locale
  \<open>ab_protocol\<close>). \<open>Durable_Proof\<close>: the acknowledged horizon never regresses and is mirrored on both
  copies (locale \<open>proof_protocol\<close>). \<open>Init\<close>: the superblock is the commit point of \<open>create_volume\<close>,
  and a completed creation survives. Loads are where the two sides meet: \<open>Load_Faults\<close> shows that a load
  of these files can fail with an I/O error only where the fault hook injects one, and \<open>found\<close> says that
  a load returns what it should unless such an error is injected.

  \<^bold>\<open>The core\<close> (\<open>crates/maki-core\<close>, \<open>crates/maki-cache\<close>).
  \<^item> \<open>Journal_Writer\<close>: all of \<open>JournalWriter\<close>, a record beside the state of the backing; \<open>Journal_Barrier\<close>:
    the invariant that relates the two and its preservation by the durability barrier, with every
    failure in between; \<open>Journal_Safety\<close>: the same for rolling, appending and reclaiming, all inside the
    locale \<open>log_medium\<close>; \<open>Journal_Run\<close>: runs that interleave these operations from the state recovery
    hands to \<open>resume\<close> (\<open>recovered\<close>, a hypothesis, since recovery itself is not modelled). An acknowledged record survives every crash, a
    flush covers everything appended before it, and the sanitizer never fires.
  \<^item> \<open>Overlay\<close> (on \<open>Ordered_Map\<close>, the \<open>BTreeMap\<close> operations): under the ordering rule the overlay is a
    function of the log of publications, and the sanitizer holds.
  \<^item> \<open>Lru_Cache\<close>: the plaintext cache returns only the version asked for, stays within its limit, and its
    eviction loop ends.

  \<^bold>\<open>The provider\<close> (\<open>crates/maki-crypto\<close>) \<^bold>\<open>and the plugin\<close> (\<open>crates/maki-nbdkit\<close>).
  \<^item> \<open>Substring\<close>: the linear-time search for leaked plaintext; \<open>Checked\<close>: the wrapper that validates every
    answer of a provider; \<open>Breaker\<close>: the circuit breaker as a step relation; \<open>Drain\<close>: the gate that lets
    callbacks in and drains them.

  \<^bold>\<open>Bounds and fuel.\<close> No definition uses fuel. The scanner, the rewrite loop and the search end by
  measures; the eviction loop of the cache, which would not end on a corrupt state, is a partial
  function whose returning is a theorem.

  \<^bold>\<open>Not modelled.\<close> The file backing is system calls; its contract is the locales above. Recovery, the
  slot store, the volume and the engine compose the modelled parts under asynchronous tasks and locks.
  Rollback protection, the local and remote providers, the witness service, the control socket and the
  privileged helper are cryptography, network protocols and external programs. Log output, zeroization
  and the failpoints of test builds have no effect on the state that is modelled.
\<close>

end
